(* ===== verification/CCOS_Prelude.thy ===== *)
theory CCOS_Prelude
  imports Main "HOL-Library.Word" "HOL-Library.Monad_Syntax"
begin

text \<open>
  Shared material of the CCOS kernel verification library.

  \<^item> Names for the fixed-width C integers (\<open>kernel/defines/types.h\<close>).
  \<^item> The effect of a failed \<open>CCOS_ASSERT\<close>: an operation that may stop in
    \<open>panic()\<close> (or that would access memory out of bounds) returns an \<open>option\<close>,
    and \<open>None\<close> is the stopped kernel.
  \<^item> \<open>fold_opt\<close>, the counted loop whose body may stop.
  \<^item> The collection \<open>word_nat\<close> of rewrite rules that read machine words as naturals, and
    the alignment lemmas that the allocators share.
\<close>

unbundle bit_operations_syntax

type_synonym u8 = "8 word"
type_synonym u16 = "16 word"
type_synonym u32 = "32 word"
type_synonym u64 = "64 word"

named_theorems word_nat "machine words read as naturals"

subsection \<open>Assertions and loops that may stop\<close>

definition ccos_assert :: "bool \<Rightarrow> unit option" where
  "ccos_assert c = (if c then Some () else None)"

lemma ccos_assert_True [simp]: "ccos_assert True = Some ()"
  by (simp add: ccos_assert_def)

lemma ccos_assert_False [simp]: "ccos_assert False = None"
  by (simp add: ccos_assert_def)

lemma ccos_assert_Some [simp]: "ccos_assert c = Some u \<longleftrightarrow> c"
  by (simp add: ccos_assert_def)

lemma ccos_assert_bind_Some [simp]:
  "ccos_assert c \<bind> k = Some r \<longleftrightarrow> c \<and> k () = Some r"
  by (cases c) simp_all

fun fold_opt :: "('a \<Rightarrow> 's \<Rightarrow> 's option) \<Rightarrow> 'a list \<Rightarrow> 's \<Rightarrow> 's option" where
  "fold_opt f [] s = Some s"
| "fold_opt f (x # xs) s = (case f x s of None \<Rightarrow> None | Some s' \<Rightarrow> fold_opt f xs s')"

lemma fold_opt_append:
  "fold_opt f (xs @ ys) s = (case fold_opt f xs s of None \<Rightarrow> None | Some s' \<Rightarrow> fold_opt f ys s')"
  by (induction xs arbitrary: s) (auto split: option.splits)

text \<open>Total correctness of a loop from a step that always succeeds under an invariant.\<close>

lemma fold_opt_rule:
  assumes "P [] s"
    and "\<And>ys y t. P ys t \<Longrightarrow> y \<in> set xs \<Longrightarrow> \<exists>t'. f y t = Some t' \<and> P (ys @ [y]) t'"
  shows "\<exists>t. fold_opt f xs s = Some t \<and> P xs t"
  using assms
proof (induction xs rule: rev_induct)
  case Nil
  then show ?case by simp
next
  case (snoc x xs)
  then obtain t where "fold_opt f xs s = Some t" "P xs t"
    by auto
  moreover from snoc.prems(2) [OF this(2), of x]
  obtain t' where "f x t = Some t'" "P (xs @ [x]) t'"
    by auto
  ultimately show ?case
    by (simp add: fold_opt_append)
qed

lemma fold_opt_total:
  "(\<And>x t. x \<in> set xs \<Longrightarrow> f x t = Some (g x t)) \<Longrightarrow> fold_opt f xs s = Some (fold g xs s)"
  by (induction xs arbitrary: s) simp_all

lemma fold_opt_cong:
  "xs = ys \<Longrightarrow> (\<And>x t. x \<in> set ys \<Longrightarrow> f x t = g x t) \<Longrightarrow> fold_opt f xs s = fold_opt g ys s"
  by (induction ys arbitrary: xs s) (auto split: option.splits)

lemma fold_opt_map: "fold_opt f (map h xs) s = fold_opt (\<lambda>x. f (h x)) xs s"
  by (induction xs arbitrary: s) (auto split: option.splits)

lemma map_nth_take: "n \<le> length xs \<Longrightarrow> map ((!) xs) [0..<n] = take n xs"
  by (rule nth_equalityI) simp_all

lemma fold_nth_upt: "n \<le> length xs \<Longrightarrow> fold (\<lambda>i. f (xs ! i)) [0..<n] s = fold f (take n xs) s"
  by (simp add: fold_map [of f "\<lambda>i. xs ! i", unfolded comp_def, symmetric] map_nth_take)

lemma fold_opt_nth: "n \<le> length xs \<Longrightarrow> fold_opt (\<lambda>i. f (xs ! i)) [0..<n] s = fold_opt f (take n xs) s"
  by (simp add: fold_opt_map flip: map_nth_take)

text \<open>
  The search loop \<open>for (i \<dots>) if (p(i)) return i;\<close> over a list of indices: \<open>Some None\<close>
  when the loop runs out, \<open>None\<close> when a test stops.
\<close>

fun find_opt :: "('a \<Rightarrow> bool option) \<Rightarrow> 'a list \<Rightarrow> 'a option option" where
  "find_opt p [] = Some None"
| "find_opt p (x # xs) =
     (case p x of None \<Rightarrow> None | Some b \<Rightarrow> if b then Some (Some x) else find_opt p xs)"

lemma find_opt_total:
  "(\<And>x. x \<in> set xs \<Longrightarrow> p x = Some (q x)) \<Longrightarrow> find_opt p xs = Some (find q xs)"
  by (induction xs) auto

lemma find_upt_Some:
  assumes "find q [a..<b] = Some i"
  shows "a \<le> i" "i < b" "q i" and "\<And>j. a \<le> j \<Longrightarrow> j < i \<Longrightarrow> \<not> q j"
proof -
  from assms obtain n where n: "n < b - a" "q ([a..<b] ! n)" "i = [a..<b] ! n"
    "\<forall>j < n. \<not> q ([a..<b] ! j)"
    by (auto simp: find_Some_iff)
  then have i: "i = a + n" by simp
  with n show "a \<le> i" "i < b" "q i" by auto
  show "\<not> q j" if "a \<le> j" "j < i" for j
    using n(4) [rule_format, of "j - a"] n(1) that i by simp
qed

lemma find_upt_None: "find q [a..<b] = None \<longleftrightarrow> (\<forall>j. a \<le> j \<and> j < b \<longrightarrow> \<not> q j)"
  by (auto simp: find_None_iff)

subsection \<open>Words read as naturals\<close>

lemma unat_drop_bit [word_nat]: "unat (drop_bit n (w :: 'a::len word)) = unat w div 2 ^ n"
  by (simp only: unat_drop_bit_eq drop_bit_eq_div [where 'a = nat])

lemma unat_add_small [word_nat]:
  "unat a + unat b < 2 ^ LENGTH('a) \<Longrightarrow> unat (a + b :: 'a::len word) = unat a + unat b"
  by (simp add: unat_word_ariths)

lemma unat_less_exp [simp]: "unat (w :: 'a::len word) < 2 ^ LENGTH('a)"
  by (rule unsigned_less)

lemma unat_of_nat_small [word_nat]:
  "n < 2 ^ LENGTH('a) \<Longrightarrow> unat (of_nat n :: 'a::len word) = n"
  by (simp add: unat_of_nat take_bit_nat_eq_self)

lemma unat_sub_le [word_nat]:
  "b \<le> a \<Longrightarrow> unat (a - b :: 'a::len word) = unat a - unat b"
  by (rule unat_sub)

lemma unat_min [word_nat]: "unat (min a b :: 'a::len word) = min (unat a) (unat b)"
  by (auto simp: min_def word_le_nat_alt)

lemma unat_mask [word_nat]:
  assumes "n \<le> LENGTH('a)"
  shows "unat (mask n :: 'a::len word) = 2 ^ n - 1"
proof -
  have "(mask n :: nat) < 2 ^ n"
    by (simp add: mask_eq_exp_minus_1)
  also have "(2 :: nat) ^ n \<le> 2 ^ LENGTH('a)"
    using assms by (simp add: power_increasing)
  finally have "unat (of_nat (mask n) :: 'a word) = mask n"
    by (rule unat_of_nat_small)
  then show ?thesis
    by (simp add: of_nat_mask_eq mask_eq_exp_minus_1)
qed

lemma and_not_mask: "w AND NOT (mask n) = push_bit n (drop_bit n (w :: 'a::len word))"
  by (rule bit_eqI) (auto simp: bit_simps)

lemma unat_and_not_mask [word_nat]:
  "unat (w AND NOT (mask n) :: 'a::len word) = unat w div 2 ^ n * 2 ^ n"
proof (cases "n < LENGTH('a)")
  case True
  have "unat w div 2 ^ n * 2 ^ n < 2 ^ LENGTH('a)"
    by (rule le_less_trans [OF _ unat_less_exp [of w]]) simp
  moreover have "unat (push_bit n (drop_bit n w)) = unat (drop_bit n w) * 2 ^ n mod 2 ^ LENGTH('a)"
    by (simp only: unsigned_push_bit_eq take_bit_eq_mod [where 'a = nat]
        push_bit_eq_mult [where 'a = nat])
  ultimately show ?thesis
    by (simp add: and_not_mask unat_drop_bit)
next
  case False
  then have "w AND NOT (mask n) = 0"
    by (intro bit_eqI) (auto simp: bit_simps)
  moreover from False have "unat w < 2 ^ n"
    by (meson leI less_le_trans one_le_numeral power_increasing unat_less_exp)
  ultimately show ?thesis by simp
qed

lemma unat_and_mask [word_nat]:
  "unat (w AND mask n :: 'a::len word) = unat w mod 2 ^ n"
  by (simp only: unsigned_take_bit_eq take_bit_eq_mod [where 'a = nat] flip: take_bit_eq_mask)

lemma exp_minus_1_mask: "(2 ^ n - 1 :: 'a::len word) = mask n"
  by (simp add: mask_eq_exp_minus_1)

end
