(* ===== verification/Bits.thy ===== *)
theory Bits
  imports CCOS_Prelude
begin

text \<open>
  Bit arithmetic of \<open>kernel/math/bits.h\<close>: powers of two, alignment and rounded division
  on \<open>unsigned long\<close> (64 bits). Every function is translated on words, so the wrap-around
  of the C code is part of the model. Division by zero is undefined in C and stops the model.
\<close>

subsection \<open>Definitions\<close>

definition is_power_of_2 :: "u64 \<Rightarrow> bool" where
  "is_power_of_2 n \<longleftrightarrow> n \<noteq> 0 \<and> n AND (n - 1) = 0"

definition smear :: "nat \<Rightarrow> u64 \<Rightarrow> u64" where
  "smear s n = n OR drop_bit s n"

definition round_up_to_power_of_2 :: "u64 \<Rightarrow> u64" where
  "round_up_to_power_of_2 n =
     (if n \<le> 1 then 1
      else let n = n - 1;
               n = smear 1 n;
               n = smear 2 n;
               n = smear 4 n;
               n = smear 8 n;
               n = smear 16 n;
               n = smear 32 n
           in n + 1)"

text \<open>The scan \<open>for (i = 63; i >= 0; i--)\<close>: the second argument is \<open>i + 1\<close>, and the
  loop ends with the initial \<open>p = 1\<close>.\<close>

fun round_down_scan :: "u64 \<Rightarrow> nat \<Rightarrow> u64" where
  "round_down_scan n 0 = 1"
| "round_down_scan n (Suc i) =
     (if n AND push_bit i 1 \<noteq> 0 then push_bit i 1 else round_down_scan n i)"

definition round_down_to_power_of_2 :: "u64 \<Rightarrow> u64" where
  "round_down_to_power_of_2 n = (if n = 0 then 0 else round_down_scan n 64)"

definition align_up :: "u64 \<Rightarrow> u64 \<Rightarrow> u64" where
  "align_up v alignment = (v + alignment - 1) AND NOT (alignment - 1)"

definition align_down :: "u64 \<Rightarrow> u64 \<Rightarrow> u64" where
  "align_down v alignment = v AND NOT (alignment - 1)"

definition is_aligned :: "u64 \<Rightarrow> u64 \<Rightarrow> bool" where
  "is_aligned v alignment \<longleftrightarrow> v AND (alignment - 1) = 0"

definition div_round_up :: "u64 \<Rightarrow> u64 \<Rightarrow> u64 option" where
  "div_round_up n d = (if d = 0 then None else Some ((n + d - 1) div d))"

definition div_round_down :: "u64 \<Rightarrow> u64 \<Rightarrow> u64 option" where
  "div_round_down n d = (if d = 0 then None else Some (n div d))"

definition div_round_nearest :: "u64 \<Rightarrow> u64 \<Rightarrow> u64 option" where
  "div_round_nearest n d = (if d = 0 then None else Some ((n + d div 2) div d))"

subsection \<open>The highest set bit\<close>

definition top_bit :: "u64 \<Rightarrow> nat \<Rightarrow> bool" where
  "top_bit w k \<longleftrightarrow> bit w k \<and> (\<forall>j > k. \<not> bit w j)"

lemma top_bit_less: "top_bit w k \<Longrightarrow> k < 64"
  by (auto simp: top_bit_def dest: bit_imp_le_length)

lemma top_bit_exists:
  assumes "w \<noteq> 0"
  shows "\<exists>k. top_bit w k"
proof -
  let ?B = "{k. bit w k}"
  have fin: "finite ?B"
    by (rule finite_subset [of _ "{..<64}"]) (auto dest: bit_imp_le_length)
  from assms obtain k where "bit w k"
    by (auto simp: bit_eq_iff)
  then have "Max ?B \<in> ?B"
    using fin by (intro Max_in) auto
  moreover have "j \<notin> ?B" if "j > Max ?B" for j
    using Max_ge [OF fin, of j] that leD by blast
  ultimately have "top_bit w (Max ?B)"
    unfolding top_bit_def by blast
  then show ?thesis by blast
qed

lemma top_bit_bounds:
  assumes "top_bit w k"
  shows "2 ^ k \<le> unat w" and "unat w < 2 ^ Suc k"
proof -
  have "drop_bit (Suc k) w = 0"
    using assms by (intro bit_eqI) (simp add: top_bit_def bit_simps)
  then have "unat w div 2 ^ Suc k = 0"
    by (metis unat_0 unat_drop_bit)
  then show "unat w < 2 ^ Suc k"
    by (simp add: div_eq_0_iff)
  from assms have "bit (unat w) k"
    by (simp add: top_bit_def bit_unsigned_iff top_bit_less)
  then have "odd (unat w div 2 ^ k)"
    by (simp add: bit_iff_odd)
  then have "unat w div 2 ^ k \<noteq> 0"
    by (metis even_zero)
  then show "2 ^ k \<le> unat w"
    by (metis div_less not_le)
qed

lemma top_bit_of_bounds:
  assumes "2 ^ k \<le> unat w" and "unat w < 2 ^ Suc k"
  shows "top_bit w k"
proof -
  from assms have "w \<noteq> 0"
    by (metis unat_0 le_zero_eq power_not_zero zero_neq_numeral)
  then obtain k' where k': "top_bit w k'"
    using top_bit_exists by blast
  have "(2 :: nat) ^ k < 2 ^ Suc k'" "(2 :: nat) ^ k' < 2 ^ Suc k"
    using top_bit_bounds [OF k'] assms by linarith+
  then have "k < Suc k'" "k' < Suc k"
    by (auto dest: power_less_imp_less_exp [of 2, rotated] simp del: power_Suc)
  then have "k' = k" by simp
  with k' show ?thesis by simp
qed

lemma unat_power_2: "k < 64 \<Longrightarrow> unat (2 ^ k :: u64) = 2 ^ k"
  using unat_of_nat_small [of "2 ^ k", where 'a = 64] power_strict_increasing [of k 64 "2 :: nat"]
  by simp

subsection \<open>Powers of two\<close>

lemma is_power_of_2_iff: "is_power_of_2 n \<longleftrightarrow> (\<exists>k < 64. n = 2 ^ k)"
proof
  assume p: "is_power_of_2 n"
  then obtain k where k: "top_bit n k"
    using top_bit_exists by (auto simp: is_power_of_2_def)
  have "n = 2 ^ k"
  proof (rule ccontr)
    assume "n \<noteq> 2 ^ k"
    then have "unat n \<noteq> 2 ^ k"
      using top_bit_less [OF k] by (metis unat_power_2 word_unat_eq_iff)
    then have lt: "2 ^ k < unat n"
      using top_bit_bounds(1) [OF k] by linarith
    then have "unat (n - 1) = unat n - 1"
      using p by (simp add: is_power_of_2_def unat_minus_one)
    then have "top_bit (n - 1) k"
      using lt top_bit_bounds [OF k] by (intro top_bit_of_bounds) auto
    with k have "bit (n AND (n - 1)) k"
      by (simp add: top_bit_def bit_and_iff)
    with p show False by (simp add: is_power_of_2_def)
  qed
  then show "\<exists>k < 64. n = 2 ^ k"
    using top_bit_less [OF k] by blast
next
  assume "\<exists>k < 64. n = 2 ^ k"
  then obtain k where k: "k < 64" "n = 2 ^ k" by blast
  then have "n \<noteq> 0"
    by (metis unat_power_2 unat_0 power_not_zero zero_neq_numeral)
  moreover have "n AND (n - 1) = 0"
    by (rule bit_eqI) (auto simp: k bit_simps exp_minus_1_mask)
  ultimately show "is_power_of_2 n"
    by (simp add: is_power_of_2_def)
qed

text \<open>After shifts by 1, 2, 4, \<dots> a bit is set iff some bit of the window above it was.\<close>

lemma smear_window:
  assumes "\<And>i. bit n i \<longleftrightarrow> (\<exists>j. i \<le> j \<and> j < i + s \<and> bit m j)"
  shows "bit (smear s n) i \<longleftrightarrow> (\<exists>j. i \<le> j \<and> j < i + 2 * s \<and> bit m j)"
proof -
  have "bit (smear s n) i \<longleftrightarrow> bit n i \<or> bit n (s + i)"
    by (simp add: smear_def bit_or_iff bit_drop_bit_eq)
  also have "\<dots> \<longleftrightarrow>
      (\<exists>j. (i \<le> j \<and> j < i + s \<or> s + i \<le> j \<and> j < s + i + s) \<and> bit m j)"
    unfolding assms by blast
  also have "\<dots> \<longleftrightarrow> (\<exists>j. i \<le> j \<and> j < i + 2 * s \<and> bit m j)"
  proof -
    have "(i \<le> j \<and> j < i + s \<or> s + i \<le> j \<and> j < s + i + s) \<longleftrightarrow> i \<le> j \<and> j < i + 2 * s" for j
      by arith
    then show ?thesis by (simp add: conj_assoc)
  qed
  finally show ?thesis .
qed

definition smear_all :: "u64 \<Rightarrow> u64" where
  "smear_all m = smear 32 (smear 16 (smear 8 (smear 4 (smear 2 (smear 1 m)))))"

lemma bit_smear_all: "bit (smear_all m) i \<longleftrightarrow> (\<exists>j \<ge> i. bit m j)"
proof -
  have 0: "\<And>i. bit m i \<longleftrightarrow> (\<exists>j. i \<le> j \<and> j < i + 1 \<and> bit m j)"
    by (auto simp: less_Suc_eq_le dest: le_antisym)
  note 1 = smear_window [OF 0, simplified mult_1_right]
  note 2 = smear_window [OF 1]
  note 3 = smear_window [OF 2]
  note 4 = smear_window [OF 3]
  note 5 = smear_window [OF 4]
  note 6 = smear_window [OF 5]
  have "bit (smear_all m) i \<longleftrightarrow> (\<exists>j. i \<le> j \<and> j < i + 64 \<and> bit m j)"
    using 6 [of i] by (simp add: smear_all_def)
  moreover have "j < i + 64" if "bit m j" for j
    using bit_imp_le_length [OF that] by simp
  ultimately show ?thesis
    by blast
qed

lemma smear_all_top:
  assumes "top_bit m k"
  shows "smear_all m = mask (Suc k)"
proof (rule bit_eqI)
  fix i
  assume i: "possible_bit TYPE(u64) i"
  have "(\<exists>j \<ge> i. bit m j) \<longleftrightarrow> i \<le> k"
    using assms by (auto simp: top_bit_def intro: leI dest: le_less_trans)
  then show "bit (smear_all m) i \<longleftrightarrow> bit (mask (Suc k) :: u64) i"
    using top_bit_less [OF assms] i
    by (simp add: bit_smear_all bit_mask_iff less_Suc_eq_le)
qed

lemma round_up_eq:
  assumes "1 < n" and "top_bit (n - 1) k"
  shows "round_up_to_power_of_2 n = 2 ^ Suc k"
proof -
  have "round_up_to_power_of_2 n = smear_all (n - 1) + 1"
    using assms(1) leD by (auto simp: round_up_to_power_of_2_def smear_all_def Let_def)
  also have "\<dots> = 2 ^ Suc k"
    using smear_all_top [OF assms(2)] by (simp add: mask_eq_exp_minus_1)
  finally show ?thesis .
qed

text \<open>
  C36: \<^verbatim>\<open>round_up_to_power_of_2(n)\<close> is the least power of two that is at least
  \<open>n\<close>, for every \<open>n\<close> for which one exists below \<open>2 ^ 64\<close>.
\<close>

theorem round_up_to_power_of_2_least:
  assumes "n \<le> 2 ^ 63"
  shows "is_power_of_2 (round_up_to_power_of_2 n) \<and> n \<le> round_up_to_power_of_2 n \<and>
    (\<forall>p. is_power_of_2 p \<and> n \<le> p \<longrightarrow> round_up_to_power_of_2 n \<le> p)"
proof (cases "n \<le> 1")
  case True
  moreover have "(1 :: u64) \<le> p" if "is_power_of_2 p" for p
    using that by (simp add: is_power_of_2_def word_le_nat_alt) (metis Suc_leI unat_gt_0)
  moreover have "is_power_of_2 1"
    by (simp add: is_power_of_2_def)
  ultimately show ?thesis
    by (simp add: round_up_to_power_of_2_def)
next
  case False
  then have n: "1 < n" "n \<noteq> 0" "n - 1 \<noteq> 0"
    by (auto simp: not_le)
  then obtain k where k: "top_bit (n - 1) k"
    using top_bit_exists by blast
  have unat_n: "unat n = Suc (unat (n - 1))"
    using n by (simp add: unat_minus_one) (metis Suc_pred unat_gt_0)
  have "(2 :: nat) ^ k < 2 ^ 63"
    using top_bit_bounds(1) [OF k] assms unat_n by (simp add: word_le_nat_alt)
  then have "k < 63"
    by (rule power_less_imp_less_exp [rotated]) simp
  note r = round_up_eq [OF n(1) k]
  have u: "unat (round_up_to_power_of_2 n) = 2 ^ Suc k"
    unfolding r using \<open>k < 63\<close> by (intro unat_power_2) simp
  have "round_up_to_power_of_2 n \<le> p" if pw: "is_power_of_2 p" and np: "n \<le> p" for p
  proof -
    obtain j where j: "j < 64" "p = 2 ^ j"
      using pw [unfolded is_power_of_2_iff] by blast
    have p: "unat p = 2 ^ j"
      unfolding j(2) by (rule unat_power_2 [OF j(1)])
    have "(2 :: nat) ^ k < 2 ^ j"
      using np unat_n top_bit_bounds(1) [OF k] unfolding word_le_nat_alt p by linarith
    then have "Suc k \<le> j"
      using power_less_imp_less_exp [of "2 :: nat" k j] by simp
    then show ?thesis
      unfolding word_le_nat_alt u p by (rule power_increasing) simp
  qed
  moreover have "n \<le> round_up_to_power_of_2 n"
    unfolding word_le_nat_alt u using top_bit_bounds(2) [OF k] unat_n by linarith
  moreover have "is_power_of_2 (round_up_to_power_of_2 n)"
    unfolding r is_power_of_2_iff using \<open>k < 63\<close> by (intro exI [of _ "Suc k"]) simp
  ultimately show ?thesis by blast
qed


theorem round_up_to_power_of_2_least_witness:
  "(100 :: u64) \<le> 2 ^ 63 \<and> is_power_of_2 (round_up_to_power_of_2 100) \<and>
   100 \<le> round_up_to_power_of_2 100"
  using round_up_to_power_of_2_least [of 100] by simp

text \<open>
  Above \<open>2 ^ 63\<close> there is no representable power of two left and the final increment wraps:
  the function returns 0.
\<close>

lemma round_up_to_power_of_2_overflow:
  assumes "2 ^ 63 < n"
  shows "round_up_to_power_of_2 n = 0"
proof -
  have "(1 :: u64) < 2 ^ 63"
    by simp
  then have "1 < n"
    using assms by (rule order.strict_trans)
  then have u: "unat (n - 1) = unat n - 1"
    by (intro unat_minus_one) auto
  have "2 ^ 63 < unat n" "unat n < 2 ^ 64"
    using assms unat_less_exp [of n] by (simp_all add: word_less_nat_alt)
  then have "top_bit (n - 1) 63"
    by (intro top_bit_of_bounds) (simp_all add: u)
  from round_up_eq [OF \<open>1 < n\<close> this] show ?thesis
    by simp
qed

lemma round_down_scan_top:
  assumes "top_bit n k" and "k < i"
  shows "round_down_scan n i = 2 ^ k"
  using assms(2)
proof (induction i)
  case 0
  then show ?case by simp
next
  case (Suc i)
  have "n AND push_bit i 1 \<noteq> 0 \<longleftrightarrow> bit n i"
    by (simp add: and_exp_eq_0_iff_not_bit push_bit_eq_mult)
  then show ?case
    using Suc assms(1) by (cases "i = k") (auto simp: top_bit_def push_bit_eq_mult)
qed

text \<open>
  for \<open>n > 0\<close>, \<^verbatim>\<open>round_down_to_power_of_2(n)\<close> is the greatest power of two that
  is at most \<open>n\<close>: the scan from bit 63 stops at the most significant set bit.
\<close>

theorem round_down_to_power_of_2_greatest:
  assumes "n \<noteq> 0"
  shows "is_power_of_2 (round_down_to_power_of_2 n) \<and> round_down_to_power_of_2 n \<le> n \<and>
    (\<forall>p. is_power_of_2 p \<and> p \<le> n \<longrightarrow> p \<le> round_down_to_power_of_2 n)"
proof -
  obtain k where k: "top_bit n k"
    using assms top_bit_exists by blast
  note k64 = top_bit_less [OF k]
  have r: "round_down_to_power_of_2 n = 2 ^ k"
    using assms round_down_scan_top [OF k k64] by (simp add: round_down_to_power_of_2_def)
  have u: "unat (round_down_to_power_of_2 n) = 2 ^ k"
    unfolding r by (rule unat_power_2 [OF k64])
  have "p \<le> round_down_to_power_of_2 n" if pw: "is_power_of_2 p" and pn: "p \<le> n" for p
  proof -
    obtain j where j: "j < 64" "p = 2 ^ j"
      using pw [unfolded is_power_of_2_iff] by blast
    have p: "unat p = 2 ^ j"
      unfolding j(2) by (rule unat_power_2 [OF j(1)])
    have "(2 :: nat) ^ j < 2 ^ Suc k"
      using pn top_bit_bounds(2) [OF k] unfolding word_le_nat_alt p by linarith
    then have "j \<le> k"
      using power_less_imp_less_exp [of "2 :: nat" j "Suc k"] by simp
    then show ?thesis
      unfolding word_le_nat_alt u p by (rule power_increasing) simp
  qed
  moreover have "round_down_to_power_of_2 n \<le> n"
    unfolding word_le_nat_alt u by (rule top_bit_bounds(1) [OF k])
  moreover have "is_power_of_2 (round_down_to_power_of_2 n)"
    unfolding r is_power_of_2_iff using k64 by blast
  ultimately show ?thesis by blast
qed

theorem round_down_to_power_of_2_greatest_witness:
  "(100 :: u64) \<noteq> 0 \<and> is_power_of_2 (round_down_to_power_of_2 100) \<and>
   round_down_to_power_of_2 100 \<le> 100"
  using round_down_to_power_of_2_greatest [of 100] by simp

subsection \<open>Alignment\<close>

lemma align_down_unat: "unat (align_down v (2 ^ k)) = unat v div 2 ^ k * 2 ^ k"
  by (simp add: align_down_def exp_minus_1_mask unat_and_not_mask)

lemma align_up_unat:
  assumes "k < 64" and "unat v + (2 ^ k - 1) < 2 ^ 64"
  shows "unat (align_up v (2 ^ k)) = (unat v + (2 ^ k - 1)) div 2 ^ k * 2 ^ k"
proof -
  have m: "v + 2 ^ k - 1 = v + mask k"
    by (simp add: mask_eq_exp_minus_1)
  have "unat (v + mask k) = unat v + (2 ^ k - 1)"
    using assms by (subst unat_add_small) (simp_all add: unat_mask)
  then show ?thesis
    by (simp add: align_up_def exp_minus_1_mask m unat_and_not_mask)
qed

lemma is_aligned_dvd: "is_aligned v (2 ^ k) \<longleftrightarrow> 2 ^ k dvd unat v"
  by (simp add: is_aligned_def exp_minus_1_mask word_unat_eq_iff unat_and_mask dvd_eq_mod_eq_0)

lemma ceil_mult_nat:
  fixes a d :: nat
  assumes "0 < d"
  shows "a \<le> (a + (d - 1)) div d * d" and "(a + (d - 1)) div d * d < a + d"
proof -
  have "(a + (d - 1)) div d * d + (a + (d - 1)) mod d = a + (d - 1)"
    by (rule div_mult_mod_eq)
  moreover have "(a + (d - 1)) mod d < d"
    using assms by simp
  ultimately show "a \<le> (a + (d - 1)) div d * d" "(a + (d - 1)) div d * d < a + d"
    using assms by linarith+
qed

lemma floor_mult_nat: "0 < d \<Longrightarrow> a < a div d * d + (d :: nat)"
  using div_mult_mod_eq [of a d] mod_less_divisor [of d a] by linarith

text \<open>
  For a power-of-two alignment and no wrap-around, \<^verbatim>\<open>align_up\<close> returns the least
  multiple of the alignment that is at least the value, and \<^verbatim>\<open>align_down\<close> the greatest
  one that is at most the value; both results pass \<^verbatim>\<open>is_aligned\<close>.
\<close>

theorem align_up_down_spec:
  assumes "k < 64" and "unat v + (2 ^ k - 1) < 2 ^ 64"
  shows "is_aligned (align_up v (2 ^ k)) (2 ^ k) \<and> is_aligned (align_down v (2 ^ k)) (2 ^ k) \<and>
    unat v \<le> unat (align_up v (2 ^ k)) \<and> unat (align_up v (2 ^ k)) < unat v + 2 ^ k \<and>
    unat (align_down v (2 ^ k)) \<le> unat v \<and> unat v < unat (align_down v (2 ^ k)) + 2 ^ k"
  using ceil_mult_nat [of "2 ^ k" "unat v"] floor_mult_nat [of "2 ^ k" "unat v"]
  by (simp add: is_aligned_dvd align_down_unat align_up_unat [OF assms])

theorem align_up_down_spec_witness:
  "unat (5000 :: u64) + (2 ^ 12 - 1) < 2 ^ 64 \<and>
   is_aligned (align_up 5000 (2 ^ 12)) (2 ^ 12) \<and> align_up 5000 (2 ^ 12) = 8192"
  using align_up_down_spec [of 12 5000] by (simp add: align_up_def)

lemma div_round_up_ceiling:
  assumes "d \<noteq> 0" and "unat n + (unat d - 1) < 2 ^ 64"
  shows "\<exists>q. div_round_up n d = Some q \<and> unat n \<le> unat q * unat d \<and> unat q * unat d < unat n + unat d"
proof -
  have d: "0 < unat d"
    using assms(1) by (simp add: unat_gt_0)
  have "n + d - 1 = n + (d - 1)" and "unat (d - 1) = unat d - 1"
    using assms(1) by (simp_all add: unat_minus_one)
  moreover from this(2) have "unat (n + (d - 1)) = unat n + (unat d - 1)"
    using assms(2) by (subst unat_add_small) simp_all
  ultimately have "unat (n + d - 1) = unat n + (unat d - 1)"
    by (simp only:)
  then have q: "unat ((n + d - 1) div d) = (unat n + (unat d - 1)) div unat d"
    by (simp only: unat_div)
  show ?thesis
  proof (intro exI conjI)
    show "div_round_up n d = Some ((n + d - 1) div d)"
      using assms(1) by (simp add: div_round_up_def)
    show "unat n \<le> unat ((n + d - 1) div d) * unat d"
      and "unat ((n + d - 1) div d) * unat d < unat n + unat d"
      unfolding q by (rule ceil_mult_nat [OF d])+
  qed
qed

lemmas bits_defs = is_power_of_2_def align_up_def align_down_def is_aligned_def

end
