(* ===== verification/Bitmap.thy ===== *)
theory Bitmap
  imports CCOS_Prelude
begin

text \<open>
  The bit array of \<open>kernel/bitmap/bitmap.c\<close> and \<open>bitmap_helper.h\<close>.

  A \<open>bitmap\<close> is the C structure: the byte buffer it points to and the number of bits. Indices
  are \<open>size_t\<close> words. Reading or writing outside the buffer, and a failed assertion, stop the
  model. \<open>bm_members\<close> is the abstraction used by the clients: the set of the indices whose bit
  is set. The locale \<open>bit_store\<close> states what a client of a bit array relies on; the frame
  allocator uses its lemmas through the interpretation on the functions of this theory.
\<close>

subsection \<open>Definitions\<close>

record bitmap =
  bm_bits :: "u8 list"
  bm_nbits :: u64

definition bitCntToByteCnt :: "u64 \<Rightarrow> u64" where
  "bitCntToByteCnt n = drop_bit 3 (n + 7)"

definition bit_index_valid :: "bitmap \<Rightarrow> u64 \<Rightarrow> bool" where
  "bit_index_valid bm given_index \<longleftrightarrow> given_index < bm_nbits bm"

definition byte_bitmask :: "u64 \<Rightarrow> u8" where
  "byte_bitmask i = ucast (push_bit (unat (i mod 8)) (1 :: u32))"

definition bit_byte :: "u64 \<Rightarrow> u64" where
  "bit_byte i = drop_bit 3 i"

text \<open>Access to \<open>bits[i]\<close>.\<close>

definition bm_get :: "bitmap \<Rightarrow> nat \<Rightarrow> u8 option" where
  "bm_get bm i = (if i < length (bm_bits bm) then Some (bm_bits bm ! i) else None)"

definition bm_put :: "bitmap \<Rightarrow> nat \<Rightarrow> u8 \<Rightarrow> bitmap option" where
  "bm_put bm i b =
     (if i < length (bm_bits bm) then Some (bm\<lparr>bm_bits := (bm_bits bm)[i := b]\<rparr>) else None)"

definition bitmap_init :: "u8 list \<Rightarrow> u64 \<Rightarrow> bitmap option" where
  "bitmap_init buffer n = do {
     ccos_assert (n > 0);
     let bytes = unat (bitCntToByteCnt n);
     if bytes \<le> length buffer
     then Some \<lparr>bm_bits = replicate bytes 0 @ drop bytes buffer, bm_nbits = n\<rparr>
     else None
   }"

definition bitmap_set :: "bitmap \<Rightarrow> u64 \<Rightarrow> bitmap option" where
  "bitmap_set bm i = do {
     ccos_assert (bit_index_valid bm i);
     b \<leftarrow> bm_get bm (unat (bit_byte i));
     bm_put bm (unat (bit_byte i)) (b OR byte_bitmask i)
   }"

definition bitmap_clear :: "bitmap \<Rightarrow> u64 \<Rightarrow> bitmap option" where
  "bitmap_clear bm i = do {
     ccos_assert (bit_index_valid bm i);
     b \<leftarrow> bm_get bm (unat (bit_byte i));
     bm_put bm (unat (bit_byte i)) (b AND NOT (byte_bitmask i))
   }"

definition bitmap_test :: "bitmap \<Rightarrow> u64 \<Rightarrow> bool option" where
  "bitmap_test bm i = do {
     ccos_assert (bit_index_valid bm i);
     b \<leftarrow> bm_get bm (unat (bit_byte i));
     Some (b AND byte_bitmask i \<noteq> 0)
   }"

definition bitmap_flip :: "bitmap \<Rightarrow> u64 \<Rightarrow> bitmap option" where
  "bitmap_flip bm i = do {
     ccos_assert (bit_index_valid bm i);
     b \<leftarrow> bm_get bm (unat (bit_byte i));
     bm_put bm (unat (bit_byte i)) (b XOR byte_bitmask i)
   }"

definition bitmap_set_range :: "bitmap \<Rightarrow> u64 \<Rightarrow> u64 \<Rightarrow> bitmap option" where
  "bitmap_set_range bm start count = do {
     ccos_assert (count > 0);
     let end = min (start + count) (bm_nbits bm);
     fold_opt (\<lambda>i m. bitmap_set m (of_nat i)) [unat start..<unat end] bm
   }"

definition bitmap_clear_range :: "bitmap \<Rightarrow> u64 \<Rightarrow> u64 \<Rightarrow> bitmap option" where
  "bitmap_clear_range bm start count = do {
     ccos_assert (count > 0);
     let end = min (start + count) (bm_nbits bm);
     fold_opt (\<lambda>i m. bitmap_clear m (of_nat i)) [unat start..<unat end] bm
   }"

text \<open>The scans return an \<open>ssize_t\<close>: the index, or \<open>-1\<close> (the word of all ones).\<close>

definition scan_result :: "nat option \<Rightarrow> u64" where
  "scan_result r = (case r of None \<Rightarrow> - 1 | Some i \<Rightarrow> of_nat i)"

definition bitmap_find_next_zero :: "bitmap \<Rightarrow> u64 \<Rightarrow> u64 option" where
  "bitmap_find_next_zero bm start =
     map_option scan_result
       (find_opt (\<lambda>i. map_option Not (bitmap_test bm (of_nat i))) [unat start..<unat (bm_nbits bm)])"

definition bitmap_find_next_set :: "bitmap \<Rightarrow> u64 \<Rightarrow> u64 option" where
  "bitmap_find_next_set bm start =
     map_option scan_result
       (find_opt (\<lambda>i. bitmap_test bm (of_nat i)) [unat start..<unat (bm_nbits bm)])"

definition bitmap_find_first_zero :: "bitmap \<Rightarrow> u64 option" where
  "bitmap_find_first_zero bm = bitmap_find_next_zero bm 0"

definition bitmap_find_first_set :: "bitmap \<Rightarrow> u64 option" where
  "bitmap_find_first_set bm = bitmap_find_next_set bm 0"

definition bitmap_equal :: "bitmap \<Rightarrow> bitmap \<Rightarrow> bool option" where
  "bitmap_equal a b =
     (if bm_nbits a \<noteq> bm_nbits b then Some False
      else map_option (\<lambda>r. r = None)
        (find_opt (\<lambda>i. do { x \<leftarrow> bm_get a i; y \<leftarrow> bm_get b i; Some (x \<noteq> y) })
          [0..<unat (bitCntToByteCnt (bm_nbits a))]))"

definition bitmap_copy :: "bitmap \<Rightarrow> bitmap \<Rightarrow> bitmap option" where
  "bitmap_copy dst src =
     (let bytes = unat (bitCntToByteCnt (bm_nbits src)) in
      if bytes \<le> length (bm_bits src) \<and> bytes \<le> length (bm_bits dst)
      then Some (dst\<lparr>bm_bits := take bytes (bm_bits src) @ drop bytes (bm_bits dst)\<rparr>)
      else None)"

text \<open>The byte-wise loops of \<open>bitmap_and\<close>, \<open>bitmap_or\<close>, \<open>bitmap_xor\<close> and
  \<open>bitmap_andnot\<close> differ in the operator only.\<close>

definition bitmap_bytewise ::
  "(u8 \<Rightarrow> u8 \<Rightarrow> u8) \<Rightarrow> bitmap \<Rightarrow> bitmap \<Rightarrow> bitmap \<Rightarrow> bitmap option" where
  "bitmap_bytewise f dst a b =
     fold_opt (\<lambda>i d. do { x \<leftarrow> bm_get a i; y \<leftarrow> bm_get b i; bm_put d i (f x y) })
       [0..<unat (bitCntToByteCnt (bm_nbits a))] dst"

definition bitmap_and :: "bitmap \<Rightarrow> bitmap \<Rightarrow> bitmap \<Rightarrow> bitmap option" where
  "bitmap_and dst a b = bitmap_bytewise (AND) dst a b"

definition bitmap_or :: "bitmap \<Rightarrow> bitmap \<Rightarrow> bitmap \<Rightarrow> bitmap option" where
  "bitmap_or dst a b = bitmap_bytewise (OR) dst a b"

definition bitmap_xor :: "bitmap \<Rightarrow> bitmap \<Rightarrow> bitmap \<Rightarrow> bitmap option" where
  "bitmap_xor dst a b = bitmap_bytewise (XOR) dst a b"

definition bitmap_andnot :: "bitmap \<Rightarrow> bitmap \<Rightarrow> bitmap \<Rightarrow> bitmap option" where
  "bitmap_andnot dst a b = bitmap_bytewise (\<lambda>x y. x AND NOT y) dst a b"

definition bitmap_complement :: "bitmap \<Rightarrow> bitmap \<Rightarrow> bitmap option" where
  "bitmap_complement dst src =
     fold_opt (\<lambda>i d. do { x \<leftarrow> bm_get src i; bm_put d i (NOT x) })
       [0..<unat (bitCntToByteCnt (bm_nbits src))] dst"

definition bitmap_to_string :: "bitmap \<Rightarrow> string option" where
  "bitmap_to_string bm =
     fold_opt (\<lambda>i buf. do { b \<leftarrow> bitmap_test bm (of_nat i);
                             Some (buf @ [if b then CHR ''1'' else CHR ''0'']) })
       [0..<unat (bm_nbits bm)] []"

text \<open>Kernighan's loop on one byte, then the sum over the bytes.\<close>

function kernighan :: "u8 \<Rightarrow> u64 \<Rightarrow> u64" where
  "kernighan byte count =
     (if byte = 0 then count else kernighan (byte AND (byte - 1)) (count + 1))"
  by pat_completeness auto
termination
proof (relation "measure (\<lambda>(byte, count). unat byte)")
  fix byte :: u8 and count :: u64
  assume "byte \<noteq> 0"
  then have "byte - 1 < byte"
    by (simp add: word_less_nat_alt unat_minus_one unat_gt_0)
  moreover have "byte AND (byte - 1) \<le> byte - 1"
    by (rule word_and_le1)
  ultimately show "((byte AND (byte - 1), count + 1), byte, count) \<in> measure (\<lambda>(byte, count). unat byte)"
    by (simp add: word_less_nat_alt word_le_nat_alt)
qed simp

definition bitmap_weight :: "bitmap \<Rightarrow> u64 option" where
  "bitmap_weight bm =
     fold_opt (\<lambda>i count. do { byte \<leftarrow> bm_get bm i; Some (kernighan byte count) })
       [0..<unat (bitCntToByteCnt (bm_nbits bm))] 0"

definition bitmap_full :: "bitmap \<Rightarrow> bool option" where
  "bitmap_full bm = map_option (\<lambda>w. w = bm_nbits bm) (bitmap_weight bm)"

definition bitmap_empty :: "bitmap \<Rightarrow> bool option" where
  "bitmap_empty bm = map_option (\<lambda>w. w = 0) (bitmap_weight bm)"

declare kernighan.simps [simp del]

subsection \<open>Abstraction and invariant\<close>

definition bm_bit :: "bitmap \<Rightarrow> nat \<Rightarrow> bool" where
  "bm_bit bm i \<longleftrightarrow> bit (bm_bits bm ! (i div 8)) (i mod 8)"

definition bm_size :: "bitmap \<Rightarrow> nat" where
  "bm_size bm = unat (bm_nbits bm)"

definition bm_bytes :: "bitmap \<Rightarrow> nat" where
  "bm_bytes bm = (bm_size bm + 7) div 8"

definition bm_members :: "bitmap \<Rightarrow> nat set" where
  "bm_members bm = {i. i < bm_size bm \<and> bm_bit bm i}"

text \<open>
  The invariant: the buffer is large enough, the bits are indexed by non-negative \<open>ssize_t\<close>
  values, and the bits of the last byte that belong to no index are zero.
\<close>

definition bitmap_ok :: "bitmap \<Rightarrow> bool" where
  "bitmap_ok bm \<longleftrightarrow>
     0 < bm_size bm \<and> bm_size bm < 2 ^ 63 \<and> bm_bytes bm \<le> length (bm_bits bm) \<and>
     (\<forall>i. bm_size bm \<le> i \<and> i < 8 * bm_bytes bm \<longrightarrow> \<not> bm_bit bm i)"

lemma bitmap_okI:
  assumes "0 < bm_size bm" "bm_size bm < 2 ^ 63" "bm_bytes bm \<le> length (bm_bits bm)"
    and "\<And>i. bm_size bm \<le> i \<Longrightarrow> i < 8 * bm_bytes bm \<Longrightarrow> \<not> bm_bit bm i"
  shows "bitmap_ok bm"
  using assms by (simp add: bitmap_ok_def)

lemma bitCntToByteCnt_bytes:
  assumes "unat n < 2 ^ 63"
  shows "unat (bitCntToByteCnt n) = (unat n + 7) div 8"
proof -
  have "unat (n + 7) = unat n + 7"
    using assms by (subst unat_add_small) simp_all
  then show ?thesis
    by (simp add: bitCntToByteCnt_def unat_drop_bit)
qed

lemma byte_bitmask_exp: "byte_bitmask i = 2 ^ (unat i mod 8)"
proof (rule bit_eqI)
  fix k
  have "unat (i mod 8) = unat i mod 8"
    by (simp add: unat_mod)
  then show "bit (byte_bitmask i) k \<longleftrightarrow> bit (2 ^ (unat i mod 8) :: u8) k"
    by (auto simp: byte_bitmask_def bit_simps)
qed

lemma bit_byte_div: "unat (bit_byte i) = unat i div 8"
  by (simp add: bit_byte_def unat_drop_bit)

lemma index_split: "j div 8 = i div 8 \<Longrightarrow> j mod 8 = i mod 8 \<longleftrightarrow> j = (i :: nat)"
  by (metis div_mod_decomp)

lemma byte_index_less: "i < bm_size bm \<Longrightarrow> i div 8 < bm_bytes bm"
  unfolding bm_bytes_def by linarith

lemma bitmap_ok_byte:
  assumes "bitmap_ok bm" and "unat i < bm_size bm"
  shows "unat i div 8 < length (bm_bits bm)" and "bit_index_valid bm i"
  using assms byte_index_less [of "unat i" bm]
  by (auto simp: bitmap_ok_def bit_index_valid_def bm_size_def word_less_nat_alt)

lemma bitmap_test_ok:
  assumes "bitmap_ok bm" and "unat i < bm_size bm"
  shows "bitmap_test bm i = Some (unat i \<in> bm_members bm)"
  using assms bitmap_ok_byte [OF assms]
  by (simp add: bitmap_test_def bm_get_def bit_byte_div byte_bitmask_exp and_exp_eq_0_iff_not_bit
      bm_members_def bm_bit_def)

text \<open>A write of one byte that only changes bit \<open>i\<close>.\<close>

lemma bm_put_bit:
  fixes i :: u64
  assumes ok: "bitmap_ok bm" and i: "unat i < bm_size bm"
    and other: "\<And>k. k \<noteq> unat i mod 8 \<Longrightarrow> bit b' k = bit (bm_bits bm ! (unat i div 8)) k"
  shows "\<exists>bm'. bm_put bm (unat i div 8) b' = Some bm' \<and> bitmap_ok bm' \<and> bm_size bm' = bm_size bm \<and>
    bm_members bm' = (if bit b' (unat i mod 8) then insert (unat i) (bm_members bm)
                      else bm_members bm - {unat i})"
proof -
  let ?m = "bm\<lparr>bm_bits := (bm_bits bm)[unat i div 8 := b']\<rparr>"
  have size: "bm_size ?m = bm_size bm" "bm_bytes ?m = bm_bytes bm"
    by (simp_all add: bm_size_def bm_bytes_def)
  have bits: "bm_bit ?m j \<longleftrightarrow> (if j = unat i then bit b' (unat i mod 8) else bm_bit bm j)" for j
    using bitmap_ok_byte(1) [OF ok i] other [of "j mod 8"] index_split [of j "unat i"]
    by (auto simp: bm_bit_def nth_list_update)
  have "bitmap_ok ?m"
    using ok i by (auto simp: bitmap_ok_def size bits)
  moreover have "bm_members ?m = (if bit b' (unat i mod 8) then insert (unat i) (bm_members bm)
                      else bm_members bm - {unat i})"
    using i by (auto simp: bm_members_def size bits)
  ultimately show ?thesis
    using bitmap_ok_byte(1) [OF ok i] size by (simp add: bm_put_def)
qed

lemma byte_bit_less: "bit (b :: u8) k \<and> k < 8 \<longleftrightarrow> bit b k"
  by (auto dest: bit_imp_le_length)

lemma bitmap_set_ok:
  assumes "bitmap_ok bm" and "unat i < bm_size bm"
  shows "\<exists>bm'. bitmap_set bm i = Some bm' \<and> bitmap_ok bm' \<and> bm_size bm' = bm_size bm \<and>
    bm_members bm' = insert (unat i) (bm_members bm)"
  using bm_put_bit [OF assms, of "bm_bits bm ! (unat i div 8) OR byte_bitmask i"]
    bitmap_ok_byte [OF assms]
  by (simp add: bitmap_set_def bm_get_def bit_byte_div byte_bitmask_exp bit_simps)

lemma bitmap_clear_ok:
  assumes "bitmap_ok bm" and "unat i < bm_size bm"
  shows "\<exists>bm'. bitmap_clear bm i = Some bm' \<and> bitmap_ok bm' \<and> bm_size bm' = bm_size bm \<and>
    bm_members bm' = bm_members bm - {unat i}"
  using bm_put_bit [OF assms, of "bm_bits bm ! (unat i div 8) AND NOT (byte_bitmask i)"]
    bitmap_ok_byte [OF assms]
  by (simp add: bitmap_clear_def bm_get_def bit_byte_div byte_bitmask_exp bit_simps byte_bit_less)

lemma bitmap_ok_bound: "bitmap_ok bm \<Longrightarrow> bm_size bm < 9223372036854775808"
  by (simp add: bitmap_ok_def)

lemma bm_members_bound: "bm_members bm \<subseteq> {..<bm_size bm}"
  by (auto simp: bm_members_def)

subsection \<open>The interface of a bit array\<close>

locale bit_store =
  fixes ok :: "'m \<Rightarrow> bool"
    and size :: "'m \<Rightarrow> nat"
    and members :: "'m \<Rightarrow> nat set"
    and test :: "'m \<Rightarrow> u64 \<Rightarrow> bool option"
    and insert_bit :: "'m \<Rightarrow> u64 \<Rightarrow> 'm option"
    and delete_bit :: "'m \<Rightarrow> u64 \<Rightarrow> 'm option"
  assumes size_bound: "ok m \<Longrightarrow> size m < 2 ^ 63"
    and members_bound: "ok m \<Longrightarrow> members m \<subseteq> {..<size m}"
    and test_spec: "ok m \<Longrightarrow> unat i < size m \<Longrightarrow> test m i = Some (unat i \<in> members m)"
    and insert_spec: "ok m \<Longrightarrow> unat i < size m \<Longrightarrow>
      \<exists>m'. insert_bit m i = Some m' \<and> ok m' \<and> size m' = size m \<and>
        members m' = insert (unat i) (members m)"
    and delete_spec: "ok m \<Longrightarrow> unat i < size m \<Longrightarrow>
      \<exists>m'. delete_bit m i = Some m' \<and> ok m' \<and> size m' = size m \<and>
        members m' = members m - {unat i}"
begin

lemma index_unat: "ok m \<Longrightarrow> i < size m \<Longrightarrow> unat (of_nat i :: u64) = i"
  using size_bound [of m] by (intro unat_of_nat_small) simp

lemma insert_run:
  assumes "ok m" and "b \<le> size m"
  shows "\<exists>m'. fold_opt (\<lambda>i m. insert_bit m (of_nat i)) [a..<b] m = Some m' \<and> ok m' \<and>
    size m' = size m \<and> members m' = members m \<union> {a..<b}"
proof -
  let ?P = "\<lambda>ys t. ok t \<and> size t = size m \<and> members t = members m \<union> set ys"
  have "\<exists>t. fold_opt (\<lambda>i m. insert_bit m (of_nat i)) [a..<b] m = Some t \<and> ?P [a..<b] t"
  proof (rule fold_opt_rule)
    fix ys y t
    assume t: "?P ys t" and y: "y \<in> set [a..<b]"
    then have "unat (of_nat y :: u64) = y" "y < size t"
      using assms index_unat [of t y] by auto
    then show "\<exists>t'. insert_bit t (of_nat y) = Some t' \<and> ?P (ys @ [y]) t'"
      using t insert_spec [of t "of_nat y"] by auto
  qed (use assms in auto)
  then show ?thesis by auto
qed

lemma delete_run:
  assumes "ok m" and "b \<le> size m"
  shows "\<exists>m'. fold_opt (\<lambda>i m. delete_bit m (of_nat i)) [a..<b] m = Some m' \<and> ok m' \<and>
    size m' = size m \<and> members m' = members m - {a..<b}"
proof -
  let ?P = "\<lambda>ys t. ok t \<and> size t = size m \<and> members t = members m - set ys"
  have "\<exists>t. fold_opt (\<lambda>i m. delete_bit m (of_nat i)) [a..<b] m = Some t \<and> ?P [a..<b] t"
  proof (rule fold_opt_rule)
    fix ys y t
    assume t: "?P ys t" and y: "y \<in> set [a..<b]"
    then have "unat (of_nat y :: u64) = y" "y < size t"
      using assms index_unat [of t y] by auto
    then show "\<exists>t'. delete_bit t (of_nat y) = Some t' \<and> ?P (ys @ [y]) t'"
      using t delete_spec [of t "of_nat y"] by auto
  qed (use assms in auto)
  then show ?thesis by auto
qed

lemma scan_absent:
  assumes "ok m"
  shows "find_opt (\<lambda>i. map_option Not (test m (of_nat i))) [a..<size m] =
    Some (find (\<lambda>i. i \<notin> members m) [a..<size m])"
  using assms by (intro find_opt_total) (simp add: test_spec index_unat)

lemma scan_present:
  assumes "ok m"
  shows "find_opt (\<lambda>i. test m (of_nat i)) [a..<size m] =
    Some (find (\<lambda>i. i \<in> members m) [a..<size m])"
  using assms by (intro find_opt_total) (simp add: test_spec index_unat)

end

interpretation bm: bit_store bitmap_ok bm_size bm_members bitmap_test bitmap_set bitmap_clear
  by unfold_locales
    (simp_all add: bitmap_ok_bound bm_members_bound bitmap_test_ok bitmap_set_ok bitmap_clear_ok)

subsection \<open>Ranges and scans\<close>

lemma range_end:
  assumes "unat start + unat count < 2 ^ 64"
  shows "unat (min (start + count) (bm_nbits bm)) = min (unat start + unat count) (bm_size bm)"
  using assms by (simp add: unat_min unat_add_small bm_size_def)

lemma bitmap_set_range_ok:
  assumes "bitmap_ok bm" and "0 < count" and "unat start + unat count < 2 ^ 64"
  shows "\<exists>bm'. bitmap_set_range bm start count = Some bm' \<and> bitmap_ok bm' \<and>
    bm_size bm' = bm_size bm \<and>
    bm_members bm' = bm_members bm \<union> {unat start..<min (unat start + unat count) (bm_size bm)}"
  using assms(2) bm.insert_run [OF assms(1), of "min (unat start + unat count) (bm_size bm)" "unat start"]
  by (simp add: bitmap_set_range_def Let_def range_end [OF assms(3)])

lemma bitmap_clear_range_ok:
  assumes "bitmap_ok bm" and "0 < count" and "unat start + unat count < 2 ^ 64"
  shows "\<exists>bm'. bitmap_clear_range bm start count = Some bm' \<and> bitmap_ok bm' \<and>
    bm_size bm' = bm_size bm \<and>
    bm_members bm' = bm_members bm - {unat start..<min (unat start + unat count) (bm_size bm)}"
  using assms(2) bm.delete_run [OF assms(1), of "min (unat start + unat count) (bm_size bm)" "unat start"]
  by (simp add: bitmap_clear_range_def Let_def range_end [OF assms(3)])

text \<open>The callers that compute the count as \<open>e - start\<close> reach \<open>e\<close>, also when this wraps.\<close>

lemma bitmap_range_to:
  assumes "bitmap_ok bm" and "e \<noteq> start"
  shows "\<exists>bm'. bitmap_set_range bm start (e - start) = Some bm' \<and> bitmap_ok bm' \<and> bm_size bm' = bm_size bm \<and>
      bm_members bm' = bm_members bm \<union> {unat start..<min (unat e) (bm_size bm)}"
    and "\<exists>bm'. bitmap_clear_range bm start (e - start) = Some bm' \<and> bitmap_ok bm' \<and> bm_size bm' = bm_size bm \<and>
      bm_members bm' = bm_members bm - {unat start..<min (unat e) (bm_size bm)}"
proof -
  have e: "start + (e - start) = e" "e - start > 0"
    using assms(2) by (simp_all add: word_gt_0)
  show "\<exists>bm'. bitmap_set_range bm start (e - start) = Some bm' \<and> bitmap_ok bm' \<and> bm_size bm' = bm_size bm \<and>
      bm_members bm' = bm_members bm \<union> {unat start..<min (unat e) (bm_size bm)}"
    using bm.insert_run [OF assms(1), of "min (unat e) (bm_size bm)" "unat start"] e
    by (simp add: bitmap_set_range_def unat_min bm_size_def)
  show "\<exists>bm'. bitmap_clear_range bm start (e - start) = Some bm' \<and> bitmap_ok bm' \<and> bm_size bm' = bm_size bm \<and>
      bm_members bm' = bm_members bm - {unat start..<min (unat e) (bm_size bm)}"
    using bm.delete_run [OF assms(1), of "min (unat e) (bm_size bm)" "unat start"] e
    by (simp add: bitmap_clear_range_def unat_min bm_size_def)
qed

text \<open>
  C32: \<^verbatim>\<open>bitmap_set_range\<close> and \<^verbatim>\<open>bitmap_clear_range\<close> set and clear exactly the
  indices of \<open>[start, start + count)\<close> that the bitmap has: no assertion fails, the invariant and the
  size stay, and every other bit is unchanged.
\<close>

theorem bitmap_ranges_spec:
  assumes "bitmap_ok bm" and "0 < count" and "unat start + unat count < 2 ^ 64"
  shows "(\<exists>bm'. bitmap_set_range bm start count = Some bm' \<and> bitmap_ok bm' \<and>
      bm_size bm' = bm_size bm \<and>
      bm_members bm' =
        bm_members bm \<union> {unat start..<min (unat start + unat count) (bm_size bm)}) \<and>
    (\<exists>bm'. bitmap_clear_range bm start count = Some bm' \<and> bitmap_ok bm' \<and>
      bm_size bm' = bm_size bm \<and>
      bm_members bm' =
        bm_members bm - {unat start..<min (unat start + unat count) (bm_size bm)})"
  using bitmap_set_range_ok [OF assms] bitmap_clear_range_ok [OF assms] by blast

theorem bitmap_ranges_spec_witness:
  "bitmap_ok \<lparr>bm_bits = [5, 7], bm_nbits = 16\<rparr> \<and>
   (\<exists>bm'. bitmap_set_range \<lparr>bm_bits = [5, 7], bm_nbits = 16\<rparr> 6 4 = Some bm' \<and> bitmap_ok bm')"
proof -
  have "bitmap_ok \<lparr>bm_bits = [5, 7], bm_nbits = 16\<rparr>"
    by (auto simp: bitmap_ok_def bm_size_def bm_bytes_def)
  then show ?thesis
    using bitmap_ranges_spec [of "\<lparr>bm_bits = [5, 7], bm_nbits = 16\<rparr>" 4 6] by auto
qed

lemma scan_result_neg: "scan_result None <s 0"
  by (simp add: scan_result_def word_sless_alt)

lemma scan_result_index:
  assumes "i < 2 ^ 63"
  shows "unat (scan_result (Some i)) = i" and "\<not> scan_result (Some i) <s 0"
proof -
  show u: "unat (scan_result (Some i)) = i"
    using assms by (simp add: scan_result_def unat_of_nat_small)
  have "sint (of_int (int i) :: u64) = int i"
    using assms by (simp only: signed_of_int) (simp add: signed_take_bit_int_eq_self)
  then have "sint (scan_result (Some i)) = int i"
    by (simp add: scan_result_def)
  then show "\<not> scan_result (Some i) <s 0"
    by (simp add: word_sless_alt)
qed

lemma find_next_zero_eq:
  "bitmap_ok bm \<Longrightarrow> bitmap_find_next_zero bm start =
     Some (scan_result (find (\<lambda>i. i \<notin> bm_members bm) [unat start..<bm_size bm]))"
  using bm.scan_absent [of bm "unat start"]
  by (simp add: bitmap_find_next_zero_def bm_size_def)

lemma find_next_set_eq:
  "bitmap_ok bm \<Longrightarrow> bitmap_find_next_set bm start =
     Some (scan_result (find (\<lambda>i. i \<in> bm_members bm) [unat start..<bm_size bm]))"
  using bm.scan_present [of bm "unat start"]
  by (simp add: bitmap_find_next_set_def bm_size_def)

text \<open>What a scan from \<open>start\<close> for an index of \<open>S\<close> promises.\<close>

definition least_from :: "nat set \<Rightarrow> nat \<Rightarrow> nat \<Rightarrow> u64 \<Rightarrow> bool" where
  "least_from S start n r \<longleftrightarrow>
     (if r <s 0 then {start..<n} \<inter> S = {}
      else start \<le> unat r \<and> unat r < n \<and> unat r \<in> S \<and> {start..<unat r} \<inter> S = {})"

lemma scan_least:
  assumes "n < 2 ^ 63"
  shows "least_from S start n (scan_result (find (\<lambda>i. i \<in> S) [start..<n]))"
proof (cases "find (\<lambda>i. i \<in> S) [start..<n]")
  case None
  then have "{start..<n} \<inter> S = {}"
    by (auto simp: find_upt_None)
  then show ?thesis
    using scan_result_neg by (simp add: None least_from_def)
next
  case (Some i)
  note i = find_upt_Some [OF Some]
  then show ?thesis
    using assms scan_result_index [of i] by (auto simp: Some least_from_def)
qed

lemma find_next_zero_ok:
  "bitmap_ok bm \<Longrightarrow> \<exists>r. bitmap_find_next_zero bm start = Some r \<and>
     least_from (- bm_members bm) (unat start) (bm_size bm) r"
  using scan_least [of "bm_size bm" "- bm_members bm" "unat start"]
  by (simp add: find_next_zero_eq bitmap_ok_bound)

lemma find_next_set_ok:
  "bitmap_ok bm \<Longrightarrow> \<exists>r. bitmap_find_next_set bm start = Some r \<and>
     least_from (bm_members bm) (unat start) (bm_size bm) r"
  using scan_least [of "bm_size bm" "bm_members bm" "unat start"]
  by (simp add: find_next_set_eq bitmap_ok_bound)



subsection \<open>Initialisation\<close>

lemma bitmap_init_ok:
  assumes "0 < n" and "unat n < 2 ^ 63" and "(unat n + 7) div 8 \<le> length buffer"
  shows "\<exists>bm. bitmap_init buffer n = Some bm \<and> bitmap_ok bm \<and> bm_size bm = unat n \<and>
    bm_members bm = {}"
proof -
  let ?m = "\<lparr>bm_bits = replicate ((unat n + 7) div 8) 0 @ drop ((unat n + 7) div 8) buffer,
    bm_nbits = n\<rparr>"
  have sz: "bm_size ?m = unat n" "bm_bytes ?m = (unat n + 7) div 8"
    by (simp_all add: bm_size_def bm_bytes_def)
  have zero: "\<not> bm_bit ?m i" if "i < 8 * bm_bytes ?m" for i
    using that by (simp add: bm_bit_def sz nth_append less_mult_imp_div_less)
  have "bitmap_ok ?m"
    using assms zero by (intro bitmap_okI) (simp_all add: sz unat_gt_0 word_neq_0_conv)
  moreover have "i < 8 * bm_bytes ?m" if "i < unat n" for i
    using that unfolding sz by linarith
  then have "bm_members ?m = {}"
    using zero by (auto simp: bm_members_def sz)
  ultimately show ?thesis
    using assms by (simp add: bitmap_init_def bitCntToByteCnt_bytes sz Let_def)
qed

subsection \<open>Counting\<close>

definition byte_bits :: "u8 \<Rightarrow> nat set" where
  "byte_bits b = {k. bit b k}"

lemma finite_byte_bits [simp]: "finite (byte_bits b)"
  by (rule finite_subset [of _ "{..<8}"]) (auto simp: byte_bits_def dest: bit_imp_le_length)

lemma lowest_bit:
  assumes "b \<noteq> (0 :: u8)"
  obtains l where "bit b l" and "\<And>j. j < l \<Longrightarrow> \<not> bit b j"
proof -
  from assms obtain k where "bit b k"
    by (auto simp: bit_eq_iff)
  then have "bit b (LEAST k. bit b k)"
    by (rule LeastI)
  then show thesis
    by (rule that) (rule not_less_Least)
qed

text \<open>\<open>b & (b - 1)\<close> drops the lowest set bit.\<close>

lemma byte_bits_drop_lowest:
  assumes l: "bit b l" and low: "\<And>j. j < l \<Longrightarrow> \<not> bit b j"
  shows "byte_bits (b AND (b - 1)) = byte_bits b - {l}"
proof -
  have l8: "l < 8"
    using bit_imp_le_length [OF l] by simp
  let ?u = "b AND NOT (2 ^ l)"
  have u: "bit ?u k \<longleftrightarrow> bit b k \<and> k \<noteq> l" for k
    using l8 by (auto simp: bit_simps dest: bit_imp_le_length)
  have "?u + 2 ^ l = ?u OR 2 ^ l"
    by (rule disjunctive_add) (auto simp: bit_simps)
  also have "\<dots> = b"
    by (rule bit_eqI) (use l in \<open>auto simp: bit_or_iff u bit_simps\<close>)
  finally have "b - 1 = ?u + mask l"
    by (simp add: mask_eq_exp_minus_1 algebra_simps)
  also have "\<dots> = ?u OR mask l"
    by (rule disjunctive_add) (use low in \<open>auto simp: u bit_simps\<close>)
  finally have "bit (b - 1) k \<longleftrightarrow> (bit b k \<and> k \<noteq> l) \<or> k < l" for k
    using l8 by (auto simp: bit_or_iff u bit_mask_iff)
  then show ?thesis
    using low by (auto simp: byte_bits_def bit_and_iff)
qed

lemma kernighan_card: "kernighan b count = count + of_nat (card (byte_bits b))"
proof (induction b count rule: kernighan.induct)
  case (1 b count)
  show ?case
  proof (cases "b = 0")
    case True
    then show ?thesis
      by (simp add: kernighan.simps byte_bits_def)
  next
    case False
    then obtain l where l: "bit b l" "\<And>j. j < l \<Longrightarrow> \<not> bit b j"
      using lowest_bit by blast
    then have "l \<in> byte_bits b"
      by (simp add: byte_bits_def)
    then have "card (byte_bits b) = Suc (card (byte_bits b - {l}))"
      by (simp add: card_Suc_Diff1 del: card_Diff_insert)
    then have "card (byte_bits b) = Suc (card (byte_bits (b AND (b - 1))))"
      using byte_bits_drop_lowest [of b l] l by simp
    then show ?thesis
      using False "1.IH" by (subst kernighan.simps) simp
  qed
qed

lemma card_bm_bits:
  "card {i. i < 8 * n \<and> bm_bit bm i} = (\<Sum>i<n. card (byte_bits (bm_bits bm ! i)))"
proof (induction n)
  case 0
  then show ?case by simp
next
  case (Suc n)
  have "{i. i < 8 * Suc n \<and> bm_bit bm i} =
      {i. i < 8 * n \<and> bm_bit bm i} \<union> (\<lambda>k. 8 * n + k) ` byte_bits (bm_bits bm ! n)" (is "?A = ?B \<union> ?C")
  proof (rule set_eqI)
    fix i
    show "i \<in> ?A \<longleftrightarrow> i \<in> ?B \<union> ?C"
    proof (cases "i < 8 * n")
      case True
      then show ?thesis by auto
    next
      case False
      then obtain k where k: "i = 8 * n + k"
        using le_Suc_ex by (metis not_less)
      moreover have "k < 8" if "bit (bm_bits bm ! n) k"
        using bit_imp_le_length [OF that] by simp
      ultimately show ?thesis
        by (auto simp: bm_bit_def byte_bits_def)
    qed
  qed
  moreover have "finite ?B" "finite ?C" "?B \<inter> ?C = {}"
    by auto
  moreover have "card ?C = card (byte_bits (bm_bits bm ! n))"
    by (rule card_image) (simp add: inj_on_def)
  ultimately show ?case
    using Suc by (simp add: card_Un_disjoint)
qed

lemma bitmap_weight_ok:
  assumes "bitmap_ok bm"
  shows "bitmap_weight bm = Some (of_nat (card (bm_members bm)))"
proof -
  let ?n = "bm_bytes bm"
  let ?f = "\<lambda>i count. do { byte \<leftarrow> bm_get bm i; Some (kernighan byte count) }"
  let ?P = "\<lambda>ys t. t = (\<Sum>i\<leftarrow>ys. of_nat (card (byte_bits (bm_bits bm ! i))) :: u64)"
  have "\<exists>t. fold_opt ?f [0..<?n] 0 = Some t \<and> ?P [0..<?n] t"
    by (rule fold_opt_rule) (use assms in \<open>auto simp: bm_get_def bitmap_ok_def kernighan_card\<close>)
  then have "bitmap_weight bm = Some (\<Sum>i\<leftarrow>[0..<?n]. of_nat (card (byte_bits (bm_bits bm ! i))))"
    using assms
    by (simp add: bitmap_weight_def bitCntToByteCnt_bytes bitmap_ok_def bm_size_def bm_bytes_def)
  also have "(\<Sum>i\<leftarrow>[0..<?n]. of_nat (card (byte_bits (bm_bits bm ! i)))) =
      (of_nat (card {i. i < 8 * ?n \<and> bm_bit bm i}) :: u64)"
    by (simp add: card_bm_bits sum_list_distinct_conv_sum_set atLeast0LessThan)
  also have "{i. i < 8 * ?n \<and> bm_bit bm i} = bm_members bm"
    using assms unfolding bm_members_def bitmap_ok_def
    by (auto simp: not_less [symmetric] bm_bytes_def)
  finally show ?thesis .
qed

text \<open>
  \<^verbatim>\<open>bitmap_weight\<close>, which runs Kernighan's loop on every byte of the buffer, returns the
  number of set indices of the bitmap; \<^verbatim>\<open>bitmap_full\<close> and \<^verbatim>\<open>bitmap_empty\<close>, which compare
  it with \<open>nbits\<close> and 0, decide whether every index and whether no index is set.
\<close>

theorem bitmap_weight_card:
  assumes ok: "bitmap_ok bm"
  shows "bitmap_weight bm = Some (of_nat (card (bm_members bm))) \<and>
    bitmap_full bm = Some (bm_members bm = {..<bm_size bm}) \<and>
    bitmap_empty bm = Some (bm_members bm = {})"
proof -
  have fin: "finite (bm_members bm)" and le: "card (bm_members bm) \<le> bm_size bm"
    using bm_members_bound [of bm] card_mono [of "{..<bm_size bm}" "bm_members bm"]
    by (auto intro: finite_subset)
  then have u: "unat (of_nat (card (bm_members bm)) :: u64) = card (bm_members bm)"
    using bitmap_ok_bound [OF ok] by (intro unat_of_nat_small) simp
  have "card (bm_members bm) = bm_size bm \<longleftrightarrow> bm_members bm = {..<bm_size bm}"
    by (metis card_lessThan card_subset_eq [OF finite_lessThan bm_members_bound])
  then have full: "of_nat (card (bm_members bm)) = bm_nbits bm \<longleftrightarrow> bm_members bm = {..<bm_size bm}"
    unfolding word_unat_eq_iff u bm_size_def [symmetric] .
  have empty: "of_nat (card (bm_members bm)) = (0 :: u64) \<longleftrightarrow> bm_members bm = {}"
    using fin unfolding word_unat_eq_iff u by simp
  show ?thesis
    unfolding bitmap_full_def bitmap_empty_def bitmap_weight_ok [OF ok] option.map full empty by blast
qed

theorem bitmap_weight_card_witness:
  "bitmap_ok \<lparr>bm_bits = [0b101, 1], bm_nbits = 9\<rparr> \<and>
   bitmap_weight \<lparr>bm_bits = [0b101, 1], bm_nbits = 9\<rparr> =
     Some (of_nat (card (bm_members \<lparr>bm_bits = [0b101, 1], bm_nbits = 9\<rparr>)))"
proof -
  have "\<not> bm_bit \<lparr>bm_bits = [0b101, 1], bm_nbits = 9\<rparr> i" if "9 \<le> i" "i < 16" for i
  proof -
    have "i \<in> {9, 10, 11, 12, 13, 14, 15}"
      using that by auto
    then show ?thesis
      by (auto simp: bm_bit_def bit_1_iff)
  qed
  then have ok: "bitmap_ok \<lparr>bm_bits = [0b101, 1], bm_nbits = 9\<rparr>"
    by (intro bitmap_okI) (auto simp: bm_size_def bm_bytes_def)
  then show ?thesis
    using bitmap_weight_card [of "\<lparr>bm_bits = [0b101, 1], bm_nbits = 9\<rparr>"] by (simp only: simp_thms)
qed

subsection \<open>Logical operations\<close>

lemma bitmap_bytewise_bytes:
  assumes "unat (bitCntToByteCnt (bm_nbits a)) = n"
    and "n \<le> length (bm_bits a)" "n \<le> length (bm_bits b)" "n \<le> length (bm_bits dst)"
  shows "\<exists>d. bitmap_bytewise f dst a b = Some d \<and> bm_nbits d = bm_nbits dst \<and>
    length (bm_bits d) = length (bm_bits dst) \<and>
    (\<forall>j < n. bm_bits d ! j = f (bm_bits a ! j) (bm_bits b ! j))"
proof -
  let ?P = "\<lambda>ys d. bm_nbits d = bm_nbits dst \<and> length (bm_bits d) = length (bm_bits dst) \<and>
    (\<forall>j \<in> set ys. bm_bits d ! j = f (bm_bits a ! j) (bm_bits b ! j))"
  let ?f = "\<lambda>i d. do { x \<leftarrow> bm_get a i; y \<leftarrow> bm_get b i; bm_put d i (f x y) }"
  have "\<exists>d. fold_opt ?f [0..<n] dst = Some d \<and> ?P [0..<n] d"
    by (rule fold_opt_rule) (use assms in \<open>auto simp: bm_get_def bm_put_def nth_list_update\<close>)
  then show ?thesis
    using assms(1) by (auto simp: bitmap_bytewise_def)
qed

lemma bitmap_bytewise_members:
  assumes ok: "bitmap_ok a" "bitmap_ok b" "bitmap_ok dst"
    and size: "bm_size b = bm_size a" "bm_size dst = bm_size a"
    and f: "\<And>x y k. k < 8 \<Longrightarrow> bit (f x y) k \<longleftrightarrow> g (bit x k) (bit y k)" and g: "\<not> g False False"
  shows "\<exists>d. bitmap_bytewise f dst a b = Some d \<and> bitmap_ok d \<and> bm_size d = bm_size a \<and>
    bm_members d = {i. i < bm_size a \<and> g (i \<in> bm_members a) (i \<in> bm_members b)}"
proof -
  let ?n = "bm_bytes a"
  have bytes: "bm_bytes b = ?n" "bm_bytes dst = ?n"
    using size by (simp_all add: bm_bytes_def)
  have n: "unat (bitCntToByteCnt (bm_nbits a)) = ?n"
    using ok(1) by (simp add: bitCntToByteCnt_bytes bitmap_ok_def bm_bytes_def bm_size_def)
  obtain d where d: "bitmap_bytewise f dst a b = Some d" "bm_nbits d = bm_nbits dst"
      "length (bm_bits d) = length (bm_bits dst)"
      "\<forall>j < ?n. bm_bits d ! j = f (bm_bits a ! j) (bm_bits b ! j)"
    using bitmap_bytewise_bytes [OF n, of b dst f] ok bytes by (auto simp: bitmap_ok_def)
  have sz: "bm_size d = bm_size a" "bm_bytes d = ?n"
    using d(2) size by (simp_all add: bm_size_def bm_bytes_def)
  have bits: "bm_bit d i \<longleftrightarrow> g (bm_bit a i) (bm_bit b i)" if "i < 8 * ?n" for i
    using d(4) f that by (simp add: bm_bit_def less_mult_imp_div_less)
  have "bitmap_ok d"
    using ok bits g size bytes d(3) by (intro bitmap_okI) (auto simp: bitmap_ok_def sz)
  moreover have "i < 8 * ?n" if "i < bm_size a" for i
    using that unfolding bm_bytes_def by linarith
  then have "bm_members d = {i. i < bm_size a \<and> g (i \<in> bm_members a) (i \<in> bm_members b)}"
    using bits size by (auto simp: bm_members_def sz)
  ultimately show ?thesis
    using d(1) sz by auto
qed

text \<open>
  The byte-wise operations refine the set operations: on bitmaps of one size,
  \<^verbatim>\<open>bitmap_and\<close>, \<^verbatim>\<open>bitmap_or\<close>, \<^verbatim>\<open>bitmap_xor\<close> and \<^verbatim>\<open>bitmap_andnot\<close> store the
  intersection, union, symmetric difference and difference of the two sets of indices.
\<close>

theorem bitmap_logic_refines_sets:
  assumes "bitmap_ok a" "bitmap_ok b" "bitmap_ok dst"
    and "bm_size b = bm_size a" "bm_size dst = bm_size a"
  shows "(\<exists>d. bitmap_and dst a b = Some d \<and> bitmap_ok d \<and>
      bm_members d = bm_members a \<inter> bm_members b) \<and>
    (\<exists>d. bitmap_or dst a b = Some d \<and> bitmap_ok d \<and>
      bm_members d = bm_members a \<union> bm_members b) \<and>
    (\<exists>d. bitmap_xor dst a b = Some d \<and> bitmap_ok d \<and>
      bm_members d = (bm_members a - bm_members b) \<union> (bm_members b - bm_members a)) \<and>
    (\<exists>d. bitmap_andnot dst a b = Some d \<and> bitmap_ok d \<and>
      bm_members d = bm_members a - bm_members b)"
proof -
  note R = bitmap_bytewise_members [OF assms]
  have sub: "bm_members a \<subseteq> {..<bm_size a}" "bm_members b \<subseteq> {..<bm_size a}"
    using bm_members_bound [of a] bm_members_bound [of b] assms(4) by auto
  have sets: "{i. i < bm_size a \<and> i \<in> bm_members a \<and> i \<in> bm_members b} = bm_members a \<inter> bm_members b"
    "{i. i < bm_size a \<and> (i \<in> bm_members a \<or> i \<in> bm_members b)} = bm_members a \<union> bm_members b"
    "{i. i < bm_size a \<and> (i \<in> bm_members a) \<noteq> (i \<in> bm_members b)} =
       (bm_members a - bm_members b) \<union> (bm_members b - bm_members a)"
    "{i. i < bm_size a \<and> i \<in> bm_members a \<and> i \<notin> bm_members b} = bm_members a - bm_members b"
    using sub by auto
  have "\<exists>d. bitmap_and dst a b = Some d \<and> bitmap_ok d \<and> bm_members d = bm_members a \<inter> bm_members b"
    using R [of "(AND)" "(\<and>)"] by (auto simp: bit_simps sets bitmap_and_def)
  moreover have "\<exists>d. bitmap_or dst a b = Some d \<and> bitmap_ok d \<and> bm_members d = bm_members a \<union> bm_members b"
    using R [of "(OR)" "(\<or>)"] by (auto simp: bit_simps sets bitmap_or_def)
  moreover have "\<exists>d. bitmap_xor dst a b = Some d \<and> bitmap_ok d \<and>
      bm_members d = (bm_members a - bm_members b) \<union> (bm_members b - bm_members a)"
    using R [of "(XOR)" "(\<noteq>)"] unfolding bitmap_xor_def sets(3) by (auto simp: bit_simps)
  moreover have "\<exists>d. bitmap_andnot dst a b = Some d \<and> bitmap_ok d \<and> bm_members d = bm_members a - bm_members b"
    using R [of "\<lambda>x y. x AND NOT y" "\<lambda>p q. p \<and> \<not> q"]
    by (auto simp: bit_simps sets bitmap_andnot_def)
  ultimately show ?thesis
    by blast
qed

theorem bitmap_logic_refines_sets_witness:
  "bitmap_ok \<lparr>bm_bits = [5], bm_nbits = 8\<rparr> \<and>
   (\<exists>d. bitmap_and \<lparr>bm_bits = [0], bm_nbits = 8\<rparr> \<lparr>bm_bits = [5], bm_nbits = 8\<rparr>
      \<lparr>bm_bits = [6], bm_nbits = 8\<rparr> = Some d \<and> bitmap_ok d)"
proof -
  have "bitmap_ok \<lparr>bm_bits = [x], bm_nbits = 8\<rparr>" for x
    by (auto simp: bitmap_ok_def bm_size_def bm_bytes_def)
  then show ?thesis
    using bitmap_logic_refines_sets [of "\<lparr>bm_bits = [5], bm_nbits = 8\<rparr>"
        "\<lparr>bm_bits = [6], bm_nbits = 8\<rparr>" "\<lparr>bm_bits = [0], bm_nbits = 8\<rparr>"]
    by (auto simp: bm_size_def)
qed

text \<open>
  \<^verbatim>\<open>bitmap_complement\<close> also complements the bits of the last byte that belong to no index:
  the complement of the empty bitmap of 4 indices has every index set, yet \<^verbatim>\<open>bitmap_weight\<close>
  returns 8 on it and \<^verbatim>\<open>bitmap_full\<close> returns false.
\<close>

theorem bitmap_complement_padding:
  "\<exists>d. bitmap_complement \<lparr>bm_bits = [0], bm_nbits = 4\<rparr> \<lparr>bm_bits = [0], bm_nbits = 4\<rparr> = Some d \<and>
    bm_members d = {..<4} \<and> bitmap_weight d = Some 8 \<and> bitmap_full d = Some False"
proof -
  have "bitmap_complement \<lparr>bm_bits = [0], bm_nbits = 4\<rparr> \<lparr>bm_bits = [0], bm_nbits = 4\<rparr> =
      Some \<lparr>bm_bits = [- 1], bm_nbits = 4\<rparr>"
    by (simp add: bitmap_complement_def bitCntToByteCnt_bytes bm_get_def bm_put_def)
  moreover have "bm_members \<lparr>bm_bits = [- 1], bm_nbits = 4\<rparr> = {..<4}"
    by (auto simp: bm_members_def bm_bit_def bm_size_def)
  moreover have "byte_bits (- 1) = {..<8}"
    by (auto simp: byte_bits_def dest: bit_imp_le_length)
  then have "bitmap_weight \<lparr>bm_bits = [- 1], bm_nbits = 4\<rparr> = Some 8"
    by (simp add: bitmap_weight_def bitCntToByteCnt_bytes bm_get_def kernighan_card)
  ultimately show ?thesis
    by (simp add: bitmap_full_def)
qed

end
