(* ===== verification/Memory.thy ===== *)
theory Memory
  imports CCOS_Prelude
begin

text \<open>
  Byte-addressed memory and the block operations of \<open>kernel/base/memory.c\<close>.

  The memory maps every 64-bit address to a byte. \<open>mload\<close> and \<open>mstore\<close> are the little-endian loads and
  stores of the processor, with the rules for reading back a store and for reading past it; the
  loops of \<open>memory.c\<close> are folds over the byte offsets in the order of the source, so overlapping
  areas behave as they do there.
\<close>

type_synonym addr = u64
type_synonym mem = "addr \<Rightarrow> u8"

subsection \<open>Loads and stores\<close>

text \<open>A little-endian load of as many bytes as the list of addresses has.\<close>

definition load_le :: "(nat \<Rightarrow> u8) \<Rightarrow> nat \<Rightarrow> nat \<Rightarrow> 'a::len word" where
  "load_le mem a n = foldr (\<lambda>i acc. push_bit 8 acc OR ucast (mem (a + i))) [0..<n] 0"

lemma load_le_Suc:
  "load_le mem a (Suc n) = push_bit 8 (load_le mem (a + 1) n) OR (ucast (mem a) :: 'a::len word)"
proof -
  have "[0..<Suc n] = 0 # map Suc [0..<n]"
    by (simp add: upt_conv_Cons map_Suc_upt del: upt_Suc)
  then show ?thesis
    by (simp add: load_le_def foldr_map comp_def)
qed

lemma bit_load_le:
  "bit (load_le mem a n :: 'a::len word) k \<longleftrightarrow>
     k < LENGTH('a) \<and> k < 8 * n \<and> bit (mem (a + k div 8)) (k mod 8)"
proof (induction n arbitrary: a k)
  case 0
  then show ?case by (simp add: load_le_def)
next
  case (Suc n)
  show ?case
  proof (cases "k < 8")
    case True
    then show ?thesis
      by (auto simp: load_le_Suc bit_simps)
  next
    case False
    then obtain j where "k = 8 + j"
      by (metis le_iff_add not_less)
    moreover have "(8 + j) div 8 = Suc (j div 8)"
      by simp
    ultimately show ?thesis
      using Suc [of "a + 1" j] by (auto simp: load_le_Suc bit_simps dest: bit_imp_le_length)
  qed
qed

definition mload :: "nat \<Rightarrow> mem \<Rightarrow> addr \<Rightarrow> 'a::len word" where
  "mload n m a = load_le (\<lambda>i. m (a + of_nat i)) 0 n"

definition mstore :: "nat \<Rightarrow> addr \<Rightarrow> 'a::len word \<Rightarrow> mem \<Rightarrow> mem" where
  "mstore n a v m = (\<lambda>x. if unat (x - a) < n then ucast (drop_bit (8 * unat (x - a)) v) else m x)"

lemma mload_cong: "(\<And>i. i < n \<Longrightarrow> m (a + of_nat i) = m' (a + of_nat i)) \<Longrightarrow> mload n m a = mload n m' a"
  unfolding mload_def load_le_def by (rule foldr_cong) auto

lemma mstore_other: "n \<le> unat (x - a) \<Longrightarrow> mstore n a v m x = m x"
  by (simp add: mstore_def)

lemma mload_mstore_same:
  assumes "LENGTH('a) = 8 * n" "n \<le> 2 ^ 64"
  shows "mload n (mstore n a (v :: 'a::len word) m) a = v"
proof (rule bit_eqI)
  fix k :: nat
  have "mstore n a v m (a + of_nat i) = ucast (drop_bit (8 * i) v)" if "i < n" for i
    using that assms(2) by (simp add: mstore_def unat_of_nat_small)
  then have "bit (mstore n a v m (a + of_nat (k div 8))) (k mod 8) \<longleftrightarrow> bit v (8 * (k div 8) + k mod 8)" if "k < 8 * n"
    using that by (simp add: less_mult_imp_div_less bit_simps)
  then show "bit (mload n (mstore n a v m) a :: 'a word) k \<longleftrightarrow> bit v k"
    using assms(1) bit_imp_le_length [of v k] by (auto simp: mload_def bit_load_le)
qed

text \<open>Two areas of \<open>n\<close> and \<open>k\<close> bytes without a common byte.\<close>

definition apart :: "addr \<Rightarrow> nat \<Rightarrow> addr \<Rightarrow> nat \<Rightarrow> bool" where
  "apart a n b k \<longleftrightarrow> n \<le> unat (b - a) \<and> k \<le> unat (a - b)"

lemma unat_minus_flip: "x \<noteq> 0 \<Longrightarrow> unat (- x :: u64) = 2 ^ 64 - unat x"
proof -
  assume "x \<noteq> 0"
  have "(unat x + unat (- x)) mod 2 ^ 64 = 0"
    using unat_word_ariths(1) [of x "- x"] by simp
  moreover have "0 < unat x + unat (- x)" "unat x + unat (- x) < 2 * 2 ^ 64"
    using \<open>x \<noteq> 0\<close> unat_less_exp [of x] unat_less_exp [of "- x"] by (auto simp: unat_gt_0)
  moreover from calculation(1) obtain q where "unat x + unat (- x) = 2 ^ 64 * q"
    by (auto simp: mod_eq_0_iff_dvd)
  ultimately show ?thesis
    by simp
qed

lemma apart_byte:
  assumes "apart a n b k" "i < k"
  shows "n \<le> unat (b + of_nat i - a)"
proof (cases "a = b")
  case False
  let ?d = "b - a"
  have d: "?d \<noteq> 0" using False by simp
  have "k \<le> 2 ^ 64 - unat ?d" "n \<le> unat ?d"
    using assms(1) unat_minus_flip [OF d] by (simp_all add: apart_def)
  moreover from this assms(2) have "unat (of_nat i :: u64) = i"
    by (intro unat_of_nat_small) simp
  ultimately have "unat (?d + of_nat i) = unat ?d + i"
    using assms(2) by (subst unat_add_small) simp_all
  moreover have "b + of_nat i - a = ?d + of_nat i" by (simp add: algebra_simps)
  ultimately show ?thesis
    using \<open>n \<le> unat ?d\<close> by (metis trans_le_add1)
qed (use assms in \<open>simp add: apart_def\<close>)

lemma mload_mstore_apart: "apart a n b k \<Longrightarrow> mload k (mstore n a v m) b = mload k m b"
  by (intro mload_cong mstore_other apart_byte)

lemma mstore_byte_apart: "apart a n b 1 \<Longrightarrow> mstore n a v m b = m b"
  using apart_byte [of a n b 1 0] by (simp add: mstore_other)

text \<open>Areas at fixed offsets of one base, and parts of two areas that are apart.\<close>

lemma in_area_offset:
  assumes "unat ((x :: addr) - (b + of_nat i)) < n" "i + n \<le> 2 ^ 64"
  shows "i \<le> unat (x - b) \<and> unat (x - b) < i + (n :: nat)"
proof -
  let ?y = "x - (b + of_nat i)"
  have i: "unat (of_nat i :: u64) = i"
    using assms by (intro unat_of_nat_small) simp
  have "unat (?y + of_nat i) = unat ?y + unat (of_nat i :: u64)"
    by (rule unat_add_small) (use assms i in simp)
  then have "unat (x - b) = unat ?y + i"
    by (simp add: i)
  then show ?thesis
    using assms(1) by simp
qed

lemma apartI:
  assumes "0 < n" "0 < k" "\<And>x. unat (x - a) < n \<Longrightarrow> unat (x - b) < k \<Longrightarrow> False"
  shows "apart a n b k"
  using assms(1,2) assms(3) [of a] assms(3) [of b] by (auto simp: apart_def not_less [symmetric])

lemma apartD:
  assumes "apart a n b k" "unat (x - a) < n" "unat (x - b) < k"
  shows False
proof -
  have "n \<le> unat (b + of_nat (unat (x - b)) - a)"
    using assms(1,3) by (rule apart_byte)
  then show False
    using assms(2) by simp
qed

lemma apart_fields:
  assumes "i + n \<le> j \<or> j + k \<le> i" "i + n \<le> 2 ^ 64" "j + k \<le> 2 ^ 64" "0 < n" "0 < k"
  shows "apart (b + of_nat i) n (b + of_nat j) k"
proof (rule apartI [OF assms(4,5)])
  fix x assume x: "unat (x - (b + of_nat i)) < n" "unat (x - (b + of_nat j)) < k"
  show False
    using in_area_offset [OF x(1) assms(2)] in_area_offset [OF x(2) assms(3)] assms(1) by linarith
qed

lemma apart_parts:
  assumes "apart b N c K" "i + n \<le> N" "j + k \<le> K" "N \<le> 2 ^ 64" "K \<le> 2 ^ 64" "0 < n" "0 < k"
  shows "apart (b + of_nat i) n (c + of_nat j) k"
proof (rule apartI [OF assms(6,7)])
  fix x assume x: "unat (x - (b + of_nat i)) < n" "unat (x - (c + of_nat j)) < k"
  have "unat (x - b) < N" "unat (x - c) < K"
    using in_area_offset [OF x(1)] in_area_offset [OF x(2)] assms(2-5) by linarith+
  then show False
    using apartD [OF assms(1)] by blast
qed

lemma apart_commute: "apart a n b k \<longleftrightarrow> apart b k a n"
  by (auto simp: apart_def)

subsection \<open>Block operations\<close>

definition memset :: "addr \<Rightarrow> u32 \<Rightarrow> u64 \<Rightarrow> mem \<Rightarrow> (addr \<times> mem) option" where
  "memset s c n m = do {
     ccos_assert (s \<noteq> 0);
     Some (s, fold (\<lambda>i m. m(s + of_nat i := ucast c)) (rev [0..<unat n]) m)
   }"

definition memcpy :: "addr \<Rightarrow> addr \<Rightarrow> u64 \<Rightarrow> mem \<Rightarrow> (addr \<times> mem) option" where
  "memcpy dest src n m = do {
     ccos_assert (dest \<noteq> 0 \<and> src \<noteq> 0);
     Some (dest, fold (\<lambda>i m. m(dest + of_nat i := m (src + of_nat i))) [0..<unat n] m)
   }"

definition memmove :: "addr \<Rightarrow> addr \<Rightarrow> u64 \<Rightarrow> mem \<Rightarrow> addr \<times> mem" where
  "memmove dest src n m =
     (if dest = src \<or> n = 0 then (dest, m)
      else if dest > src \<and> dest < src + n
      then (dest, fold (\<lambda>i m. m(dest + of_nat i := m (src + of_nat i))) (rev [0..<unat n]) m)
      else (dest, fold (\<lambda>i m. m(dest + of_nat i := m (src + of_nat i))) [0..<unat n] m))"

fun memcmp_loop :: "mem \<Rightarrow> addr \<Rightarrow> addr \<Rightarrow> nat \<Rightarrow> addr \<times> addr \<times> nat" where
  "memcmp_loop m s1 s2 0 = (s1, s2, 0)"
| "memcmp_loop m s1 s2 (Suc n) =
     (if m s1 = m s2 then memcmp_loop m (s1 + 1) (s2 + 1) n else (s1, s2, Suc n))"

definition memcmp :: "mem \<Rightarrow> addr \<Rightarrow> addr \<Rightarrow> u64 \<Rightarrow> int option" where
  "memcmp m s1 s2 n = do {
     ccos_assert (s1 \<noteq> 0 \<and> s2 \<noteq> 0);
     let (s1, s2, n) = memcmp_loop m s1 s2 (unat n);
     Some (if n = 0 then 0 else int (unat (m s1)) - int (unat (m s2)))
   }"

subsection \<open>Correctness of the block operations\<close>

text \<open>The memory after an area of \<open>n\<close> bytes at \<open>d\<close> was overwritten.\<close>

definition overwrite :: "addr \<Rightarrow> nat \<Rightarrow> (addr \<Rightarrow> u8) \<Rightarrow> mem \<Rightarrow> mem" where
  "overwrite d n g m = (\<lambda>x. if unat (x - d) < n then g (x - d) else m x)"

lemma image_offsets: "n \<le> 2 ^ 64 \<Longrightarrow> (\<lambda>i. d + of_nat i) ` {..<n} = {x :: addr. unat (x - d) < n}"
proof (intro set_eqI iffI)
  fix x :: addr
  assume "n \<le> 2 ^ 64" "x \<in> (\<lambda>i. d + of_nat i) ` {..<n}"
  then show "x \<in> {x. unat (x - d) < n}"
    by (auto simp: unat_of_nat_small)
next
  fix x :: addr
  assume "x \<in> {x. unat (x - d) < n}"
  then show "x \<in> (\<lambda>i. d + of_nat i) ` {..<n}"
    by (intro image_eqI [of _ _ "unat (x - d)"]) simp_all
qed

lemma memset_ok: "s \<noteq> 0 \<Longrightarrow> memset s c n m = Some (s, overwrite s (unat n) (\<lambda>_. ucast c) m)"
proof -
  assume "s \<noteq> 0"
  have f: "fold (\<lambda>i m. m(s + of_nat i := ucast c)) xs m x =
      (if x \<in> (\<lambda>i. s + of_nat i) ` set xs then ucast c else m x)" for xs m x
    by (induction xs arbitrary: m) auto
  have "fold (\<lambda>i m. m(s + of_nat i := ucast c)) (rev [0..<unat n]) m =
      overwrite s (unat n) (\<lambda>_. ucast c) m"
    using image_offsets [of "unat n" s] unat_less_exp [of n]
    by (simp add: f overwrite_def fun_eq_iff lessThan_atLeast0)
  then show ?thesis
    using \<open>s \<noteq> 0\<close> by (simp add: memset_def)
qed

text \<open>A copy in any order that reads no byte it has written before.\<close>

lemma fold_copy:
  assumes "sorted_wrt (\<lambda>i j. d + of_nat i \<noteq> s + of_nat j) xs"
  shows "fold (\<lambda>i m. m(d + of_nat i := m (s + of_nat i))) xs m x =
    (if x \<in> (\<lambda>i. d + of_nat i) ` set xs then m (s + (x - d)) else (m :: mem) x)"
  using assms
proof (induction xs arbitrary: x rule: rev_induct)
  case (snoc i xs)
  let ?m = "fold (\<lambda>i m. m(d + of_nat i := m (s + of_nat i))) xs m"
  have m: "?m y = (if y \<in> (\<lambda>i. d + of_nat i) ` set xs then m (s + (y - d)) else m y)" for y
    by (rule snoc.IH) (use snoc.prems in \<open>simp add: sorted_wrt_append\<close>)
  have "s + of_nat i \<notin> (\<lambda>j. d + of_nat j) ` set xs"
    using snoc.prems by (auto simp: sorted_wrt_append)
  then have "?m (s + of_nat i) = m (s + of_nat i)"
    by (simp add: m del: fun_upd_apply)
  then show ?case
    using m [of x] by (auto simp del: fun_upd_apply) (auto simp: fun_upd_def)
qed simp

lemma copy_ok:
  assumes "sorted_wrt (\<lambda>i j. d + of_nat i \<noteq> s + of_nat j) xs" "set xs = {..<unat (n :: u64)}"
  shows "fold (\<lambda>i m. m(d + of_nat i := m (s + of_nat i))) xs m = overwrite d (unat n) (\<lambda>k. m (s + k)) m"
  using fold_copy [OF assms(1)] image_offsets [of "unat n" d] unat_less_exp [of n]
  by (auto simp: overwrite_def fun_eq_iff assms(2))

lemma offset_eq:
  assumes "unat (a :: u64) + i < 2 ^ 64" "unat b + j < 2 ^ 64"
  shows "a + of_nat i = b + of_nat j \<longleftrightarrow> unat a + i = unat b + j"
proof -
  have "unat (c + of_nat k) = unat c + k" if "unat c + k < 2 ^ 64" for c :: u64 and k
    using that by (subst unat_add_small) (simp_all add: unat_of_nat_small)
  then show ?thesis
    using assms by (simp add: word_unat_eq_iff)
qed

lemma copy_forward:
  assumes "unat s + unat n < 2 ^ 64" "unat d + unat (n :: u64) < 2 ^ 64" "unat d \<le> unat s \<or> unat s + unat n \<le> unat d"
  shows "fold (\<lambda>i m. m(d + of_nat i := m (s + of_nat i))) [0..<unat n] m = overwrite d (unat n) (\<lambda>k. m (s + k)) m"
  using assms by (intro copy_ok) (auto simp: sorted_wrt_iff_nth_less offset_eq)

lemma copy_backward:
  assumes "unat s + unat n < 2 ^ 64" "unat d + unat (n :: u64) < 2 ^ 64" "unat s < unat d"
  shows "fold (\<lambda>i m. m(d + of_nat i := m (s + of_nat i))) (rev [0..<unat n]) m = overwrite d (unat n) (\<lambda>k. m (s + k)) m"
proof (rule copy_ok)
  show "sorted_wrt (\<lambda>i j. d + of_nat i \<noteq> s + of_nat j) (rev [0..<unat n])"
    unfolding sorted_wrt_rev using assms by (auto simp: sorted_wrt_iff_nth_less offset_eq)
qed auto

lemma memcpy_ok:
  assumes "dest \<noteq> 0" "src \<noteq> 0" "unat src + unat n < 2 ^ 64" "unat dest + unat n < 2 ^ 64"
    "unat dest \<le> unat src \<or> unat src + unat n \<le> unat dest"
  shows "memcpy dest src n m = Some (dest, overwrite dest (unat n) (\<lambda>k. m (src + k)) m)"
  using assms copy_forward [of src n dest m] by (simp add: memcpy_def)

lemma memmove_ok:
  assumes "unat src + unat n < 2 ^ 64" "unat dest + unat n < 2 ^ 64"
  shows "memmove dest src n m = (dest, overwrite dest (unat n) (\<lambda>k. m (src + k)) m)"
proof -
  have "unat (src + n) = unat src + unat n"
    using assms(1) by (simp add: unat_add_small)
  moreover have "overwrite dest (unat n) (\<lambda>k. m (src + k)) m = m" if "dest = src \<or> n = 0"
    using that by (auto simp: overwrite_def fun_eq_iff)
  ultimately show ?thesis
    using copy_forward [OF assms, of m] copy_backward [OF assms, of m]
    by (auto simp: memmove_def word_less_nat_alt)
qed

text \<open>
  C37: \<^verbatim>\<open>memmove\<close> copies the \<open>n\<close> source bytes as they were before the call, however the areas overlap,
  and changes no other byte; \<^verbatim>\<open>memcpy\<close> does the same whenever the destination does not start inside
  the source, and \<^verbatim>\<open>memset\<close> fills exactly its area. The areas end below the top of the address space.
\<close>

theorem memmove_copies:
  assumes "unat src + unat n < 2 ^ 64" "unat dest + unat n < 2 ^ 64"
  shows "(let (r, m') = memmove dest src n m in r = dest \<and>
      (\<forall>i < unat n. m' (dest + of_nat i) = m (src + of_nat i)) \<and>
      (\<forall>x. unat n \<le> unat (x - dest) \<longrightarrow> m' x = m x)) \<and>
    (dest \<noteq> 0 \<and> src \<noteq> 0 \<and> (dest \<le> src \<or> src + n \<le> dest) \<longrightarrow> memcpy dest src n m = Some (memmove dest src n m)) \<and>
    (dest \<noteq> 0 \<longrightarrow> (\<exists>m'. memset dest c n m = Some (dest, m') \<and>
      (\<forall>i < unat n. m' (dest + of_nat i) = ucast c) \<and> (\<forall>x. unat n \<le> unat (x - dest) \<longrightarrow> m' x = m x)))"
proof -
  have i: "unat (of_nat i :: u64) = i" if "i < unat n" for i
    using that unat_less_exp [of n] by (intro unat_of_nat_small) simp
  have "unat (src + n) = unat src + unat n"
    using assms(1) by (simp add: unat_add_small)
  then show ?thesis
    using assms i by (auto simp: memmove_ok memcpy_ok memset_ok overwrite_def word_le_nat_alt)
qed

theorem memmove_copies_witness:
  "snd (memmove 0x1001 0x1000 3 (\<lambda>x. ucast x)) 0x1003 = 2"
proof -
  have "\<forall>i < unat (3 :: u64). snd (memmove 0x1001 0x1000 3 (\<lambda>x. ucast x)) (0x1001 + of_nat i) = ucast (0x1000 + of_nat i :: u64)"
    using memmove_copies [of "0x1000" 3 "0x1001" "\<lambda>x. ucast x" 0] by (auto simp: Let_def split: prod.splits)
  from spec [OF this, of 2] show ?thesis
    by simp
qed

end
