(* ===== verification/Mem_Detect.thy ===== *)
theory Mem_Detect
  imports Memory
begin

text \<open>
  Memory detection (\<open>kernel/mm/memory_detect\<close>).

  \<^item> \<open>memory_state_helper.c\<close>: unit conversions, alignment by a power given as an exponent
    (\<open>mem_align_up\<close>, \<open>mem_align_down\<close>, \<open>mem_is_aligned\<close> for the source's \<open>align_up\<close>,
    \<open>align_down\<close>, \<open>is_aligned\<close>, which share their names with the functions of
    \<open>kernel/math/bits.h\<close>), memory summaries and address ranges.
  \<^item> \<open>e820.c\<close>: the parser of the memory map that the boot loader left in memory, and
    its queries. The map is read from the byte memory \<open>mem\<close> at the generated constant
    \<open>E820_STORAGE_ADDR\<close>, which is the argument \<open>storage\<close>; the generated constant
    \<open>E820_MAX_ENTRIES\<close> is the length of the entry array of the state.

  A pointer argument that may be \<open>NULL\<close> is an \<open>option\<close>; an output parameter is returned
  with the result. Log messages have no effect on the state and are left out.
\<close>

subsection \<open>Unit conversions and alignment\<close>

definition bytes_to_mb :: "u64 \<Rightarrow> u32" where
  "bytes_to_mb bytes = ucast (drop_bit 20 bytes)"

definition bytes_to_kb :: "u64 \<Rightarrow> u64" where
  "bytes_to_kb bytes = drop_bit 10 bytes"

definition mb_to_bytes :: "u32 \<Rightarrow> u64" where
  "mb_to_bytes mb = push_bit 20 (ucast mb)"

definition kb_to_bytes :: "u64 \<Rightarrow> u64" where
  "kb_to_bytes kb = push_bit 10 kb"

definition pages_to_bytes :: "u64 \<Rightarrow> u64" where
  "pages_to_bytes pages = push_bit 12 pages"

definition bytes_to_pages :: "u64 \<Rightarrow> u64" where
  "bytes_to_pages bytes = drop_bit 12 (bytes + 4096 - 1)"

definition mem_align_up :: "u64 \<Rightarrow> nat \<Rightarrow> u64" where
  "mem_align_up value alignment =
     (let msk = push_bit alignment 1 - 1 in (value + msk) AND NOT msk)"

definition mem_align_down :: "u64 \<Rightarrow> nat \<Rightarrow> u64" where
  "mem_align_down value alignment =
     (let msk = push_bit alignment 1 - 1 in value AND NOT msk)"

definition mem_is_aligned :: "u64 \<Rightarrow> nat \<Rightarrow> bool" where
  "mem_is_aligned value alignment =
     (let msk = push_bit alignment 1 - 1 in value AND msk = 0)"

subsection \<open>Memory summaries and ranges\<close>

record memory_summary =
  sum_total_bytes :: u64
  sum_usable_bytes :: u64
  sum_reserved_bytes :: u64
  sum_total_pages :: u64
  sum_usable_pages :: u64
  sum_total_mb :: u32
  sum_usable_mb :: u32

definition mem_summary_init :: "memory_summary option \<Rightarrow> memory_summary option" where
  "mem_summary_init summary =
     map_option (\<lambda>_. \<lparr>sum_total_bytes = 0, sum_usable_bytes = 0, sum_reserved_bytes = 0,
       sum_total_pages = 0, sum_usable_pages = 0, sum_total_mb = 0, sum_usable_mb = 0\<rparr>) summary"

definition mem_summary_add_region ::
  "memory_summary option \<Rightarrow> u64 \<Rightarrow> u64 \<Rightarrow> bool \<Rightarrow> memory_summary option" where
  "mem_summary_add_region summary base len is_usable =
     map_option (\<lambda>s.
       let s = s\<lparr>sum_total_bytes := sum_total_bytes s + len\<rparr> in
       if is_usable then s\<lparr>sum_usable_bytes := sum_usable_bytes s + len\<rparr>
       else s\<lparr>sum_reserved_bytes := sum_reserved_bytes s + len\<rparr>) summary"

definition mem_summary_calculate_mb :: "memory_summary option \<Rightarrow> memory_summary option" where
  "mem_summary_calculate_mb summary =
     map_option (\<lambda>s. s\<lparr>sum_total_mb := bytes_to_mb (sum_total_bytes s),
       sum_usable_mb := bytes_to_mb (sum_usable_bytes s)\<rparr>) summary"

definition mem_summary_calculate_pages :: "memory_summary option \<Rightarrow> memory_summary option" where
  "mem_summary_calculate_pages summary =
     map_option (\<lambda>s. s\<lparr>sum_total_pages := bytes_to_pages (sum_total_bytes s),
       sum_usable_pages := bytes_to_pages (sum_usable_bytes s)\<rparr>) summary"

definition ranges_overlap :: "u64 \<Rightarrow> u64 \<Rightarrow> u64 \<Rightarrow> u64 \<Rightarrow> bool" where
  "ranges_overlap start1 end1 start2 end2 =
     (if end1 \<le> start2 \<or> end2 \<le> start1 then False else True)"

definition range_contains :: "u64 \<Rightarrow> u64 \<Rightarrow> u64 \<Rightarrow> u64 \<Rightarrow> bool" where
  "range_contains outer_start outer_end inner_start inner_end \<longleftrightarrow>
     outer_start \<le> inner_start \<and> outer_end \<ge> inner_end"

subsection \<open>The E820 map\<close>

definition E820_TYPE_USABLE :: u32 where "E820_TYPE_USABLE = 1"
definition E820_TYPE_RESERVED :: u32 where "E820_TYPE_RESERVED = 2"
definition E820_TYPE_ACPI_RECLAIM :: u32 where "E820_TYPE_ACPI_RECLAIM = 3"
definition E820_TYPE_NVS :: u32 where "E820_TYPE_NVS = 4"
definition E820_TYPE_UNUSABLE :: u32 where "E820_TYPE_UNUSABLE = 5"

text \<open>The detection method is an enum read from a byte, so it may hold any byte value.\<close>

definition MEM_DETECT_UNKNOWN :: u32 where "MEM_DETECT_UNKNOWN = 3"

record e820_entry =
  e8_base :: u64
  e8_length :: u64
  e8_type :: u32
  e8_acpi_attrs :: u32

record mem_stats =
  ms_total_bytes :: u64
  ms_usable_bytes :: u64
  ms_reserved_bytes :: u64
  ms_total_mb :: u32
  ms_usable_mb :: u32
  ms_entry_count :: u32

record e820_state =
  s_e820_entries :: "e820_entry list"
  s_e820_entry_count :: u32
  s_detect_method :: u32
  s_e820_initialized :: bool

lemmas e820_type_defs = E820_TYPE_USABLE_def E820_TYPE_RESERVED_def E820_TYPE_ACPI_RECLAIM_def
  E820_TYPE_NVS_def E820_TYPE_UNUSABLE_def

text \<open>The packed \<open>e820_entry_t\<close> at an address.\<close>

definition load_entry :: "(nat \<Rightarrow> u8) \<Rightarrow> nat \<Rightarrow> e820_entry" where
  "load_entry mem a =
     \<lparr>e8_base = load_le mem a 8, e8_length = load_le mem (a + 8) 8,
      e8_type = load_le mem (a + 16) 4, e8_acpi_attrs = load_le mem (a + 20) 4\<rparr>"

definition e820_copy_entry :: "(nat \<Rightarrow> u8) \<Rightarrow> nat \<Rightarrow> nat \<Rightarrow> e820_state \<Rightarrow> e820_state option" where
  "e820_copy_entry mem src_entries i s =
     (if i < length (s_e820_entries s) then
        let e = load_entry mem (src_entries + 24 * i);
            e = (if e8_length e = 0 then e\<lparr>e8_type := 0\<rparr> else e)
        in Some (s\<lparr>s_e820_entries := (s_e820_entries s)[i := e]\<rparr>)
      else None)"

definition e820_init :: "(nat \<Rightarrow> u8) \<Rightarrow> nat \<Rightarrow> e820_state \<Rightarrow> e820_state option" where
  "e820_init mem storage s =
     (if s_e820_initialized s then Some s
      else
        let s = s\<lparr>s_detect_method := ucast (mem storage)\<rparr>;
            byte1 = mem (storage + 1); byte2 = mem (storage + 2);
            s = s\<lparr>s_e820_entry_count := push_bit 8 (ucast byte2) OR ucast byte1\<rparr>
        in if unat (s_e820_entry_count s) > length (s_e820_entries s)
           then Some (s\<lparr>s_e820_entry_count := 0, s_detect_method := MEM_DETECT_UNKNOWN\<rparr>)
           else do {
             s \<leftarrow> fold_opt (e820_copy_entry mem (storage + 3)) [0..<unat (s_e820_entry_count s)] s;
             Some (s\<lparr>s_e820_initialized := True\<rparr>)
           })"

definition e820_get_detect_method :: "e820_state \<Rightarrow> u32" where
  "e820_get_detect_method s = s_detect_method s"

definition e820_get_detect_method_name :: "u32 \<Rightarrow> string" where
  "e820_get_detect_method_name method =
     (if method = 0 then ''E820'' else if method = 1 then ''E801''
      else if method = 2 then ''INT 15h/88h'' else ''Unknown'')"

definition e820_get_entry_count :: "e820_state \<Rightarrow> u32" where
  "e820_get_entry_count s = s_e820_entry_count s"

definition e820_at :: "e820_state \<Rightarrow> nat \<Rightarrow> e820_entry option" where
  "e820_at s i = (if i < length (s_e820_entries s) then Some (s_e820_entries s ! i) else None)"

definition e820_get_entry ::
  "e820_state \<Rightarrow> u32 \<Rightarrow> e820_entry option \<Rightarrow> (bool \<times> e820_entry option) option" where
  "e820_get_entry s index entry =
     (if \<not> s_e820_initialized s then Some (False, entry)
      else case entry of None \<Rightarrow> Some (False, None)
      | Some _ \<Rightarrow>
        if index \<ge> s_e820_entry_count s then Some (False, entry)
        else do { e \<leftarrow> e820_at s (unat index); Some (True, Some e) })"

text \<open>The loops over the stored entries, \<open>for (i = 0; i < s_e820_entry_count; i++)\<close>.\<close>

definition e820_loop :: "e820_state \<Rightarrow> (e820_entry \<Rightarrow> 'a \<Rightarrow> 'a) \<Rightarrow> 'a \<Rightarrow> 'a option" where
  "e820_loop s f a =
     fold_opt (\<lambda>i a. do { e \<leftarrow> e820_at s i; Some (f e a) }) [0..<unat (s_e820_entry_count s)] a"

definition stats_entry :: "e820_entry \<Rightarrow> mem_stats \<Rightarrow> mem_stats" where
  "stats_entry entry stats =
     (let stats = stats\<lparr>ms_total_bytes := ms_total_bytes stats + e8_length entry\<rparr>;
          t = e8_type entry in
      if t = E820_TYPE_USABLE
      then stats\<lparr>ms_usable_bytes := ms_usable_bytes stats + e8_length entry\<rparr>
      else if t = E820_TYPE_RESERVED \<or> t = E820_TYPE_UNUSABLE
      then stats\<lparr>ms_reserved_bytes := ms_reserved_bytes stats + e8_length entry\<rparr>
      else if t = E820_TYPE_ACPI_RECLAIM \<or> t = E820_TYPE_NVS
      then stats\<lparr>ms_reserved_bytes := ms_reserved_bytes stats + e8_length entry\<rparr>
      else stats)"

definition e820_get_stats :: "e820_state \<Rightarrow> mem_stats option \<Rightarrow> mem_stats option option" where
  "e820_get_stats s stats =
     (if \<not> s_e820_initialized s \<or> stats = None then Some stats
      else do {
        stats \<leftarrow> e820_loop s stats_entry
          \<lparr>ms_total_bytes = 0, ms_usable_bytes = 0, ms_reserved_bytes = 0, ms_total_mb = 0,
           ms_usable_mb = 0, ms_entry_count = s_e820_entry_count s\<rparr>;
        Some (Some (stats\<lparr>ms_total_mb := bytes_to_mb (ms_total_bytes stats),
                        ms_usable_mb := bytes_to_mb (ms_usable_bytes stats)\<rparr>))
      })"

definition e820_is_range_usable :: "e820_state \<Rightarrow> u64 \<Rightarrow> u64 \<Rightarrow> bool option" where
  "e820_is_range_usable s base len =
     (if \<not> s_e820_initialized s then Some False
      else if len = 0 then Some True
      else do {
        hit \<leftarrow> find_opt (\<lambda>i. do {
            entry \<leftarrow> e820_at s i;
            let entry_end = e8_base entry + e8_length entry;
            Some (ranges_overlap base (base + len) (e8_base entry) entry_end \<and>
                  e8_type entry \<noteq> E820_TYPE_USABLE)
          }) [0..<unat (s_e820_entry_count s)];
        Some (hit = None)
      })"

definition best_range :: "u64 \<Rightarrow> u64 \<Rightarrow> e820_entry \<Rightarrow> u64 \<times> u64 \<Rightarrow> u64 \<times> u64" where
  "best_range min_base min_length entry = (\<lambda>(best_base, best_length).
     if e8_type entry \<noteq> E820_TYPE_USABLE then (best_base, best_length)
     else let entry_end = e8_base entry + e8_length entry in
       if entry_end \<le> min_base then (best_base, best_length)
       else let effective_base = (if e8_base entry > min_base then e8_base entry else min_base) in
         if effective_base \<ge> entry_end then (best_base, best_length)
         else let effective_length = entry_end - effective_base in
           if effective_length \<ge> min_length \<and> effective_length > best_length
           then (effective_base, effective_length) else (best_base, best_length))"

definition e820_find_usable_range ::
  "e820_state \<Rightarrow> u64 \<Rightarrow> u64 \<Rightarrow> u64 option \<Rightarrow> u64 option \<Rightarrow> (bool \<times> u64 option \<times> u64 option) option"
  where
  "e820_find_usable_range s min_base min_length out_base out_length =
     (if \<not> s_e820_initialized s \<or> out_base = None \<or> out_length = None
      then Some (False, out_base, out_length)
      else do {
        (best_base, best_length) \<leftarrow> e820_loop s (best_range min_base min_length) (0, 0);
        Some (if best_length > 0 then (True, Some best_base, Some best_length)
              else (False, out_base, out_length))
      })"

definition e820_get_type_name :: "u32 \<Rightarrow> string" where
  "e820_get_type_name type =
     (if type = E820_TYPE_USABLE then ''Usable''
      else if type = E820_TYPE_RESERVED then ''Reserved''
      else if type = E820_TYPE_ACPI_RECLAIM then ''ACPI Reclaim''
      else if type = E820_TYPE_NVS then ''ACPI NVS''
      else if type = E820_TYPE_UNUSABLE then ''Unusable'' else ''Unknown'')"

definition e820_get_usable_memory_above :: "e820_state \<Rightarrow> u64 \<Rightarrow> u64 option" where
  "e820_get_usable_memory_above s min_base =
     (if \<not> s_e820_initialized s then Some 0
      else e820_loop s (\<lambda>entry max_usable.
        if e8_type entry \<noteq> E820_TYPE_USABLE then max_usable
        else if e8_base entry + e8_length entry > min_base
        then (if e8_length entry > max_usable then e8_length entry else max_usable)
        else max_usable) 0)"

definition e820_count_usable_regions :: "e820_state \<Rightarrow> u32 option" where
  "e820_count_usable_regions s =
     (if \<not> s_e820_initialized s then Some 0
      else e820_loop s (\<lambda>entry count.
        if e8_type entry = E820_TYPE_USABLE then count + 1 else count) 0)"

subsection \<open>The stored map as a list\<close>

definition e820_ok :: "e820_state \<Rightarrow> bool" where
  "e820_ok s \<longleftrightarrow> unat (s_e820_entry_count s) \<le> length (s_e820_entries s)"

definition e820_map :: "e820_state \<Rightarrow> e820_entry list" where
  "e820_map s = take (unat (s_e820_entry_count s)) (s_e820_entries s)"

lemma e820_loop_fold: "e820_ok s \<Longrightarrow> e820_loop s f a = Some (fold f (e820_map s) a)"
  unfolding e820_loop_def e820_map_def fold_nth_upt [symmetric, OF e820_ok_def [THEN iffD1]]
  by (rule fold_opt_total) (auto simp: e820_at_def e820_ok_def)

lemma find_opt_nth_None:
  assumes "n \<le> length xs" and "\<And>i. i < n \<Longrightarrow> p i = Some (q (xs ! i))"
  shows "\<exists>r. find_opt p [0..<n] = Some r \<and> (r = None \<longleftrightarrow> (\<forall>x \<in> set (take n xs). \<not> q x))"
proof -
  have "find_opt p [0..<n] = Some (find (\<lambda>i. q (xs ! i)) [0..<n])"
    using assms(2) by (intro find_opt_total) simp
  then show ?thesis
    by (auto simp: find_None_iff map_nth_take [OF assms(1), symmetric])
qed

text \<open>The addresses of a range that does not wrap around.\<close>

definition range_of :: "u64 \<Rightarrow> u64 \<Rightarrow> nat set" where
  "range_of base len = {unat base..<unat base + unat len}"

definition no_wrap :: "u64 \<Rightarrow> u64 \<Rightarrow> bool" where
  "no_wrap base len \<longleftrightarrow> unat base + unat len < 2 ^ 64"

definition entry_range :: "e820_entry \<Rightarrow> nat set" where
  "entry_range e = range_of (e8_base e) (e8_length e)"

definition entry_no_wrap :: "e820_entry \<Rightarrow> bool" where
  "entry_no_wrap e \<longleftrightarrow> no_wrap (e8_base e) (e8_length e)"

lemma unat_range_end: "no_wrap base len \<Longrightarrow> unat (base + len) = unat base + unat len"
  unfolding no_wrap_def by (simp add: unat_add_small)

lemma ranges_overlap_iff:
  assumes "no_wrap b1 l1" "no_wrap b2 l2" "l1 \<noteq> 0" "l2 \<noteq> 0"
  shows "ranges_overlap b1 (b1 + l1) b2 (b2 + l2) \<longleftrightarrow> range_of b1 l1 \<inter> range_of b2 l2 \<noteq> {}"
proof -
  have "0 < unat l1" "0 < unat l2"
    using assms(3,4) by (simp_all add: unat_gt_0)
  then show ?thesis
    using assms(1,2)
    by (auto simp: ranges_overlap_def range_of_def word_le_nat_alt unat_range_end)
qed

lemma is_range_usable_all:
  assumes "e820_ok s" "s_e820_initialized s" "len \<noteq> 0"
  shows "e820_is_range_usable s base len = Some (\<forall>e \<in> set (e820_map s).
    ranges_overlap base (base + len) (e8_base e) (e8_base e + e8_length e) \<longrightarrow> e8_type e = E820_TYPE_USABLE)"
proof -
  let ?q = "\<lambda>e. ranges_overlap base (base + len) (e8_base e) (e8_base e + e8_length e) \<and>
    e8_type e \<noteq> E820_TYPE_USABLE"
  obtain r where "find_opt (\<lambda>i. do { e \<leftarrow> e820_at s i; Some (?q e) }) [0..<unat (s_e820_entry_count s)] = Some r"
      "r = None \<longleftrightarrow> (\<forall>e \<in> set (e820_map s). \<not> ?q e)"
    using find_opt_nth_None [of "unat (s_e820_entry_count s)" "s_e820_entries s"
        "\<lambda>i. do { e \<leftarrow> e820_at s i; Some (?q e) }" ?q] assms(1)
    by (auto simp: e820_at_def e820_ok_def e820_map_def)
  then show ?thesis
    using assms(2,3) by (auto simp: e820_is_range_usable_def)
qed

definition entries_ok :: "e820_state \<Rightarrow> bool" where
  "entries_ok s \<longleftrightarrow> list_all (\<lambda>e. entry_no_wrap e \<and> e8_length e \<noteq> 0) (e820_map s)"



text \<open>
  An entry of length 0, which \<^verbatim>\<open>e820_init\<close> reports as skipped and stores with type 0, makes
  \<^verbatim>\<open>e820_is_range_usable\<close> return false for every range that has its base strictly inside, although
  no byte of the range is reserved by it.
\<close>

theorem e820_empty_entry_blocks_range:
  assumes "s_e820_initialized s" "e820_ok s" "e \<in> set (e820_map s)" "e8_length e = 0" "e8_type e = 0"
    and "base < e8_base e" "e8_base e < base + len"
  shows "entry_range e = {} \<and> e820_is_range_usable s base len = Some False"
proof -
  have "len \<noteq> 0"
    using assms(6,7) by auto
  moreover have "ranges_overlap base (base + len) (e8_base e) (e8_base e + e8_length e)"
    using assms(4,6,7) by (simp add: ranges_overlap_def not_le)
  ultimately show ?thesis
    using assms(1-5)
    by (auto simp: is_range_usable_all entry_range_def range_of_def E820_TYPE_USABLE_def intro!: bexI [of _ e])
qed

theorem e820_empty_entry_blocks_range_witness:
  "e820_is_range_usable
     \<lparr>s_e820_entries = [\<lparr>e8_base = 16, e8_length = 0, e8_type = 0, e8_acpi_attrs = 0\<rparr>],
      s_e820_entry_count = 1, s_detect_method = 0, s_e820_initialized = True\<rparr> 8 16 = Some False"
  using e820_empty_entry_blocks_range [of
     "\<lparr>s_e820_entries = [\<lparr>e8_base = 16, e8_length = 0, e8_type = 0, e8_acpi_attrs = 0\<rparr>],
      s_e820_entry_count = 1, s_detect_method = 0, s_e820_initialized = True\<rparr>"
      "\<lparr>e8_base = 16, e8_length = 0, e8_type = 0, e8_acpi_attrs = 0\<rparr>" 8 16]
  by (simp add: e820_ok_def e820_map_def)

subsection \<open>The largest usable range\<close>

text \<open>A candidate of the search: the part of a usable entry at or above the bound.\<close>

definition usable_part :: "u64 \<Rightarrow> u64 \<Rightarrow> e820_entry \<Rightarrow> (u64 \<times> u64) option" where
  "usable_part min_base min_length e =
     (let b = max (e8_base e) min_base; t = e8_base e + e8_length e in
      if e8_type e = E820_TYPE_USABLE \<and> b < t \<and> min_length \<le> t - b then Some (b, t - b) else None)"

lemma best_range_part:
  "best_range min_base min_length e (b, l) =
     (case usable_part min_base min_length e of
        Some (b', l') \<Rightarrow> if l < l' then (b', l') else (b, l) | None \<Rightarrow> (b, l))"
  by (cases "e8_type e = E820_TYPE_USABLE"; cases "min_base < e8_base e")
    (auto simp: best_range_def usable_part_def Let_def max_def)

lemma fold_best_range:
  assumes "fold (best_range min_base min_length) es (0, 0) = (b, l)"
  shows "(l = 0 \<longrightarrow> (\<forall>e \<in> set es. usable_part min_base min_length e = None)) \<and>
    (l \<noteq> 0 \<longrightarrow> (\<exists>e \<in> set es. usable_part min_base min_length e = Some (b, l))) \<and>
    (\<forall>e \<in> set es. \<forall>b' l'. usable_part min_base min_length e = Some (b', l') \<longrightarrow> l' \<le> l)"
  using assms
proof (induction es arbitrary: b l rule: rev_induct)
  case Nil
  then show ?case by simp
next
  case (snoc e es)
  obtain b0 l0 where bl: "fold (best_range min_base min_length) es (0, 0) = (b0, l0)"
    by fastforce
  note IH = snoc.IH [OF bl]
  from IH have le: "\<And>e' b' l'. e' \<in> set es \<Longrightarrow> usable_part min_base min_length e' = Some (b', l') \<Longrightarrow> l' \<le> l0"
    by blast
  show ?case
  proof (cases "usable_part min_base min_length e")
    case None
    then have "(b, l) = (b0, l0)"
      using snoc.prems bl by (simp add: best_range_part)
    then show ?thesis
      using IH None by auto
  next
    case (Some r)
    obtain b1 l1 where r: "r = (b1, l1)"
      by fastforce
    have pos: "l1 \<noteq> 0"
      using Some by (auto simp: r usable_part_def Let_def max_def split: if_splits)
    have bl': "(b, l) = (if l0 < l1 then (b1, l1) else (b0, l0))"
      using snoc.prems bl Some by (simp add: best_range_part r)
    show ?thesis
    proof (cases "l0 < l1")
      case True
      have l1: "l' \<le> l1" if "e' \<in> set es" "usable_part min_base min_length e' = Some (b', l')" for e' b' l'
        using le [OF that] True by simp
      then show ?thesis
        using True bl' Some pos r by auto
    next
      case False
      then have "l0 \<noteq> 0" "l1 \<le> l0"
        using pos by (auto simp: not_less)
      then show ?thesis
        using False bl' Some r IH by auto
    qed
  qed
qed

text \<open>The number of bytes of an entry at or above a bound.\<close>

definition bytes_above :: "u64 \<Rightarrow> e820_entry \<Rightarrow> nat" where
  "bytes_above min_base e = card (entry_range e \<inter> {unat min_base..})"

lemma range_above: "entry_range e \<inter> {unat min_base..} =
    {unat (max (e8_base e) min_base)..<unat (e8_base e) + unat (e8_length e)}"
  by (auto simp: entry_range_def range_of_def max_def word_le_nat_alt)

lemma bytes_above_eq:
  "bytes_above min_base e = unat (e8_base e) + unat (e8_length e) - unat (max (e8_base e) min_base)"
  by (simp add: bytes_above_def range_above)

lemma usable_part_bytes:
  assumes "entry_no_wrap e" "e8_type e = E820_TYPE_USABLE"
  shows "usable_part min_base min_length e =
    (if 0 < bytes_above min_base e \<and> unat min_length \<le> bytes_above min_base e
     then Some (max (e8_base e) min_base, of_nat (bytes_above min_base e)) else None)"
proof -
  define b t where "b = max (e8_base e) min_base" and "t = e8_base e + e8_length e"
  note defs = this
  have n: "bytes_above min_base e = unat t - unat b"
    using assms(1) by (simp add: bytes_above_def range_above defs entry_no_wrap_def unat_range_end)
  have part: "usable_part min_base min_length e =
      (if b < t \<and> min_length \<le> t - b then Some (b, t - b) else None)"
    using assms(2) by (simp add: usable_part_def defs Let_def)
  show ?thesis
  proof (cases "b < t")
    case True
    then have u: "unat (t - b) = bytes_above min_base e"
      unfolding n by (simp add: unat_sub_le)
    then have w: "t - b = of_nat (bytes_above min_base e)"
      by (simp flip: u)
    have pos: "0 < bytes_above min_base e"
      using True unfolding n by (simp add: word_less_nat_alt)
    have "min_length \<le> t - b \<longleftrightarrow> unat min_length \<le> bytes_above min_base e"
      unfolding word_le_nat_alt u ..
    then show ?thesis
      unfolding part w defs(1) [symmetric] using True pos by simp
  next
    case False
    then have "bytes_above min_base e = 0"
      unfolding n by (simp add: word_less_nat_alt)
    then show ?thesis
      using False unfolding part by simp
  qed
qed

lemma bytes_above_less: "bytes_above min_base e < 2 ^ 64"
proof -
  have "bytes_above min_base e \<le> card (entry_range e)"
    unfolding bytes_above_def by (intro card_mono) (auto simp: entry_range_def range_of_def)
  also have "\<dots> < 2 ^ 64"
    using unat_less_exp [of "e8_length e"] by (simp add: entry_range_def range_of_def)
  finally show ?thesis .
qed

lemma usable_part_range:
  assumes "entry_no_wrap e" "usable_part min_base min_length e = Some (b, l)"
  shows "range_of b l = entry_range e \<inter> {unat min_base..}"
proof -
  have "e8_type e = E820_TYPE_USABLE"
    using assms(2) by (auto simp: usable_part_def Let_def split: if_splits)
  then have bl: "b = max (e8_base e) min_base" "l = of_nat (bytes_above min_base e)"
      "0 < bytes_above min_base e"
    using assms usable_part_bytes [of e min_base min_length] by (auto split: if_splits)
  have "unat l = bytes_above min_base e"
    unfolding bl(2) using bytes_above_less [of min_base e] by (simp add: unat_of_nat_small)
  moreover have "bytes_above min_base e = unat (e8_base e) + unat (e8_length e) - unat b"
    unfolding bytes_above_def range_above bl(1) by simp
  ultimately have "unat b + unat l = unat (e8_base e) + unat (e8_length e)"
    using bl(3) by linarith
  then show ?thesis
    unfolding range_above range_of_def bl(1) by simp
qed

lemma usable_part_above:
  assumes "entry_no_wrap e" "e8_type e = E820_TYPE_USABLE"
    and "\<And>b' l'. usable_part min_base min_length e = Some (b', l') \<Longrightarrow> l' \<le> l" and "min_length \<le> l"
  shows "bytes_above min_base e \<le> unat l"
proof (cases "0 < bytes_above min_base e \<and> unat min_length \<le> bytes_above min_base e")
  case True
  then have "of_nat (bytes_above min_base e) \<le> l"
    using assms(3) usable_part_bytes [OF assms(1,2), of min_base min_length] by simp
  then show ?thesis
    using bytes_above_less [of min_base e] unfolding word_le_nat_alt by (simp add: unat_of_nat_small)
next
  case False
  then show ?thesis
    using assms(4) unfolding word_le_nat_alt by linarith
qed

text \<open>
  On a map whose entries do not wrap around the address space,
  \<^verbatim>\<open>e820_find_usable_range(min_base, min_length)\<close> returns the part at or above
  \<open>min_base\<close> of a usable entry, it has at least \<open>min_length\<close> bytes, and no usable entry has
  more bytes at or above \<open>min_base\<close>; when it returns false no usable entry has a non-empty part of
  \<open>min_length\<close> bytes and the output parameters keep their values.
\<close>

theorem e820_find_usable_range_largest:
  assumes "e820_ok s" "s_e820_initialized s" "entries_ok s"
  shows "\<exists>found b l.
    e820_find_usable_range s min_base min_length (Some ob) (Some ol) = Some (found, Some b, Some l) \<and>
    (if found then l \<noteq> 0 \<and> min_length \<le> l \<and>
       (\<exists>e \<in> set (e820_map s). e8_type e = E820_TYPE_USABLE \<and>
          range_of b l = entry_range e \<inter> {unat min_base..}) \<and>
       (\<forall>e \<in> set (e820_map s). e8_type e = E820_TYPE_USABLE \<longrightarrow> bytes_above min_base e \<le> unat l)
     else b = ob \<and> l = ol \<and>
       (\<forall>e \<in> set (e820_map s). e8_type e = E820_TYPE_USABLE \<longrightarrow>
          bytes_above min_base e = 0 \<or> bytes_above min_base e < unat min_length))"
proof -
  obtain b l where bl: "fold (best_range min_base min_length) (e820_map s) (0, 0) = (b, l)"
    by fastforce
  note best = fold_best_range [OF bl]
  have wrap: "entry_no_wrap e" if "e \<in> set (e820_map s)" for e
    using assms(3) that by (simp add: entries_ok_def list_all_iff)
  have res: "e820_find_usable_range s min_base min_length (Some ob) (Some ol) =
      Some (if l > 0 then (True, Some b, Some l) else (False, Some ob, Some ol))"
    using assms(1,2) bl by (simp add: e820_find_usable_range_def e820_loop_fold)
  show ?thesis
  proof (cases "l = 0")
    case True
    have "bytes_above min_base e = 0 \<or> bytes_above min_base e < unat min_length"
      if e: "e \<in> set (e820_map s)" "e8_type e = E820_TYPE_USABLE" for e
      using best True e usable_part_bytes [OF wrap [OF e(1)] e(2), of min_base min_length]
      by (auto split: if_splits)
    then show ?thesis
      using res True by auto
  next
    case False
    obtain e where e: "e \<in> set (e820_map s)" "usable_part min_base min_length e = Some (b, l)"
      using best False by blast
    have t: "e8_type e = E820_TYPE_USABLE" and ml: "min_length \<le> l"
      using e(2) by (auto simp: usable_part_def Let_def split: if_splits)
    have le: "bytes_above min_base e' \<le> unat l"
      if e': "e' \<in> set (e820_map s)" "e8_type e' = E820_TYPE_USABLE" for e'
      using usable_part_above [OF wrap [OF e'(1)] e'(2)] best e'(1) ml by blast
    have "range_of b l = entry_range e \<inter> {unat min_base..}"
      using usable_part_range [OF wrap [OF e(1)] e(2)] .
    then show ?thesis
      using res False e(1) t ml le by (auto simp: word_gt_0)
  qed
qed

theorem e820_find_usable_range_largest_witness:
  "\<exists>found b l. e820_find_usable_range
     \<lparr>s_e820_entries = [\<lparr>e8_base = 0, e8_length = 8, e8_type = 1, e8_acpi_attrs = 0\<rparr>,
        \<lparr>e8_base = 16, e8_length = 4, e8_type = 1, e8_acpi_attrs = 0\<rparr>],
      s_e820_entry_count = 2, s_detect_method = 0, s_e820_initialized = True\<rparr> 6 1 (Some 0) (Some 0) =
      Some (found, Some b, Some l) \<and> found \<and> 4 \<le> unat l"
  using e820_find_usable_range_largest [of
     "\<lparr>s_e820_entries = [\<lparr>e8_base = 0, e8_length = 8, e8_type = 1, e8_acpi_attrs = 0\<rparr>,
        \<lparr>e8_base = 16, e8_length = 4, e8_type = 1, e8_acpi_attrs = 0\<rparr>],
      s_e820_entry_count = 2, s_detect_method = 0, s_e820_initialized = True\<rparr>" 6 1 0 0]
  by (auto simp: e820_ok_def e820_map_def no_wrap_def entries_ok_def entry_no_wrap_def
      bytes_above_eq max_def E820_TYPE_USABLE_def split: if_splits)

subsection \<open>Decoding the boot loader's map\<close>

definition le_bytes :: "nat \<Rightarrow> 'a::len word \<Rightarrow> u8 list" where
  "le_bytes n w = map (\<lambda>i. ucast (drop_bit (8 * i) w)) [0..<n]"

definition encode_entry :: "e820_entry \<Rightarrow> u8 list" where
  "encode_entry e = le_bytes 8 (e8_base e) @ le_bytes 8 (e8_length e) @ le_bytes 4 (e8_type e) @
     le_bytes 4 (e8_acpi_attrs e)"

text \<open>The layout the boot loader writes: the method, the number of entries, the entries.\<close>

definition encode_map :: "u8 \<Rightarrow> e820_entry list \<Rightarrow> u8 list" where
  "encode_map meth es = [meth] @ le_bytes 2 (of_nat (length es) :: u16) @ concat (map encode_entry es)"

definition stored_at :: "(nat \<Rightarrow> u8) \<Rightarrow> nat \<Rightarrow> u8 list \<Rightarrow> bool" where
  "stored_at mem a bs \<longleftrightarrow> list_all (\<lambda>i. mem (a + i) = bs ! i) [0..<length bs]"

lemma stored_at_iff: "stored_at mem a bs \<longleftrightarrow> (\<forall>i < length bs. mem (a + i) = bs ! i)"
  by (auto simp: stored_at_def list_all_iff)

lemma stored_at_append:
  "stored_at mem a (xs @ ys) \<longleftrightarrow> stored_at mem a xs \<and> stored_at mem (a + length xs) ys"
proof -
  have "(\<forall>i < m + n. P i) \<longleftrightarrow> (\<forall>i < m. P i) \<and> (\<forall>i < n. P (m + i))" for m n :: nat and P
    by (metis add_less_cancel_left le_iff_add not_less trans_less_add1)
  then show ?thesis
    unfolding stored_at_iff length_append by (simp add: nth_append add.assoc)
qed

lemma load_le_bytes:
  assumes "stored_at mem a (le_bytes n (w :: 'a::len word))" "LENGTH('a) = 8 * n"
  shows "load_le mem a n = w"
proof (rule bit_eqI)
  fix k :: nat
  have "mem (a + i) = ucast (drop_bit (8 * i) w)" if "i < n" for i
    using assms(1) that by (simp add: stored_at_iff le_bytes_def)
  then have "bit (mem (a + k div 8)) (k mod 8) \<longleftrightarrow> bit w (8 * (k div 8) + k mod 8)" if "k < 8 * n"
    using that by (simp add: less_mult_imp_div_less bit_simps)
  then show "bit (load_le mem a n :: 'a word) k \<longleftrightarrow> bit w k"
    using assms(2) bit_imp_le_length [of w k] by (auto simp: bit_load_le)
qed

lemma length_le_bytes [simp]: "length (le_bytes n w) = n"
  by (simp add: le_bytes_def)

lemma length_encode_entry [simp]: "length (encode_entry e) = 24"
  by (simp add: encode_entry_def)

lemma load_entry_encode: "stored_at mem a (encode_entry e) \<Longrightarrow> load_entry mem a = e"
  by (simp add: encode_entry_def stored_at_append load_entry_def load_le_bytes add.assoc)

lemma load_entries_encode:
  assumes "stored_at mem a (concat (map encode_entry es))" "i < length es"
  shows "load_entry mem (a + 24 * i) = es ! i"
  using assms
proof (induction es arbitrary: a i)
  case (Cons e es)
  then show ?case
    using Cons.IH [of "a + 24" "i - 1"]
    by (cases i) (simp_all add: stored_at_append load_entry_encode add.assoc)
qed simp

lemma count_bytes:
  "push_bit 8 (ucast (ucast (drop_bit 8 w) :: u8)) OR ucast (ucast w :: u8) = (ucast (w :: u16) :: u32)"
  by (rule bit_eqI) (auto simp: bit_simps dest: bit_imp_le_length)

definition skip_empty :: "e820_entry \<Rightarrow> e820_entry" where
  "skip_empty e = (if e8_length e = 0 then e\<lparr>e8_type := 0\<rparr> else e)"

lemma copy_entry_step:
  "i < length (s_e820_entries s) \<Longrightarrow> e820_copy_entry mem src i s =
     Some (s\<lparr>s_e820_entries := (s_e820_entries s)[i := skip_empty (load_entry mem (src + 24 * i))]\<rparr>)"
  by (simp add: e820_copy_entry_def skip_empty_def Let_def)

lemma copy_entries:
  assumes "length es \<le> length (s_e820_entries s)" "stored_at mem src (concat (map encode_entry es))"
    and "n \<le> length es"
  shows "fold_opt (e820_copy_entry mem src) [0..<n] s =
    Some (s\<lparr>s_e820_entries := map skip_empty (take n es) @ drop n (s_e820_entries s)\<rparr>)"
  using assms(3)
proof (induction n)
  case 0
  then show ?case by simp
next
  case (Suc n)
  have "load_entry mem (src + 24 * n) = es ! n"
    using load_entries_encode [OF assms(2), of n] Suc.prems by simp
  moreover have "(map skip_empty (take n es) @ drop n (s_e820_entries s))[n := skip_empty (es ! n)] =
      map skip_empty (take (Suc n) es) @ drop (Suc n) (s_e820_entries s)"
    using Suc.prems assms(1)
    by (simp add: list_update_append take_Suc_conv_app_nth Cons_nth_drop_Suc [symmetric])
  ultimately show ?case
    using Suc assms(1) by (simp add: fold_opt_append copy_entry_step)
qed

text \<open>
  C34: \<^verbatim>\<open>e820_init\<close> inverts the boot loader's encoding: when the memory at \<open>storage\<close> holds
  the method byte, the 16-bit count and the packed 24-byte entries of a map that fits the array,
  the parser ends initialised, with the stored method and exactly those entries in order, an
  entry of length 0 with its type replaced by 0.
\<close>

theorem e820_init_decodes:
  assumes "\<not> s_e820_initialized s" "stored_at mem storage (encode_map meth es)"
    and "length es \<le> length (s_e820_entries s)" "length es < 2 ^ 16"
  shows "\<exists>s'. e820_init mem storage s = Some s' \<and> s_e820_initialized s' \<and> e820_ok s' \<and>
    e820_map s' = map skip_empty es \<and> s_detect_method s' = ucast meth"
proof -
  let ?c = "of_nat (length es) :: u16"
  have mem: "mem storage = meth" "mem (storage + 1) = ucast ?c" "mem (storage + 2) = ucast (drop_bit 8 ?c)"
      "stored_at mem (storage + 3) (concat (map encode_entry es))"
    using assms(2) unfolding encode_map_def stored_at_append
    by (auto simp: stored_at_iff le_bytes_def numeral_2_eq_2 numeral_3_eq_3 less_Suc_eq add.commute)
  have c: "unat (ucast ?c :: u32) = length es"
    using assms(4) by (simp add: unsigned_ucast_eq take_bit_word_eq_self unat_of_nat take_bit_nat_eq_self)
  have "push_bit 8 (ucast (mem (storage + 2))) OR ucast (mem (storage + 1)) = (ucast ?c :: u32)"
    unfolding mem by (rule count_bytes)
  then have cnt: "push_bit 8 (ucast (mem (Suc (Suc storage)))) OR ucast (mem (Suc storage)) = (ucast ?c :: u32)"
    by simp
  show ?thesis
    using assms(1,3) c mem(1,4) cnt
    by (simp add: e820_init_def Let_def copy_entries e820_ok_def e820_map_def)
qed

theorem e820_init_decodes_witness:
  "\<exists>s'. e820_init (\<lambda>a. let bs = encode_map 0 [\<lparr>e8_base = 0x100000, e8_length = 0x7000000, e8_type = 1, e8_acpi_attrs = 0\<rparr>]
       in if 0x6000 \<le> a \<and> a < 0x6000 + length bs then bs ! (a - 0x6000) else 0) 0x6000
     \<lparr>s_e820_entries = replicate 128 \<lparr>e8_base = 0, e8_length = 0, e8_type = 0, e8_acpi_attrs = 0\<rparr>,
      s_e820_entry_count = 0, s_detect_method = 3, s_e820_initialized = False\<rparr> = Some s' \<and>
     e820_map s' = [\<lparr>e8_base = 0x100000, e8_length = 0x7000000, e8_type = 1, e8_acpi_attrs = 0\<rparr>]"
proof -
  let ?es = "[\<lparr>e8_base = 0x100000, e8_length = 0x7000000, e8_type = 1, e8_acpi_attrs = 0\<rparr>]"
  let ?mem = "\<lambda>a. let bs = encode_map 0 ?es in if 0x6000 \<le> a \<and> a < 0x6000 + length bs then bs ! (a - 0x6000) else 0"
  have "stored_at ?mem 0x6000 (encode_map 0 ?es)"
    by (simp add: stored_at_iff Let_def)
  then show ?thesis
    using e820_init_decodes [of "\<lparr>s_e820_entries = replicate 128 \<lparr>e8_base = 0, e8_length = 0, e8_type = 0,
        e8_acpi_attrs = 0\<rparr>, s_e820_entry_count = 0, s_detect_method = 3, s_e820_initialized = False\<rparr>"
        ?mem "0x6000" 0 ?es]
    by (auto simp: skip_empty_def)
qed

subsection \<open>Statistics\<close>

definition e820_reserved :: "u32 \<Rightarrow> bool" where
  "e820_reserved t \<longleftrightarrow> t = E820_TYPE_RESERVED \<or> t = E820_TYPE_UNUSABLE \<or>
     t = E820_TYPE_ACPI_RECLAIM \<or> t = E820_TYPE_NVS"

lemma usable_not_reserved [simp]: "\<not> e820_reserved E820_TYPE_USABLE"
  by (simp add: e820_reserved_def e820_type_defs)

lemma usable_other_types [simp]:
  "E820_TYPE_USABLE \<noteq> E820_TYPE_RESERVED" "E820_TYPE_USABLE \<noteq> E820_TYPE_UNUSABLE"
  "E820_TYPE_USABLE \<noteq> E820_TYPE_ACPI_RECLAIM" "E820_TYPE_USABLE \<noteq> E820_TYPE_NVS"
  by (simp_all add: e820_type_defs)

definition bytes_of :: "(u32 \<Rightarrow> bool) \<Rightarrow> e820_entry list \<Rightarrow> u64" where
  "bytes_of p es = (\<Sum>e \<leftarrow> es. if p (e8_type e) then e8_length e else 0)"

lemma fold_stats_entry:
  "fold stats_entry es st = st\<lparr>ms_total_bytes := ms_total_bytes st + bytes_of (\<lambda>_. True) es,
     ms_usable_bytes := ms_usable_bytes st + bytes_of (\<lambda>t. t = E820_TYPE_USABLE) es,
     ms_reserved_bytes := ms_reserved_bytes st + bytes_of e820_reserved es\<rparr>"
  by (induction es arbitrary: st)
    (auto simp: stats_entry_def e820_reserved_def bytes_of_def Let_def algebra_simps)

text \<open>
  \<^verbatim>\<open>e820_get_stats\<close> fills in the sums, modulo \<open>2 ^ 64\<close>, of the lengths of all entries, of
  the usable ones and of the ones of the four reserved types, and their sizes in megabytes; when
  every entry has a known type the usable and the reserved bytes add up to the total.
\<close>

theorem e820_get_stats_sums:
  assumes "e820_ok s" "s_e820_initialized s"
  shows "\<exists>st. e820_get_stats s (Some st0) = Some (Some st) \<and>
    ms_total_bytes st = bytes_of (\<lambda>_. True) (e820_map s) \<and>
    ms_usable_bytes st = bytes_of (\<lambda>t. t = E820_TYPE_USABLE) (e820_map s) \<and>
    ms_reserved_bytes st = bytes_of e820_reserved (e820_map s) \<and>
    ms_entry_count st = s_e820_entry_count s \<and>
    ms_total_mb st = bytes_to_mb (ms_total_bytes st) \<and> ms_usable_mb st = bytes_to_mb (ms_usable_bytes st) \<and>
    (list_all (\<lambda>e. e8_type e = E820_TYPE_USABLE \<or> e820_reserved (e8_type e)) (e820_map s) \<longrightarrow>
      ms_usable_bytes st + ms_reserved_bytes st = ms_total_bytes st)"
proof -
  have split: "bytes_of (\<lambda>t. t = E820_TYPE_USABLE) es + bytes_of e820_reserved es = bytes_of (\<lambda>_. True) es"
    if "list_all (\<lambda>e. e8_type e = E820_TYPE_USABLE \<or> e820_reserved (e8_type e)) es" for es
    using that by (induction es) (auto simp: bytes_of_def algebra_simps)
  show ?thesis
    using assms split
    by (simp add: e820_get_stats_def e820_loop_fold fold_stats_entry)
qed

theorem e820_get_stats_sums_witness:
  "\<exists>st. e820_get_stats
     \<lparr>s_e820_entries = [\<lparr>e8_base = 0, e8_length = 8, e8_type = 1, e8_acpi_attrs = 0\<rparr>,
        \<lparr>e8_base = 16, e8_length = 4, e8_type = 3, e8_acpi_attrs = 0\<rparr>],
      s_e820_entry_count = 2, s_detect_method = 0, s_e820_initialized = True\<rparr>
      (Some \<lparr>ms_total_bytes = 1, ms_usable_bytes = 2, ms_reserved_bytes = 3, ms_total_mb = 4,
             ms_usable_mb = 5, ms_entry_count = 6\<rparr>) = Some (Some st) \<and>
      ms_usable_bytes st = 8 \<and> ms_reserved_bytes st = 4 \<and> ms_total_bytes st = 12"
  using e820_get_stats_sums [of
     "\<lparr>s_e820_entries = [\<lparr>e8_base = 0, e8_length = 8, e8_type = 1, e8_acpi_attrs = 0\<rparr>,
        \<lparr>e8_base = 16, e8_length = 4, e8_type = 3, e8_acpi_attrs = 0\<rparr>],
      s_e820_entry_count = 2, s_detect_method = 0, s_e820_initialized = True\<rparr>"
     "\<lparr>ms_total_bytes = 1, ms_usable_bytes = 2, ms_reserved_bytes = 3, ms_total_mb = 4,
             ms_usable_mb = 5, ms_entry_count = 6\<rparr>"]
  by (auto simp: e820_ok_def e820_map_def bytes_of_def e820_reserved_def e820_type_defs)

end
