(* ===== verification/Pframe.thy ===== *)
theory Pframe
  imports Bitmap Mem_Detect
begin

text \<open>
  The physical frame allocator (\<open>kernel/mm/pframe/pframe.c\<close>).

  The static \<open>s_pframe_state\<close> is the record \<open>pframe_state\<close>, passed explicitly. Every
  operation of the API holds \<open>s_pframe_lock\<close> from its first to its last access to the state,
  so it is one function on the state. The static bitmap storage is the argument \<open>storage\<close>
  (its bytes) and \<open>storage_addr\<close> (its link address) of \<open>pframe_init\<close>, and the local
  variable \<open>e820_stats\<close>, which is not initialised in the source, starts with the argument
  \<open>stats0\<close>.
\<close>

subsection \<open>State and results\<close>

datatype pframe_result =
  PFRAME_OK | PFRAME_ERR_NOT_INIT | PFRAME_ERR_OOM | PFRAME_ERR_INVALID | PFRAME_ERR_ALIGN

record pframe_state =
  frame_map :: bitmap
  total_frames :: u64
  managed_base :: u64
  managed_end :: u64
  last_alloc_hint :: u64
  pf_initialized :: bool

record pframe_stats =
  st_total_frames :: u64
  st_free_frames :: u64
  st_allocated_frames :: u64
  st_reserved_frames :: u64
  st_bitmap_size_bytes :: u64
  st_managed_start :: u64
  st_managed_end :: u64

definition PFRAME_MAX_BITMAP_SIZE :: u64 where "PFRAME_MAX_BITMAP_SIZE = 2 * 1024 * 1024"
definition PFRAME_MIN_ALLOC_BASE :: u64 where "PFRAME_MIN_ALLOC_BASE = 0x100000"

lemmas pframe_consts = PFRAME_MAX_BITMAP_SIZE_def PFRAME_MIN_ALLOC_BASE_def

definition addr_to_frame :: "u64 \<Rightarrow> u64" where
  "addr_to_frame addr = drop_bit 12 addr"

definition frame_to_addr :: "u64 \<Rightarrow> u64" where
  "frame_to_addr frame = push_bit 12 frame"

definition is_page_aligned :: "u64 \<Rightarrow> bool" where
  "is_page_aligned addr \<longleftrightarrow> addr AND (4096 - 1) = 0"

subsection \<open>Initialisation\<close>

definition mark_region_reserved :: "u64 \<Rightarrow> u64 \<Rightarrow> pframe_state \<Rightarrow> pframe_state option" where
  "mark_region_reserved base len s =
     (if len = 0 then Some s
      else
        let start_frame = addr_to_frame (mem_align_up base 12);
            end_frame = addr_to_frame (mem_align_down (base + len) 12)
        in if start_frame < total_frames s then
             let end_frame = (if end_frame > total_frames s then total_frames s else end_frame);
                 frame_count = end_frame - start_frame
             in do {
               m \<leftarrow> bitmap_set_range (frame_map s) start_frame frame_count;
               Some (s\<lparr>frame_map := m\<rparr>)
             }
           else Some s)"

definition mark_region_free :: "u64 \<Rightarrow> u64 \<Rightarrow> pframe_state \<Rightarrow> pframe_state option" where
  "mark_region_free base len s =
     (if len = 0 then Some s
      else
        let start_frame = addr_to_frame (mem_align_up base 12);
            end_frame = addr_to_frame (mem_align_down (base + len) 12)
        in if start_frame < total_frames s then
             let end_frame = (if end_frame > total_frames s then total_frames s else end_frame);
                 frame_count = end_frame - start_frame
             in do {
               m \<leftarrow> bitmap_clear_range (frame_map s) start_frame frame_count;
               Some (s\<lparr>frame_map := m\<rparr>)
             }
           else Some s)"

text \<open>The local \<open>entry\<close> of the two loops over the map; its initial value is never read.\<close>

definition no_entry :: e820_entry where
  "no_entry = \<lparr>e8_base = 0, e8_length = 0, e8_type = 0, e8_acpi_attrs = 0\<rparr>"

definition highest_usable :: "e820_state \<Rightarrow> u64 option" where
  "highest_usable e8 =
     fold_opt (\<lambda>i max_addr. do {
         (ok, entry) \<leftarrow> e820_get_entry e8 (of_nat i) (Some no_entry);
         entry \<leftarrow> entry;
         Some (if ok then
                 let entry_end = e8_base entry + e8_length entry in
                 if e8_type entry = E820_TYPE_USABLE \<and> entry_end > max_addr then entry_end else max_addr
               else max_addr)
       }) [0..<unat (e820_get_entry_count e8)] 0"

definition free_usable_regions :: "e820_state \<Rightarrow> pframe_state \<Rightarrow> pframe_state option" where
  "free_usable_regions e8 s =
     fold_opt (\<lambda>i s. do {
         (ok, entry) \<leftarrow> e820_get_entry e8 (of_nat i) (Some no_entry);
         entry \<leftarrow> entry;
         if ok \<and> e8_type entry = E820_TYPE_USABLE
         then mark_region_free (e8_base entry) (e8_length entry) s else Some s
       }) [0..<unat (e820_get_entry_count e8)] s"

definition pframe_init ::
  "e820_state \<Rightarrow> mem_stats \<Rightarrow> u8 list \<Rightarrow> u64 \<Rightarrow> pframe_state \<Rightarrow> (pframe_result \<times> pframe_state) option"
  where
  "pframe_init e8 stats0 storage storage_addr s =
     (if pf_initialized s then Some (PFRAME_OK, s)
      else do {
        st \<leftarrow> e820_get_stats e8 (Some stats0);
        st \<leftarrow> st;
        if ms_usable_bytes st = 0 then Some (PFRAME_ERR_INVALID, s)
        else do {
          max_addr \<leftarrow> highest_usable e8;
          let max_addr = mem_align_down max_addr 12;
          let s = s\<lparr>total_frames := bytes_to_pages max_addr,
                    managed_base := PFRAME_MIN_ALLOC_BASE,
                    managed_end := max_addr,
                    last_alloc_hint := addr_to_frame PFRAME_MIN_ALLOC_BASE,
                    pf_initialized := False\<rparr>;
          if (total_frames s + 7) div 8 > PFRAME_MAX_BITMAP_SIZE then Some (PFRAME_ERR_INVALID, s)
          else do {
            m \<leftarrow> bitmap_init storage (total_frames s);
            m \<leftarrow> bitmap_set_range m 0 (total_frames s);
            let s = s\<lparr>frame_map := m\<rparr>;
            s \<leftarrow> free_usable_regions e8 s;
            s \<leftarrow> mark_region_reserved 0 0x100000 s;
            s \<leftarrow> mark_region_reserved 0x6000 4096 s;
            s \<leftarrow> mark_region_reserved 0x9000 (0xBFFF - 0x9000 + 1) s;
            s \<leftarrow> mark_region_reserved 0x10000 (1 * 1024 * 1024) s;
            s \<leftarrow> mark_region_reserved storage_addr PFRAME_MAX_BITMAP_SIZE s;
            Some (PFRAME_OK, s\<lparr>pf_initialized := True\<rparr>)
          }
        }
      })"

subsection \<open>Allocation\<close>

definition pframe_alloc ::
  "u64 option \<Rightarrow> pframe_state \<Rightarrow> (pframe_result \<times> u64 option \<times> pframe_state) option" where
  "pframe_alloc out_addr s = do {
     ccos_assert (out_addr \<noteq> None);
     if \<not> pf_initialized s then Some (PFRAME_ERR_NOT_INIT, out_addr, s)
     else do {
       frame_idx \<leftarrow> bitmap_find_next_zero (frame_map s) (last_alloc_hint s);
       frame_idx \<leftarrow> (if frame_idx <s 0 then bitmap_find_first_zero (frame_map s) else Some frame_idx);
       if frame_idx <s 0 then Some (PFRAME_ERR_OOM, out_addr, s)
       else do {
         m \<leftarrow> bitmap_set (frame_map s) frame_idx;
         let hint = frame_idx + 1;
         let hint = (if hint \<ge> total_frames s then addr_to_frame PFRAME_MIN_ALLOC_BASE else hint);
         Some (PFRAME_OK, Some (frame_to_addr frame_idx), s\<lparr>frame_map := m, last_alloc_hint := hint\<rparr>)
       }
     }
   }"

text \<open>
  The two search loops of \<open>pframe_alloc_n\<close> over the indices \<open>is\<close>: the flag \<open>found\<close> and
  \<open>run_start\<close> when the loop is left.
\<close>

fun find_run :: "bitmap \<Rightarrow> u64 \<Rightarrow> nat list \<Rightarrow> u64 \<Rightarrow> u64 \<Rightarrow> (bool \<times> u64) option" where
  "find_run bm frame_count [] run_start run_length = Some (False, run_start)"
| "find_run bm frame_count (i # is) run_start run_length = do {
     t \<leftarrow> bitmap_test bm (of_nat i);
     if \<not> t then
       let run_start = (if run_length = 0 then of_nat i else run_start);
           run_length = run_length + 1
       in if run_length \<ge> frame_count then Some (True, run_start)
          else find_run bm frame_count is run_start run_length
     else find_run bm frame_count is run_start 0
   }"

definition pframe_alloc_n ::
  "u64 option \<Rightarrow> u64 \<Rightarrow> pframe_state \<Rightarrow> (pframe_result \<times> u64 option \<times> pframe_state) option" where
  "pframe_alloc_n out_addr frame_count s = do {
     ccos_assert (out_addr \<noteq> None);
     if \<not> pf_initialized s then Some (PFRAME_ERR_NOT_INIT, out_addr, s)
     else if frame_count = 0 then Some (PFRAME_ERR_INVALID, out_addr, s)
     else if frame_count > total_frames s then Some (PFRAME_ERR_OOM, out_addr, s)
     else do {
       let start_frame = last_alloc_hint s;
       (found, run_start) \<leftarrow>
         find_run (frame_map s) frame_count [unat start_frame..<unat (total_frames s)] 0 0;
       (found, run_start) \<leftarrow>
         (if \<not> found then
            find_run (frame_map s) frame_count
              [unat (addr_to_frame PFRAME_MIN_ALLOC_BASE)..<unat (min start_frame (total_frames s))]
              run_start 0
          else Some (found, run_start));
       if \<not> found then Some (PFRAME_ERR_OOM, out_addr, s)
       else do {
         m \<leftarrow> bitmap_set_range (frame_map s) run_start frame_count;
         let hint = run_start + frame_count;
         let hint = (if hint \<ge> total_frames s then addr_to_frame PFRAME_MIN_ALLOC_BASE else hint);
         Some (PFRAME_OK, Some (frame_to_addr run_start), s\<lparr>frame_map := m, last_alloc_hint := hint\<rparr>)
       }
     }
   }"

subsection \<open>Release and queries\<close>

definition pframe_free :: "u64 \<Rightarrow> pframe_state \<Rightarrow> (pframe_result \<times> pframe_state) option" where
  "pframe_free addr s =
     (if \<not> pf_initialized s then Some (PFRAME_ERR_NOT_INIT, s)
      else if \<not> is_page_aligned addr then Some (PFRAME_ERR_INVALID, s)
      else
        let frame = addr_to_frame addr in
        if frame \<ge> total_frames s then Some (PFRAME_ERR_INVALID, s)
        else do {
          t \<leftarrow> bitmap_test (frame_map s) frame;
          if \<not> t then Some (PFRAME_ERR_INVALID, s)
          else do {
            m \<leftarrow> bitmap_clear (frame_map s) frame;
            Some (PFRAME_OK, s\<lparr>frame_map := m\<rparr>)
          }
        })"

definition pframe_free_n :: "u64 \<Rightarrow> u64 \<Rightarrow> pframe_state \<Rightarrow> (pframe_result \<times> pframe_state) option" where
  "pframe_free_n addr frame_count s =
     (if \<not> pf_initialized s then Some (PFRAME_ERR_NOT_INIT, s)
      else if frame_count = 0 then Some (PFRAME_ERR_INVALID, s)
      else if \<not> is_page_aligned addr then Some (PFRAME_ERR_INVALID, s)
      else
        let start_frame = addr_to_frame addr in
        if start_frame \<ge> total_frames s then Some (PFRAME_ERR_INVALID, s)
        else if start_frame + frame_count > total_frames s then Some (PFRAME_ERR_INVALID, s)
        else do {
          m \<leftarrow> bitmap_clear_range (frame_map s) start_frame frame_count;
          Some (PFRAME_OK, s\<lparr>frame_map := m\<rparr>)
        })"

definition pframe_get_stats ::
  "pframe_state \<Rightarrow> pframe_stats option \<Rightarrow> (pframe_result \<times> pframe_stats option) option" where
  "pframe_get_stats s stats =
     (if \<not> pf_initialized s then Some (PFRAME_ERR_NOT_INIT, stats)
      else if stats = None then Some (PFRAME_ERR_INVALID, stats)
      else do {
        allocated \<leftarrow> bitmap_weight (frame_map s);
        Some (PFRAME_OK, Some
          \<lparr>st_total_frames = total_frames s, st_free_frames = total_frames s - allocated,
           st_allocated_frames = allocated,
           st_reserved_frames = addr_to_frame PFRAME_MIN_ALLOC_BASE,
           st_bitmap_size_bytes = (total_frames s + 7) div 8,
           st_managed_start = managed_base s, st_managed_end = managed_end s\<rparr>)
      })"

definition pframe_is_allocated :: "u64 \<Rightarrow> pframe_state \<Rightarrow> bool option" where
  "pframe_is_allocated addr s =
     (if \<not> pf_initialized s then Some False
      else let frame = addr_to_frame addr in
        if frame \<ge> total_frames s then Some False else bitmap_test (frame_map s) frame)"

definition pframe_get_total_frames :: "pframe_state \<Rightarrow> u64" where
  "pframe_get_total_frames s = (if \<not> pf_initialized s then 0 else total_frames s)"

definition pframe_get_free_frames :: "pframe_state \<Rightarrow> u64 option" where
  "pframe_get_free_frames s =
     (if \<not> pf_initialized s then Some 0
      else do {
        (r, stats) \<leftarrow> pframe_get_stats s (Some
          \<lparr>st_total_frames = 0, st_free_frames = 0, st_allocated_frames = 0, st_reserved_frames = 0,
           st_bitmap_size_bytes = 0, st_managed_start = 0, st_managed_end = 0\<rparr>);
        map_option st_free_frames stats
      })"

subsection \<open>Invariant and abstraction\<close>

definition pframe_ok :: "pframe_state \<Rightarrow> bool" where
  "pframe_ok s \<longleftrightarrow> pf_initialized s \<and> bitmap_ok (frame_map s) \<and>
     bm_nbits (frame_map s) = total_frames s \<and> unat (total_frames s) \<le> 2 ^ 24"

definition frames :: "pframe_state \<Rightarrow> nat" where
  "frames s = unat (total_frames s)"

definition allocated :: "pframe_state \<Rightarrow> nat set" where
  "allocated s = bm_members (frame_map s)"

definition frame_addr :: "nat \<Rightarrow> u64" where
  "frame_addr f = frame_to_addr (of_nat f)"

lemma frame_round_trip:
  assumes "f < 2 ^ 52"
  shows "addr_to_frame (frame_addr f) = of_nat f" and "is_page_aligned (frame_addr f)"
proof -
  have "bit (of_nat f :: u64) k \<longleftrightarrow> k < 52 \<and> bit (of_nat f :: u64) k" for k
    using assms by (metis (mono_tags) bit_take_bit_iff of_nat_eq_iff take_bit_nat_eq_self take_bit_of_nat)
  then show "addr_to_frame (frame_addr f) = of_nat f"
    unfolding addr_to_frame_def frame_addr_def frame_to_addr_def
    by (intro bit_eqI) (auto simp: bit_simps)
  have m: "(4096 - 1 :: u64) = mask 12"
    by (simp add: mask_eq_exp_minus_1)
  show "is_page_aligned (frame_addr f)"
    unfolding is_page_aligned_def frame_addr_def frame_to_addr_def m
    by (intro bit_eqI) (auto simp: bit_simps)
qed

lemma frame_addr_inj:
  assumes "f < 2 ^ 52" "g < 2 ^ 52" "frame_addr f = frame_addr g"
  shows "f = g"
proof -
  have "(of_nat f :: u64) = of_nat g"
    using frame_round_trip(1) [OF assms(1)] frame_round_trip(1) [OF assms(2)] assms(3) by simp
  moreover have "unat (of_nat f :: u64) = f" "unat (of_nat g :: u64) = g"
    using assms(1,2) by (intro unat_of_nat_small; simp)+
  ultimately show ?thesis
    by metis
qed

lemma pframe_okD:
  assumes "pframe_ok s"
  shows "pf_initialized s" "bitmap_ok (frame_map s)" "bm_size (frame_map s) = frames s"
    "frames s \<le> 2 ^ 24" "allocated s \<subseteq> {..<frames s}" "0 < frames s"
  using assms bm_members_bound [of "frame_map s"]
  by (auto simp: pframe_ok_def frames_def allocated_def bm_size_def bitmap_ok_def)

lemma pframe_ok_update:
  assumes "pframe_ok s" "bitmap_ok m" "bm_size m = frames s"
  shows "pframe_ok (s\<lparr>frame_map := m\<rparr>)" "pframe_ok (s\<lparr>frame_map := m, last_alloc_hint := h\<rparr>)"
  using assms by (auto simp: pframe_ok_def frames_def bm_size_def word_unat_eq_iff)

subsection \<open>The search for a run\<close>

definition free_run :: "nat set \<Rightarrow> nat \<Rightarrow> nat \<Rightarrow> nat \<Rightarrow> bool" where
  "free_run used n lo hi \<longleftrightarrow> (\<exists>j. lo \<le> j \<and> j + n \<le> hi \<and> {j..<j + n} \<inter> used = {})"

lemma free_run_Suc:
  assumes "\<not> free_run used n lo a" "k \<in> used" "k \<le> a" "a < k + n" "lo \<le> k \<or> k + n \<le> a + n"
  shows "\<not> free_run used n lo (Suc a)"
proof
  assume "free_run used n lo (Suc a)"
  then obtain j where j: "lo \<le> j" "j + n \<le> Suc a" "{j..<j + n} \<inter> used = {}"
    by (auto simp: free_run_def)
  then have "j + n = Suc a"
    using assms(1) unfolding free_run_def by (metis le_Suc_eq)
  then have "k \<in> {j..<j + n}"
    using assms(3,4) by auto
  then show False
    using j(3) assms(2) by auto
qed

lemma find_run_spec:
  assumes ok: "bitmap_ok bm" and b: "b \<le> bm_size bm" and n: "0 < n" "unat fc = n"
  shows "a \<le> b \<Longrightarrow> unat rl < n \<Longrightarrow> lo + unat rl \<le> a \<Longrightarrow> rl \<noteq> 0 \<longrightarrow> rs = of_nat (a - unat rl) \<Longrightarrow>
    {a - unat rl..<a} \<inter> bm_members bm = {} \<Longrightarrow>
    lo < a - unat rl \<longrightarrow> a - unat rl - 1 \<in> bm_members bm \<Longrightarrow> \<not> free_run (bm_members bm) n lo a \<Longrightarrow>
    \<exists>found r. find_run bm fc [a..<b] rs rl = Some (found, r) \<and>
      (if found then lo \<le> unat r \<and> unat r + n \<le> b \<and> {unat r..<unat r + n} \<inter> bm_members bm = {}
       else \<not> free_run (bm_members bm) n lo b)"
proof (induction "b - a" arbitrary: a rs rl)
  case 0
  then show ?case by auto
next
  case (Suc d)
  have ab: "[a..<b] = a # [Suc a..<b]" and lt: "a < bm_size bm"
    using Suc.hyps(2) b by (simp_all add: upt_conv_Cons)
  have au: "unat (of_nat a :: u64) = a"
    using bm.index_unat [OF ok lt] .
  have test: "bitmap_test bm (of_nat a) = Some (a \<in> bm_members bm)"
    using bitmap_test_ok [OF ok, of "of_nat a"] lt au by simp
  show ?case
  proof (cases "a \<in> bm_members bm")
    case True
    have "\<not> free_run (bm_members bm) n lo (Suc a)"
      using free_run_Suc [of _ n lo a a] Suc.prems(7) True n(1) by simp
    then show ?thesis
      using Suc.hyps(1) [of "Suc a" 0 rs] Suc.hyps(2) Suc.prems True test n(1) by (simp add: ab)
  next
    case False
    define rs' where "rs' = (if rl = 0 then of_nat a else rs)"
    have rs': "rs' = of_nat (a - unat rl)"
      using Suc.prems(4) by (auto simp: rs'_def)
    have rl': "unat (rl + 1) = unat rl + 1"
      using Suc.prems(2) n(2) unat_less_exp [of fc] by (subst unat_add_small) simp_all
    have run: "{a - unat rl..<Suc a} \<inter> bm_members bm = {}"
      using Suc.prems(5) False by (auto simp: less_Suc_eq)
    show ?thesis
    proof (cases "n \<le> unat rl + 1")
      case True
      then have "fc \<le> rl + 1"
        unfolding word_le_nat_alt rl' using n(2) by simp
      then have eq: "find_run bm fc [a..<b] rs rl = Some (True, rs')"
        using False test by (simp add: ab rs'_def Let_def)
      have start: "unat rs' = a - unat rl"
        unfolding rs' using lt ok by (intro bm.index_unat [OF ok]) simp
      moreover have end_run: "a - unat rl + n = Suc a"
        using True Suc.prems(2,3) by simp
      ultimately have "lo \<le> unat rs'" "unat rs' + n \<le> b" "{unat rs'..<unat rs' + n} \<inter> bm_members bm = {}"
        using run Suc.prems(3) Suc.hyps(2) by simp_all
      then show ?thesis
        unfolding eq by (intro exI [of _ True] exI [of _ rs']) simp
    next
      case False': False
      then have "\<not> fc \<le> rl + 1"
        unfolding word_le_nat_alt rl' using n(2) by simp
      then have eq: "find_run bm fc [a..<b] rs rl = find_run bm fc [Suc a..<b] rs' (rl + 1)"
        using False test by (simp add: ab rs'_def Let_def)
      have no_run: "\<not> free_run (bm_members bm) n lo (Suc a)"
      proof (cases "lo < a - unat rl")
        case True
        then show ?thesis
          using free_run_Suc [OF Suc.prems(7), of "a - unat rl - 1"] Suc.prems(6) False' by simp
      next
        case False
        then show ?thesis
          using False' Suc.prems(3) by (auto simp: free_run_def)
      qed
      show ?thesis
        unfolding eq using Suc.hyps(1) [of "Suc a" "rl + 1" rs'] Suc.hyps(2) Suc.prems False' run rl' rs' no_run
        by simp
    qed
  qed
qed

lemma find_run_window:
  assumes "bitmap_ok bm" "b \<le> bm_size bm" "fc \<noteq> 0"
  shows "\<exists>r. find_run bm fc [a..<b] rs 0 = Some (free_run (bm_members bm) (unat fc) a b, r) \<and>
    (free_run (bm_members bm) (unat fc) a b \<longrightarrow>
       a \<le> unat r \<and> unat r + unat fc \<le> b \<and> {unat r..<unat r + unat fc} \<inter> bm_members bm = {})"
proof (cases "a \<le> b")
  case True
  have n: "0 < unat fc"
    using assms(3) by (simp add: unat_gt_0)
  then have "\<not> free_run (bm_members bm) (unat fc) a a"
    by (auto simp: free_run_def)
  then obtain found r where r: "find_run bm fc [a..<b] rs 0 = Some (found, r)"
      "if found then a \<le> unat r \<and> unat r + unat fc \<le> b \<and> {unat r..<unat r + unat fc} \<inter> bm_members bm = {}
       else \<not> free_run (bm_members bm) (unat fc) a b"
    using find_run_spec [OF assms(1,2) n refl, of a 0 a rs] n True by auto
  moreover have "found \<longleftrightarrow> free_run (bm_members bm) (unat fc) a b"
    using r(2) by (auto simp: free_run_def split: if_splits)
  ultimately show ?thesis
    by auto
next
  case False
  then show ?thesis
    by (auto simp: free_run_def)
qed

subsection \<open>Single frames\<close>

text \<open>The frame a next-fit search from \<open>hint\<close> takes.\<close>

definition next_fit :: "nat set \<Rightarrow> nat \<Rightarrow> nat \<Rightarrow> nat \<Rightarrow> bool" where
  "next_fit used n hint f \<longleftrightarrow> f < n \<and> f \<notin> used \<and>
     (if {hint..<n} \<subseteq> used then {..<f} \<subseteq> used else hint \<le> f \<and> {hint..<f} \<subseteq> used)"

lemma next_fitD: "next_fit used n hint f \<Longrightarrow> f < n \<and> f \<notin> used"
  by (simp add: next_fit_def)

lemma pframe_alloc_ok:
  assumes "pframe_ok s"
  shows "(allocated s = {..<frames s} \<and> pframe_alloc (Some a) s = Some (PFRAME_ERR_OOM, Some a, s)) \<or>
    (\<exists>f s'. next_fit (allocated s) (frames s) (unat (last_alloc_hint s)) f \<and>
       pframe_alloc (Some a) s = Some (PFRAME_OK, Some (frame_addr f), s') \<and> pframe_ok s' \<and>
       frames s' = frames s \<and> allocated s' = insert f (allocated s))"
proof -
  note ok = pframe_okD [OF assms]
  let ?h = "unat (last_alloc_hint s)"
  obtain r where r: "bitmap_find_next_zero (frame_map s) (last_alloc_hint s) = Some r"
      "least_from (- allocated s) ?h (frames s) r"
    using find_next_zero_ok [OF ok(2), of "last_alloc_hint s"] ok(3) by (auto simp: allocated_def)
  obtain r0 where r0: "bitmap_find_first_zero (frame_map s) = Some r0"
      "least_from (- allocated s) 0 (frames s) r0"
    using find_next_zero_ok [OF ok(2), of 0] ok(3)
    by (auto simp: allocated_def bitmap_find_first_zero_def)
  define q where "q = (if r <s 0 then r0 else r)"
  show ?thesis
  proof (cases "q <s 0")
    case True
    then have "{0..<frames s} \<subseteq> allocated s"
      using r0(2) r(2) by (auto simp: q_def least_from_def split: if_splits)
    then have "allocated s = {..<frames s}"
      using ok(5) by auto
    moreover have "pframe_alloc (Some a) s = Some (PFRAME_ERR_OOM, Some a, s)"
      using True ok(1) r(1) r0(1) by (auto simp: pframe_alloc_def q_def split: if_splits)
    ultimately show ?thesis by simp
  next
    case False
    have fit: "next_fit (allocated s) (frames s) ?h (unat q)"
      using False r(2) r0(2) by (auto simp: q_def next_fit_def least_from_def split: if_splits)
    then have lt: "unat q < bm_size (frame_map s)"
      using ok(3) by (simp add: next_fit_def)
    obtain m where m: "bitmap_set (frame_map s) q = Some m" "bitmap_ok m"
        "bm_size m = frames s" "bm_members m = insert (unat q) (allocated s)"
      using bitmap_set_ok [OF ok(2) lt] ok(3) by (auto simp: allocated_def)
    define h where "h = (if q + 1 \<ge> total_frames s then addr_to_frame PFRAME_MIN_ALLOC_BASE else q + 1)"
    have "pframe_alloc (Some a) s =
        Some (PFRAME_OK, Some (frame_addr (unat q)), s\<lparr>frame_map := m, last_alloc_hint := h\<rparr>)"
      using False ok(1) r(1) r0(1) m(1)
      by (auto simp: pframe_alloc_def q_def h_def frame_addr_def Let_def split: if_splits)
    then show ?thesis
      using fit m pframe_ok_update(2) [OF assms m(2,3), of h]
      by (auto simp: frames_def allocated_def)
  qed
qed

lemma pframe_free_ok:
  assumes "pframe_ok s"
  shows "if is_page_aligned addr \<and> unat (addr_to_frame addr) \<in> allocated s
    then \<exists>s'. pframe_free addr s = Some (PFRAME_OK, s') \<and> pframe_ok s' \<and> frames s' = frames s \<and>
      allocated s' = allocated s - {unat (addr_to_frame addr)}
    else pframe_free addr s = Some (PFRAME_ERR_INVALID, s)"
proof -
  note ok = pframe_okD [OF assms]
  let ?f = "addr_to_frame addr"
  have test: "bitmap_test (frame_map s) ?f = Some (unat ?f \<in> allocated s)" if "\<not> total_frames s \<le> ?f"
    using that bitmap_test_ok [OF ok(2), of ?f] ok(3)
    by (simp add: word_le_nat_alt frames_def allocated_def)
  show ?thesis
  proof (cases "is_page_aligned addr \<and> unat ?f \<in> allocated s")
    case True
    then have lt: "unat ?f < bm_size (frame_map s)"
      using ok(3,5) by auto
    obtain m where m: "bitmap_clear (frame_map s) ?f = Some m" "bitmap_ok m"
        "bm_size m = frames s" "bm_members m = allocated s - {unat ?f}"
      using bitmap_clear_ok [OF ok(2) lt] ok(3) by (auto simp: allocated_def)
    have "\<not> total_frames s \<le> ?f"
      using lt ok(3) by (simp add: word_le_nat_alt frames_def)
    then have "pframe_free addr s = Some (PFRAME_OK, s\<lparr>frame_map := m\<rparr>)"
      using True ok(1) m(1) test by (simp add: pframe_free_def Let_def)
    then show ?thesis
      using True m pframe_ok_update(1) [OF assms m(2,3)] by (auto simp: frames_def allocated_def)
  next
    case False
    then have "pframe_free addr s = Some (PFRAME_ERR_INVALID, s)"
      using test ok(1) by (auto simp: pframe_free_def Let_def)
    then show ?thesis
      using False by auto
  qed
qed

subsection \<open>The interface of a frame pool\<close>

text \<open>
  What the clients of the allocator (the page tables, the heap, the copy-on-write handler) rely on:
  a successful allocation hands out an address that is not in use and puts it into use, and a
  release takes it out of use.
\<close>

locale frame_pool =
  fixes ok :: "'s \<Rightarrow> bool"
    and in_use :: "'s \<Rightarrow> u64 set"
    and alloc :: "'s \<Rightarrow> (u64 option \<times> 's) option"
    and release :: "u64 \<Rightarrow> 's \<Rightarrow> (bool \<times> 's) option"
  assumes alloc_some: "ok s \<Longrightarrow> \<exists>r s'. alloc s = Some (r, s')"
    and alloc_fresh: "ok s \<Longrightarrow> alloc s = Some (Some a, s') \<Longrightarrow>
      a \<notin> in_use s \<and> ok s' \<and> in_use s' = insert a (in_use s)"
    and alloc_fail: "ok s \<Longrightarrow> alloc s = Some (None, s') \<Longrightarrow> s' = s"
    and release_some: "ok s \<Longrightarrow> \<exists>b s'. release a s = Some (b, s')"
    and release_spec: "ok s \<Longrightarrow> release a s = Some (b, s') \<Longrightarrow>
      ok s' \<and> (if a \<in> in_use s then b \<and> in_use s' = in_use s - {a} else \<not> b \<and> s' = s)"
begin

text \<open>\<open>n\<close> allocations in a row.\<close>

fun allocs :: "nat \<Rightarrow> 's \<Rightarrow> (u64 list \<times> 's) option" where
  "allocs 0 s = Some ([], s)"
| "allocs (Suc n) s =
     (case alloc s of Some (Some a, s') \<Rightarrow> map_option (\<lambda>(as, t). (a # as, t)) (allocs n s')
      | Some (None, s') \<Rightarrow> Some ([], s') | None \<Rightarrow> None)"

lemma allocs_distinct:
  assumes "ok s"
  shows "\<exists>as t. allocs n s = Some (as, t) \<and> ok t \<and> distinct as \<and> set as \<inter> in_use s = {} \<and>
    in_use t = in_use s \<union> set as"
  using assms
proof (induction n arbitrary: s)
  case 0
  then show ?case by simp
next
  case (Suc n)
  obtain r s' where r: "alloc s = Some (r, s')"
    using alloc_some [OF Suc.prems] by blast
  show ?case
  proof (cases r)
    case None
    then show ?thesis
      using r alloc_fail [OF Suc.prems] Suc.prems by auto
  next
    case (Some a)
    then have a: "a \<notin> in_use s" "ok s'" "in_use s' = insert a (in_use s)"
      using alloc_fresh [OF Suc.prems] r by auto
    obtain as t where "allocs n s' = Some (as, t)" "ok t" "distinct as" "set as \<inter> in_use s' = {}"
        "in_use t = in_use s' \<union> set as"
      using Suc.IH [OF a(2)] by blast
    then show ?thesis
      using r Some a by auto
  qed
qed

lemma alloc_release:
  assumes "ok s" "alloc s = Some (Some a, s')"
  shows "\<exists>t. release a s' = Some (True, t) \<and> ok t \<and> in_use t = in_use s"
proof -
  note a = alloc_fresh [OF assms]
  obtain b t where t: "release a s' = Some (b, t)"
    using release_some a by blast
  then show ?thesis
    using release_spec [of s' a b t] a by auto
qed

lemma double_release:
  assumes "ok s" "release a s = Some (True, s')"
  shows "release a s' = Some (False, s')"
proof -
  have "ok s'" "a \<notin> in_use s'"
    using release_spec [OF assms] by (auto split: if_splits)
  moreover from this obtain b t where "release a s' = Some (b, t)"
    using release_some by blast
  ultimately show ?thesis
    using release_spec [of s' a b t] by auto
qed

end

definition pf_alloc :: "pframe_state \<Rightarrow> (u64 option \<times> pframe_state) option" where
  "pf_alloc s = map_option (\<lambda>(r, a, s'). (if r = PFRAME_OK then a else None, s')) (pframe_alloc (Some 0) s)"

definition pf_release :: "u64 \<Rightarrow> pframe_state \<Rightarrow> (bool \<times> pframe_state) option" where
  "pf_release a s = map_option (\<lambda>(r, s'). (r = PFRAME_OK, s')) (pframe_free a s)"

definition pf_in_use :: "pframe_state \<Rightarrow> u64 set" where
  "pf_in_use s = frame_addr ` allocated s"

lemma page_round_trip: "is_page_aligned a \<Longrightarrow> frame_to_addr (addr_to_frame a) = a"
proof (rule bit_eqI)
  fix k
  assume "is_page_aligned a"
  moreover have m: "(4096 - 1 :: u64) = mask 12"
    by (simp add: mask_eq_exp_minus_1)
  ultimately have "\<not> bit (a AND mask 12) k"
    by (simp add: is_page_aligned_def)
  then show "bit (frame_to_addr (addr_to_frame a)) k \<longleftrightarrow> bit a k"
    by (auto simp: frame_to_addr_def addr_to_frame_def bit_simps dest: bit_imp_le_length)
qed

lemma frame_small: "pframe_ok s \<Longrightarrow> f < frames s \<Longrightarrow> f < 2 ^ 52"
  using pframe_okD(4) [of s] by simp

lemma in_use_iff:
  assumes "pframe_ok s"
  shows "a \<in> pf_in_use s \<longleftrightarrow> is_page_aligned a \<and> unat (addr_to_frame a) \<in> allocated s"
proof
  assume "a \<in> pf_in_use s"
  then obtain f where f: "f \<in> allocated s" "a = frame_addr f"
    by (auto simp: pf_in_use_def)
  then have lt: "f < 2 ^ 52"
    using pframe_okD(5) [OF assms] frame_small [OF assms] by auto
  then have "unat (of_nat f :: u64) = f"
    by (intro unat_of_nat_small) simp
  then show "is_page_aligned a \<and> unat (addr_to_frame a) \<in> allocated s"
    using f frame_round_trip [OF lt] by simp
next
  assume "is_page_aligned a \<and> unat (addr_to_frame a) \<in> allocated s"
  then show "a \<in> pf_in_use s"
    using page_round_trip [of a]
    by (auto simp: pf_in_use_def frame_addr_def intro!: image_eqI [of _ _ "unat (addr_to_frame a)"])
qed

lemma in_use_insert:
  assumes "pframe_ok s" "f < frames s" "f \<notin> allocated s"
  shows "frame_addr f \<notin> pf_in_use s"
  using assms frame_addr_inj frame_small [OF assms(1)] pframe_okD(5) [OF assms(1)]
  by (auto simp: pf_in_use_def)

lemma in_use_delete:
  assumes "pframe_ok s" "is_page_aligned a"
  shows "frame_addr ` (allocated s - {unat (addr_to_frame a)}) = pf_in_use s - {a}"
proof -
  have "frame_addr (unat (addr_to_frame a)) = a"
    using assms(2) by (simp add: frame_addr_def page_round_trip)
  moreover have "unat (addr_to_frame a) < 2 ^ 52"
    using unat_less_exp [of a] by (simp add: addr_to_frame_def unat_drop_bit less_mult_imp_div_less)
  then have "insert (unat (addr_to_frame a)) (allocated s) \<subseteq> {..<2 ^ 52}"
    using frame_small [OF assms(1)] pframe_okD(5) [OF assms(1)] by auto
  then have "inj_on frame_addr (insert (unat (addr_to_frame a)) (allocated s))"
    using frame_addr_inj by (intro inj_onI) blast
  ultimately show ?thesis
    by (auto simp: pf_in_use_def inj_on_def)
qed

lemma pf_alloc_cases:
  assumes "pframe_ok s"
  obtains "pf_alloc s = Some (None, s)"
  | a s' where "pf_alloc s = Some (Some a, s')" "a \<notin> pf_in_use s" "pframe_ok s'"
      "pf_in_use s' = insert a (pf_in_use s)"
proof -
  consider "pframe_alloc (Some 0) s = Some (PFRAME_ERR_OOM, Some 0, s)"
    | f s' where "f < frames s" "f \<notin> allocated s" "pframe_ok s'" "allocated s' = insert f (allocated s)"
        "pframe_alloc (Some 0) s = Some (PFRAME_OK, Some (frame_addr f), s')"
    using pframe_alloc_ok [OF assms, of 0] next_fitD by blast
  then show thesis
  proof cases
    case 1
    then show ?thesis
      using that(1) by (simp add: pf_alloc_def)
  next
    case (2 f s')
    then show ?thesis
      using that(2) [of "frame_addr f" s'] in_use_insert [OF assms, of f]
      by (simp add: pf_alloc_def pf_in_use_def)
  qed
qed

lemma pf_release_cases:
  assumes "pframe_ok s"
  obtains "a \<notin> pf_in_use s" "pf_release a s = Some (False, s)"
  | s' where "a \<in> pf_in_use s" "pf_release a s = Some (True, s')" "pframe_ok s'"
      "pf_in_use s' = pf_in_use s - {a}"
proof (cases "a \<in> pf_in_use s")
  case True
  then have "is_page_aligned a \<and> unat (addr_to_frame a) \<in> allocated s"
    by (simp add: in_use_iff [OF assms])
  then obtain s' where "pframe_free a s = Some (PFRAME_OK, s')" "pframe_ok s'"
      "pf_in_use s' = pf_in_use s - {a}"
    using pframe_free_ok [OF assms, of a] in_use_delete [OF assms, of a] by (auto simp: pf_in_use_def)
  then show ?thesis
    using that(2) True by (simp add: pf_release_def)
next
  case False
  then have "pframe_free a s = Some (PFRAME_ERR_INVALID, s)"
    using pframe_free_ok [OF assms, of a] in_use_iff [OF assms, of a] by argo
  then show ?thesis
    using that(1) False by (simp add: pf_release_def)
qed

interpretation pf: frame_pool pframe_ok pf_in_use pf_alloc pf_release
proof
  fix s a r s' b
  assume ok: "pframe_ok s"
  show "\<exists>r s'. pf_alloc s = Some (r, s')"
    by (rule pf_alloc_cases [OF ok]) blast+
  show "a \<notin> pf_in_use s \<and> pframe_ok s' \<and> pf_in_use s' = insert a (pf_in_use s)"
    if "pf_alloc s = Some (Some a, s')"
    by (rule pf_alloc_cases [OF ok]) (use that in simp_all)
  show "s' = s" if "pf_alloc s = Some (None, s')"
    by (rule pf_alloc_cases [OF ok]) (use that in simp_all)
  show "\<exists>b s'. pf_release a s = Some (b, s')"
    by (rule pf_release_cases [OF ok, of a]) blast+
  show "pframe_ok s' \<and> (if a \<in> pf_in_use s then b \<and> pf_in_use s' = pf_in_use s - {a} else \<not> b \<and> s' = s)"
    if "pf_release a s = Some (b, s')"
    by (rule pf_release_cases [OF ok, of a]) (use that ok in simp_all)
qed

subsection \<open>A pool of eight frames, for the witnesses\<close>

definition small_pool :: "u8 \<Rightarrow> pframe_state" where
  "small_pool used =
     \<lparr>frame_map = \<lparr>bm_bits = [used], bm_nbits = 8\<rparr>, total_frames = 8, managed_base = 0x100000,
      managed_end = 0x8000, last_alloc_hint = 0, pf_initialized = True\<rparr>"

lemma small_pool_ok: "pframe_ok (small_pool used)"
  by (auto simp: pframe_ok_def small_pool_def bitmap_ok_def bm_size_def bm_bytes_def)

lemma bits_of_5: "bit (5 :: u8) k \<longleftrightarrow> k = 0 \<or> k = 2"
proof -
  have "(5 :: u8) = 2 ^ 0 OR 2 ^ 2"
    by simp
  then show ?thesis
    by (simp only: bit_or_iff bit_exp_iff) auto
qed

lemma small_pool_simps [simp]:
  "frames (small_pool u) = 8" "last_alloc_hint (small_pool u) = 0" "allocated (small_pool 5) = {0, 2}"
proof -
  show "frames (small_pool u) = 8" "last_alloc_hint (small_pool u) = 0"
    by (simp_all add: frames_def small_pool_def)
  have "bm_bit \<lparr>bm_bits = [5], bm_nbits = 8\<rparr> i \<longleftrightarrow> i = 0 \<or> i = 2" if "i < 8" for i
  proof -
    have "bm_bit \<lparr>bm_bits = [5], bm_nbits = 8\<rparr> i \<longleftrightarrow> bit (5 :: u8) i"
      using that by (simp add: bm_bit_def)
    then show ?thesis
      unfolding bits_of_5 .
  qed
  then show "allocated (small_pool 5) = {0, 2}"
    by (auto simp: allocated_def small_pool_def bm_members_def bm_size_def)
qed

subsection \<open>Properties of the allocator\<close>

text \<open>
  C3: \<^verbatim>\<open>pframe_alloc\<close> on an initialised allocator either reports \<^verbatim>\<open>PFRAME_ERR_OOM\<close> and
  changes nothing, exactly when every managed frame is allocated, or returns the address of the
  frame a next-fit search takes (the first free frame from the hint on, else the first free frame),
  which was free and is the only frame whose state changes. No assertion fails.
\<close>

theorem pframe_alloc_next_fit:
  assumes "pframe_ok s"
  shows "if allocated s = {..<frames s} then pframe_alloc (Some a) s = Some (PFRAME_ERR_OOM, Some a, s)
    else \<exists>f s'. next_fit (allocated s) (frames s) (unat (last_alloc_hint s)) f \<and>
       pframe_alloc (Some a) s = Some (PFRAME_OK, Some (frame_addr f), s') \<and> pframe_ok s' \<and>
       frames s' = frames s \<and> allocated s' = insert f (allocated s)"
proof (cases "allocated s = {..<frames s}")
  case True
  then have "\<not> next_fit (allocated s) (frames s) h f" for h f
    by (auto dest: next_fitD)
  then show ?thesis
    using True pframe_alloc_ok [OF assms, of a] by simp
next
  case False
  then show ?thesis
    using pframe_alloc_ok [OF assms, of a] by simp
qed

theorem pframe_alloc_next_fit_witness:
  "\<exists>f s'. pframe_alloc (Some 0) (small_pool 5) = Some (PFRAME_OK, Some (frame_addr f), s') \<and>
     f \<notin> allocated (small_pool 5)"
proof -
  have "1 \<notin> allocated (small_pool 5)" "(1 :: nat) \<in> {..<frames (small_pool 5)}"
    by simp_all
  then have "allocated (small_pool 5) \<noteq> {..<frames (small_pool 5)}"
    by metis
  then show ?thesis
    using pframe_alloc_next_fit [OF small_pool_ok, of 5 0] by (auto dest: next_fitD)
qed

text \<open>
  C1: the frames that any number of successive allocations hand out are pairwise distinct and none
  of them was in use before: \<^verbatim>\<open>pframe_alloc\<close> never gives one physical page to two owners.
\<close>

theorem pframe_allocs_distinct:
  assumes "pframe_ok s"
  shows "\<exists>as t. pf.allocs n s = Some (as, t) \<and> pframe_ok t \<and> distinct as \<and>
    set as \<inter> pf_in_use s = {} \<and> pf_in_use t = pf_in_use s \<union> set as"
  using pf.allocs_distinct [OF assms] .

theorem pframe_allocs_distinct_witness:
  "\<exists>as t. pf.allocs 3 (small_pool 5) = Some (as, t) \<and> distinct as"
  using pframe_allocs_distinct [OF small_pool_ok, of 3 5] by blast

text \<open>
  C24: \<^verbatim>\<open>pframe_free\<close> releases exactly the page-aligned addresses of allocated frames; every other
  address, a second release of the same frame included, is refused with
  \<^verbatim>\<open>PFRAME_ERR_INVALID\<close> and changes nothing. Releasing the page that \<^verbatim>\<open>pframe_alloc\<close> has just
  returned restores the set of allocated frames.
\<close>

theorem pframe_free_spec:
  assumes "pframe_ok s"
  shows "(if addr \<in> pf_in_use s then
      \<exists>s'. pframe_free addr s = Some (PFRAME_OK, s') \<and> pframe_ok s' \<and> pf_in_use s' = pf_in_use s - {addr} \<and>
        pframe_free addr s' = Some (PFRAME_ERR_INVALID, s')
     else pframe_free addr s = Some (PFRAME_ERR_INVALID, s)) \<and>
    (pf_alloc s = Some (Some a, t) \<longrightarrow>
      (\<exists>u. pframe_free a t = Some (PFRAME_OK, u) \<and> pframe_ok u \<and> pf_in_use u = pf_in_use s))"
proof -
  have free: "if addr \<in> pf_in_use s
      then \<exists>s'. pframe_free addr s = Some (PFRAME_OK, s') \<and> pframe_ok s' \<and> pf_in_use s' = pf_in_use s - {addr}
      else pframe_free addr s = Some (PFRAME_ERR_INVALID, s)" if "pframe_ok s" for addr s
    using pframe_free_ok [OF that, of addr] in_use_iff [OF that, of addr] in_use_delete [OF that, of addr]
    by (auto simp: pf_in_use_def split: if_splits)
  have again: "pframe_free addr s' = Some (PFRAME_ERR_INVALID, s')"
    if "pframe_ok s'" "pf_in_use s' = pf_in_use s - {addr}" for s'
    using free [OF that(1), of addr] that(2) by simp
  have "if addr \<in> pf_in_use s then
      \<exists>s'. pframe_free addr s = Some (PFRAME_OK, s') \<and> pframe_ok s' \<and> pf_in_use s' = pf_in_use s - {addr} \<and>
        pframe_free addr s' = Some (PFRAME_ERR_INVALID, s')
     else pframe_free addr s = Some (PFRAME_ERR_INVALID, s)"
    using free [OF assms, of addr] again by (metis (full_types))
  moreover have "\<exists>u. pframe_free a t = Some (PFRAME_OK, u) \<and> pframe_ok u \<and> pf_in_use u = pf_in_use s"
    if "pf_alloc s = Some (Some a, t)"
  proof -
    have "a \<in> pf_in_use t" "pf_in_use t - {a} = pf_in_use s" "pframe_ok t"
      using pf.alloc_fresh [OF assms that] by auto
    then show ?thesis
      using free [of t a] by simp
  qed
  ultimately show ?thesis
    by blast
qed

theorem pframe_free_spec_witness:
  "\<exists>s'. pframe_free 0x2000 (small_pool 5) = Some (PFRAME_OK, s') \<and>
     pframe_free 0x2000 s' = Some (PFRAME_ERR_INVALID, s')"
proof -
  have "unat (addr_to_frame 0x2000) \<in> allocated (small_pool 5)" "is_page_aligned 0x2000"
    by (simp_all add: addr_to_frame_def is_page_aligned_def unat_drop_bit)
  then have "0x2000 \<in> pf_in_use (small_pool 5)"
    by (simp add: in_use_iff [OF small_pool_ok])
  then show ?thesis
    using pframe_free_spec [OF small_pool_ok, of "0x2000" 5 0 "small_pool 5"] by auto
qed

text \<open>The frames in which \<open>pframe_alloc_n\<close> looks for a run.\<close>

definition run_in_reach :: "pframe_state \<Rightarrow> nat \<Rightarrow> bool" where
  "run_in_reach s n \<longleftrightarrow> free_run (allocated s) n (unat (last_alloc_hint s)) (frames s) \<or>
     free_run (allocated s) n 256 (min (unat (last_alloc_hint s)) (frames s))"

lemma pframe_alloc_n_search:
  assumes "pframe_ok s" and "fc \<noteq> 0" and "unat fc \<le> frames s"
  obtains r where "run_in_reach s (unat fc) \<longrightarrow> unat r + unat fc \<le> frames s \<and> {unat r..<unat r + unat fc} \<inter> allocated s = {}"
    "pframe_alloc_n (Some a) fc s =
      (if \<not> run_in_reach s (unat fc) then Some (PFRAME_ERR_OOM, Some a, s)
       else do {
         m \<leftarrow> bitmap_set_range (frame_map s) r fc;
         let hint = r + fc;
         let hint = (if hint \<ge> total_frames s then addr_to_frame PFRAME_MIN_ALLOC_BASE else hint);
         Some (PFRAME_OK, Some (frame_to_addr r), s\<lparr>frame_map := m, last_alloc_hint := hint\<rparr>)
       })"
proof -
  note ok = pframe_okD [OF assms(1)]
  let ?h = "unat (last_alloc_hint s)" and ?n = "unat fc"
  have min256: "unat (addr_to_frame PFRAME_MIN_ALLOC_BASE) = 256"
    by (simp add: addr_to_frame_def PFRAME_MIN_ALLOC_BASE_def unat_drop_bit)
  have mn: "unat (min (last_alloc_hint s) (total_frames s)) = min ?h (frames s)"
    by (simp add: unat_min frames_def)
  have fc: "\<not> fc > total_frames s"
    using assms(3) by (simp add: word_less_nat_alt frames_def)
  obtain r1 where r1: "find_run (frame_map s) fc [?h..<frames s] 0 0 =
        Some (free_run (allocated s) ?n ?h (frames s), r1)"
      "free_run (allocated s) ?n ?h (frames s) \<longrightarrow> unat r1 + ?n \<le> frames s \<and>
        {unat r1..<unat r1 + ?n} \<inter> allocated s = {}"
    using find_run_window [OF ok(2), of "frames s" fc ?h 0] ok(3) assms(2) by (auto simp: allocated_def)
  obtain r2 where r2: "find_run (frame_map s) fc [256..<min ?h (frames s)] r1 0 =
        Some (free_run (allocated s) ?n 256 (min ?h (frames s)), r2)"
      "free_run (allocated s) ?n 256 (min ?h (frames s)) \<longrightarrow> unat r2 + ?n \<le> frames s \<and>
        {unat r2..<unat r2 + ?n} \<inter> allocated s = {}"
    using find_run_window [OF ok(2), of "min ?h (frames s)" fc 256 r1] ok(3) assms(2)
    by (auto simp: allocated_def)
  define r where "r = (if free_run (allocated s) ?n ?h (frames s) then r1 else r2)"
  show thesis
  proof
    show "run_in_reach s (unat fc) \<longrightarrow>
        unat r + unat fc \<le> frames s \<and> {unat r..<unat r + unat fc} \<inter> allocated s = {}"
      using r1(2) r2(2) by (auto simp: r_def run_in_reach_def)
  qed (use ok(1) fc assms(2) r1(1) r2(1) in
    \<open>simp add: pframe_alloc_n_def run_in_reach_def r_def frames_def [symmetric] min256 mn Let_def\<close>)
qed

lemma alloc_n_ok:
  assumes "pframe_ok s" and "fc \<noteq> 0" and "unat fc \<le> frames s"
  shows "if run_in_reach s (unat fc)
    then \<exists>f s'. pframe_alloc_n (Some a) fc s = Some (PFRAME_OK, Some (frame_addr f), s') \<and> pframe_ok s' \<and>
      frames s' = frames s \<and> f + unat fc \<le> frames s \<and> {f..<f + unat fc} \<inter> allocated s = {} \<and>
      allocated s' = allocated s \<union> {f..<f + unat fc}
    else pframe_alloc_n (Some a) fc s = Some (PFRAME_ERR_OOM, Some a, s)"
proof -
  note ok = pframe_okD [OF assms(1)]
  let ?n = "unat fc"
  obtain r where run: "run_in_reach s ?n \<longrightarrow> unat r + ?n \<le> frames s \<and> {unat r..<unat r + ?n} \<inter> allocated s = {}"
    and eq: "pframe_alloc_n (Some a) fc s =
      (if \<not> run_in_reach s ?n then Some (PFRAME_ERR_OOM, Some a, s)
       else do {
         m \<leftarrow> bitmap_set_range (frame_map s) r fc;
         let hint = r + fc;
         let hint = (if hint \<ge> total_frames s then addr_to_frame PFRAME_MIN_ALLOC_BASE else hint);
         Some (PFRAME_OK, Some (frame_to_addr r), s\<lparr>frame_map := m, last_alloc_hint := hint\<rparr>)
       })"
    by (rule pframe_alloc_n_search [OF assms, of a])
  show ?thesis
  proof (cases "run_in_reach s ?n")
    case True
    then have r: "unat r + ?n \<le> frames s" "{unat r..<unat r + ?n} \<inter> allocated s = {}"
      using run by simp_all
    then obtain m where m: "bitmap_set_range (frame_map s) r fc = Some m" "bitmap_ok m"
        "bm_size m = frames s" "bm_members m = allocated s \<union> {unat r..<unat r + ?n}"
      using bitmap_set_range_ok [OF ok(2), of fc r] ok(3,4) assms(2)
      by (auto simp: allocated_def word_gt_0 min_def)
    have "pframe_ok (s\<lparr>frame_map := m, last_alloc_hint := h\<rparr>)" for h
      using pframe_ok_update(2) [OF assms(1) m(2,3)] .
    then show ?thesis
      using True r m unfolding eq
      by (auto simp: Let_def frame_addr_def frames_def allocated_def intro!: exI [of _ "unat r"])
  next
    case False
    then show ?thesis
      by (simp add: eq)
  qed
qed

text \<open>
  C25: \<^verbatim>\<open>pframe_alloc_n\<close> with a count between 1 and the number of managed frames succeeds exactly
  when a run of that many free frames lies between the hint and the end of memory, or between the
  1 MB boundary and the hint: it returns the address of the first frame of such a run and allocates
  the frames of the run and no others. Otherwise it returns \<^verbatim>\<open>PFRAME_ERR_OOM\<close> and changes nothing.
\<close>

theorem pframe_alloc_n_run:
  assumes "pframe_ok s" and "fc \<noteq> 0" and "unat fc \<le> frames s"
  shows "if run_in_reach s (unat fc)
    then \<exists>f s'. pframe_alloc_n (Some a) fc s = Some (PFRAME_OK, Some (frame_addr f), s') \<and> pframe_ok s' \<and>
      frames s' = frames s \<and> f + unat fc \<le> frames s \<and> {f..<f + unat fc} \<inter> allocated s = {} \<and>
      allocated s' = allocated s \<union> {f..<f + unat fc}
    else pframe_alloc_n (Some a) fc s = Some (PFRAME_ERR_OOM, Some a, s)"
  using alloc_n_ok [OF assms] .

theorem pframe_alloc_n_run_witness:
  "pframe_alloc_n (Some 0) 8 (small_pool 5) = Some (PFRAME_ERR_OOM, Some 0, small_pool 5)"
proof -
  have "\<not> run_in_reach (small_pool 5) (unat (8 :: u64))"
    by (simp add: run_in_reach_def free_run_def)
  then show ?thesis
    using pframe_alloc_n_run [OF small_pool_ok, of 8 5 0] by simp
qed

lemma free_range_ok:
  assumes "pframe_ok s" "fc \<noteq> 0" "unat (addr_to_frame addr) + unat fc \<le> frames s" "is_page_aligned addr"
  shows "\<exists>s'. pframe_free_n addr fc s = Some (PFRAME_OK, s') \<and> pframe_ok s' \<and> frames s' = frames s \<and>
    allocated s' = allocated s - {unat (addr_to_frame addr)..<unat (addr_to_frame addr) + unat fc}"
proof -
  note ok = pframe_okD [OF assms(1)]
  let ?f = "addr_to_frame addr"
  have n: "0 < unat fc"
    using assms(2) by (simp add: unat_gt_0)
  have sum: "unat (?f + fc) = unat ?f + unat fc"
    using assms(3) ok(4) by (simp add: unat_add_small)
  have "\<not> total_frames s \<le> ?f" "\<not> total_frames s < ?f + fc"
    unfolding word_le_nat_alt word_less_nat_alt sum using assms(3) n by (simp_all add: frames_def)
  moreover obtain m where m: "bitmap_clear_range (frame_map s) ?f fc = Some m" "bitmap_ok m"
      "bm_size m = frames s" "bm_members m = allocated s - {unat ?f..<unat ?f + unat fc}"
    using bitmap_clear_range_ok [OF ok(2), of fc ?f] ok(3,4) assms(2,3)
    by (auto simp: allocated_def word_gt_0 min_def)
  ultimately have "pframe_free_n addr fc s = Some (PFRAME_OK, s\<lparr>frame_map := m\<rparr>)"
    using ok(1) assms(2,4) by (simp add: pframe_free_n_def Let_def)
  then show ?thesis
    using m pframe_ok_update(1) [OF assms(1) m(2,3)] by (auto simp: frames_def allocated_def)
qed

text \<open>
  C26: releasing with \<^verbatim>\<open>pframe_free_n\<close> the run that \<^verbatim>\<open>pframe_alloc_n\<close> has just returned, with
  the same count, succeeds and restores the set of allocated frames.
\<close>

theorem pframe_alloc_n_free_n:
  assumes "pframe_ok s" and "pframe_alloc_n (Some a) fc s = Some (PFRAME_OK, Some addr, t)"
  shows "\<exists>u. pframe_free_n addr fc t = Some (PFRAME_OK, u) \<and> pframe_ok u \<and> allocated u = allocated s"
proof -
  note ok = pframe_okD [OF assms(1)]
  have fc: "fc \<noteq> 0" "unat fc \<le> frames s"
    using assms(2) ok(1) by (auto simp: pframe_alloc_n_def frames_def not_less word_le_nat_alt split: if_splits)
  obtain f where f: "addr = frame_addr f" "pframe_ok t" "frames t = frames s" "f + unat fc \<le> frames s"
      "{f..<f + unat fc} \<inter> allocated s = {}" "allocated t = allocated s \<union> {f..<f + unat fc}"
    using alloc_n_ok [OF assms(1) fc, of a] assms(2) by (auto split: if_splits)
  have lt: "f < 2 ^ 52"
    using f(4) ok(4) by simp
  have uf: "unat (addr_to_frame addr) = f"
    unfolding f(1) frame_round_trip(1) [OF lt] using lt by (intro unat_of_nat_small) simp
  have "\<exists>u. pframe_free_n addr fc t = Some (PFRAME_OK, u) \<and> pframe_ok u \<and> frames u = frames t \<and>
      allocated u = allocated t - {f..<f + unat fc}"
    using free_range_ok [OF f(2) fc(1), of addr] frame_round_trip(2) [OF lt] f(1,3,4) uf by simp
  then show ?thesis
    using f(5,6) by auto
qed

theorem pframe_alloc_n_free_n_witness:
  "\<exists>addr t u. pframe_alloc_n (Some 0) 3 (small_pool 5) = Some (PFRAME_OK, Some addr, t) \<and>
     pframe_free_n addr 3 t = Some (PFRAME_OK, u) \<and> allocated u = allocated (small_pool 5)"
proof -
  have "run_in_reach (small_pool 5) (unat (3 :: u64))"
    by (auto simp: run_in_reach_def free_run_def intro!: exI [of _ 3])
  then obtain f t where "pframe_alloc_n (Some 0) 3 (small_pool 5) = Some (PFRAME_OK, Some (frame_addr f), t)"
    using alloc_n_ok [OF small_pool_ok, of 3 5 0] by auto
  moreover from pframe_alloc_n_free_n [OF small_pool_ok this]
  obtain u where "pframe_free_n (frame_addr f) 3 t = Some (PFRAME_OK, u)"
      "allocated u = allocated (small_pool 5)"
    by blast
  ultimately show ?thesis
    by blast
qed

text \<open>
  \<^verbatim>\<open>pframe_get_stats\<close> reports the number of allocated and of free frames exactly, so they
  add up to the number of managed frames, and \<^verbatim>\<open>pframe_get_free_frames\<close> returns the second.
\<close>

theorem pframe_stats_exact:
  assumes "pframe_ok s"
  shows "\<exists>st. pframe_get_stats s (Some st0) = Some (PFRAME_OK, Some st) \<and>
    unat (st_allocated_frames st) = card (allocated s) \<and>
    unat (st_free_frames st) = card ({..<frames s} - allocated s) \<and>
    unat (st_allocated_frames st) + unat (st_free_frames st) = unat (st_total_frames st) \<and>
    pframe_get_free_frames s = Some (st_free_frames st)"
proof -
  note ok = pframe_okD [OF assms]
  have fin: "finite (allocated s)"
    using finite_subset [OF ok(5)] by simp
  have le: "card (allocated s) \<le> frames s"
    using card_mono [OF finite_lessThan ok(5)] by simp
  have c: "unat (of_nat (card (allocated s)) :: u64) = card (allocated s)"
    using le ok(4) by (intro unat_of_nat_small) simp
  then have "unat (total_frames s - of_nat (card (allocated s))) = frames s - card (allocated s)"
    using le by (simp add: unat_sub_le word_le_nat_alt frames_def)
  moreover have "card ({..<frames s} - allocated s) = frames s - card (allocated s)"
    using card_Diff_subset [OF fin ok(5)] by simp
  moreover have "bitmap_weight (frame_map s) = Some (of_nat (card (allocated s)))"
    using bitmap_weight_ok [OF ok(2)] by (simp add: allocated_def)
  ultimately show ?thesis
    using ok(1) c le by (simp add: pframe_get_stats_def pframe_get_free_frames_def frames_def)
qed

theorem pframe_stats_exact_witness:
  "\<exists>st. pframe_get_stats (small_pool 5) (Some
      \<lparr>st_total_frames = 0, st_free_frames = 0, st_allocated_frames = 0, st_reserved_frames = 0,
       st_bitmap_size_bytes = 0, st_managed_start = 0, st_managed_end = 0\<rparr>) = Some (PFRAME_OK, Some st) \<and>
     unat (st_allocated_frames st) = 2"
  using pframe_stats_exact [OF small_pool_ok, of 5 "\<lparr>st_total_frames = 0, st_free_frames = 0,
      st_allocated_frames = 0, st_reserved_frames = 0, st_bitmap_size_bytes = 0, st_managed_start = 0,
      st_managed_end = 0\<rparr>"] by auto

end
