(* ===== verification/Pframe_Init.thy ===== *)
theory Pframe_Init
  imports Pframe
begin

text \<open>
  What \<open>pframe_init\<close> establishes: which frames are free after the allocator has been set up
  from the E820 map, with the bounds under which no assertion of the bitmap fails.
\<close>

subsection \<open>Frames of a region\<close>

definition frame_bytes :: "nat \<Rightarrow> nat set" where
  "frame_bytes f = {4096 * f..<4096 * (f + 1)}"

text \<open>The frames that lie completely in a range.\<close>

definition whole_frames :: "u64 \<Rightarrow> u64 \<Rightarrow> nat set" where
  "whole_frames base len = {f. frame_bytes f \<subseteq> range_of base len}"

definition map_ok :: "pframe_state \<Rightarrow> bool" where
  "map_ok s \<longleftrightarrow> bitmap_ok (frame_map s) \<and> bm_nbits (frame_map s) = total_frames s \<and>
     unat (total_frames s) \<le> 2 ^ 24"

lemma unat_frame_up:
  assumes "unat base + 4095 < 2 ^ 64"
  shows "unat (addr_to_frame (mem_align_up base 12)) = (unat base + 4095) div 4096"
proof -
  have m: "push_bit 12 1 - 1 = (mask 12 :: u64)"
    by (simp add: mask_eq_exp_minus_1)
  have "unat (base + mask 12) = unat base + 4095"
    using assms by (simp add: unat_add_small unat_mask)
  then show ?thesis
    unfolding mem_align_up_def Let_def m addr_to_frame_def unat_drop_bit unat_and_not_mask by simp
qed

lemma unat_frame_down: "unat (addr_to_frame (mem_align_down x 12)) = unat x div 4096"
proof -
  have m: "push_bit 12 1 - 1 = (mask 12 :: u64)"
    by (simp add: mask_eq_exp_minus_1)
  show ?thesis
    unfolding mem_align_down_def Let_def m addr_to_frame_def unat_drop_bit unat_and_not_mask by simp
qed

lemma whole_frames_upt:
  "whole_frames base len = {(unat base + 4095) div 4096..<(unat base + unat len) div 4096}"
proof -
  have "f \<in> whole_frames base len \<longleftrightarrow> unat base \<le> 4096 * f \<and> 4096 * (f + 1) \<le> unat base + unat len" for f
    by (auto simp: whole_frames_def frame_bytes_def range_of_def)
  moreover have "a \<le> 4096 * f \<longleftrightarrow> (a + 4095) div 4096 \<le> f" for a f :: nat
    by linarith
  moreover have "4096 * (f + 1) \<le> a \<longleftrightarrow> f < a div 4096" for a f :: nat
    by (simp add: Suc_le_eq [symmetric] less_eq_div_iff_mult_less_eq mult.commute)
  ultimately show ?thesis
    by (simp add: set_eq_iff)
qed

lemma map_okD:
  assumes "map_ok s"
  shows "bitmap_ok (frame_map s)" "bm_size (frame_map s) = frames s" "frames s \<le> 2 ^ 24"
  using assms by (auto simp: map_ok_def frames_def bm_size_def)

lemma map_ok_update: "map_ok s \<Longrightarrow> bitmap_ok m \<Longrightarrow> bm_size m = frames s \<Longrightarrow> map_ok (s\<lparr>frame_map := m\<rparr>)"
  by (auto simp: map_ok_def frames_def bm_size_def word_unat_eq_iff)

text \<open>A region is marked without a failed assertion unless it reaches no whole frame exactly.\<close>

definition marks :: "u64 \<Rightarrow> u64 \<Rightarrow> nat \<Rightarrow> bool" where
  "marks base len n \<longleftrightarrow> unat base + unat len + 4095 < 2 ^ 64 \<and>
     ((unat base + 4095) div 4096 < n \<longrightarrow> (unat base + 4095) div 4096 \<noteq> (unat base + unat len) div 4096)"

lemma region_clamp:
  fixes n :: u64
  assumes m: "marks base len (unat n)"
  defines "b \<equiv> addr_to_frame (mem_align_up base 12)"
    and "e \<equiv> addr_to_frame (mem_align_down (base + len) 12)"
  shows "b < n \<Longrightarrow> (if e > n then n else e) \<noteq> b"
    and "b < n \<Longrightarrow> whole_frames base len \<inter> {..<unat n} =
      {unat b..<min (unat (if e > n then n else e)) (unat n)}"
    and "\<not> b < n \<Longrightarrow> whole_frames base len \<inter> {..<unat n} = {}"
proof -
  have b: "unat b = (unat base + 4095) div 4096"
    unfolding b_def using m by (intro unat_frame_up) (simp add: marks_def)
  have "unat (base + len) = unat base + unat len"
    using m by (simp add: marks_def unat_add_small)
  then have e: "unat e = (unat base + unat len) div 4096"
    by (simp add: e_def unat_frame_down)
  have w: "whole_frames base len = {unat b..<unat e}"
    by (simp add: b e whole_frames_upt)
  have ne: "unat b < unat n \<Longrightarrow> unat b \<noteq> unat e"
    unfolding b e using m by (simp add: marks_def)
  show "b < n \<Longrightarrow> (if e > n then n else e) \<noteq> b"
    using ne unfolding word_less_nat_alt by auto
  show "b < n \<Longrightarrow> whole_frames base len \<inter> {..<unat n} =
      {unat b..<min (unat (if e > n then n else e)) (unat n)}"
    unfolding w word_less_nat_alt by auto
  show "\<not> b < n \<Longrightarrow> whole_frames base len \<inter> {..<unat n} = {}"
    unfolding w word_less_nat_alt by auto
qed

lemma whole_frames_empty: "whole_frames base 0 = {}"
  by (auto simp: whole_frames_def frame_bytes_def range_of_def)

lemma mark_region_free_ok:
  assumes ok: "map_ok s" and m: "marks base len (frames s)"
  shows "\<exists>s'. mark_region_free base len s = Some s' \<and> map_ok s' \<and> frames s' = frames s \<and>
    allocated s' = allocated s - (whole_frames base len \<inter> {..<frames s})"
proof -
  let ?b = "addr_to_frame (mem_align_up base 12)"
  let ?e = "addr_to_frame (mem_align_down (base + len) 12)"
  let ?t = "if ?e > total_frames s then total_frames s else ?e"
  note clamp = region_clamp [OF m [unfolded frames_def]]
  show ?thesis
  proof (cases "len = 0 \<or> \<not> ?b < total_frames s")
    case True
    then show ?thesis
      using ok clamp(3) by (auto simp: mark_region_free_def whole_frames_empty Let_def frames_def)
  next
    case False
    then obtain bm where bm: "bitmap_clear_range (frame_map s) ?b (?t - ?b) = Some bm" "bitmap_ok bm"
        "bm_size bm = frames s"
        "bm_members bm = allocated s - {unat ?b..<min (unat ?t) (frames s)}"
      using bitmap_range_to(2) [OF map_okD(1) [OF ok] clamp(1)] map_okD(2) [OF ok]
      by (auto simp: allocated_def)
    have "mark_region_free base len s = Some (s\<lparr>frame_map := bm\<rparr>)"
      using False bm(1) by (simp add: mark_region_free_def Let_def)
    moreover have "bm_members bm = allocated s - (whole_frames base len \<inter> {..<frames s})"
      using False clamp(2) bm(4) by (simp add: frames_def)
    ultimately show ?thesis
      using map_ok_update [OF ok bm(2,3)] by (simp add: allocated_def frames_def)
  qed
qed

lemma mark_region_reserved_ok:
  assumes ok: "map_ok s" and m: "marks base len (frames s)"
  shows "\<exists>s'. mark_region_reserved base len s = Some s' \<and> map_ok s' \<and> frames s' = frames s \<and>
    allocated s' = allocated s \<union> (whole_frames base len \<inter> {..<frames s})"
proof -
  let ?b = "addr_to_frame (mem_align_up base 12)"
  let ?e = "addr_to_frame (mem_align_down (base + len) 12)"
  let ?t = "if ?e > total_frames s then total_frames s else ?e"
  note clamp = region_clamp [OF m [unfolded frames_def]]
  show ?thesis
  proof (cases "len = 0 \<or> \<not> ?b < total_frames s")
    case True
    then show ?thesis
      using ok clamp(3) by (auto simp: mark_region_reserved_def whole_frames_empty Let_def frames_def)
  next
    case False
    then obtain bm where bm: "bitmap_set_range (frame_map s) ?b (?t - ?b) = Some bm" "bitmap_ok bm"
        "bm_size bm = frames s"
        "bm_members bm = allocated s \<union> {unat ?b..<min (unat ?t) (frames s)}"
      using bitmap_range_to(1) [OF map_okD(1) [OF ok] clamp(1)] map_okD(2) [OF ok]
      by (auto simp: allocated_def)
    have "mark_region_reserved base len s = Some (s\<lparr>frame_map := bm\<rparr>)"
      using False bm(1) by (simp add: mark_region_reserved_def Let_def)
    moreover have "bm_members bm = allocated s \<union> (whole_frames base len \<inter> {..<frames s})"
      using False clamp(2) bm(4) by (simp add: frames_def)
    ultimately show ?thesis
      using map_ok_update [OF ok bm(2,3)] by (simp add: allocated_def frames_def)
  qed
qed

subsection \<open>The loops over the memory map\<close>

lemma e820_entry_at:
  assumes "e820_ok e8" "s_e820_initialized e8" "i < unat (s_e820_entry_count e8)"
  shows "e820_get_entry e8 (of_nat i) (Some d) = Some (True, Some (s_e820_entries e8 ! i))"
proof -
  have "unat (of_nat i :: u32) = i"
    using assms(3) unat_less_exp [of "s_e820_entry_count e8"] by (intro unat_of_nat_small) simp
  then show ?thesis
    using assms by (simp add: e820_get_entry_def e820_at_def e820_ok_def word_le_nat_alt)
qed

lemma e820_entries_fold:
  assumes "e820_ok e8" "s_e820_initialized e8"
  shows "fold_opt (\<lambda>i a. do {
      (ok, entry) \<leftarrow> e820_get_entry e8 (of_nat i) (Some d); entry \<leftarrow> entry; g ok entry a })
    [0..<unat (s_e820_entry_count e8)] a = fold_opt (g True) (e820_map e8) a"
proof -
  have "fold_opt (\<lambda>i a. do {
      (ok, entry) \<leftarrow> e820_get_entry e8 (of_nat i) (Some d); entry \<leftarrow> entry; g ok entry a })
    [0..<unat (s_e820_entry_count e8)] a =
    fold_opt (\<lambda>i. g True (s_e820_entries e8 ! i)) [0..<unat (s_e820_entry_count e8)] a"
    by (rule fold_opt_cong) (simp_all add: e820_entry_at [OF assms])
  then show ?thesis
    using assms(1) by (simp add: fold_opt_nth e820_ok_def e820_map_def)
qed

definition usable :: "e820_state \<Rightarrow> e820_entry list" where
  "usable e8 = filter (\<lambda>e. e8_type e = E820_TYPE_USABLE) (e820_map e8)"

definition entry_end :: "e820_entry \<Rightarrow> nat" where
  "entry_end e = unat (e8_base e) + unat (e8_length e)"

text \<open>The end of the usable memory.\<close>

definition top_usable :: "e820_state \<Rightarrow> nat" where
  "top_usable e8 = foldr (\<lambda>e m. max (entry_end e) m) (usable e8) 0"

lemma top_usable_ge: "e \<in> set (usable e8) \<Longrightarrow> entry_end e \<le> top_usable e8"
proof -
  have "e \<in> set es \<Longrightarrow> entry_end e \<le> foldr (\<lambda>e m. max (entry_end e) m) es 0" for es
    by (induction es) auto
  then show "e \<in> set (usable e8) \<Longrightarrow> entry_end e \<le> top_usable e8"
    by (simp add: top_usable_def)
qed

lemma highest_usable_top:
  assumes "e820_ok e8" "s_e820_initialized e8" "entries_ok e8"
  shows "\<exists>r. highest_usable e8 = Some r \<and> unat r = top_usable e8"
proof -
  let ?f = "\<lambda>entry max_addr. let e = e8_base entry + e8_length entry in
    if e8_type entry = E820_TYPE_USABLE \<and> e > max_addr then e else max_addr"
  have eq: "highest_usable e8 = Some (fold ?f (e820_map e8) 0)"
    unfolding highest_usable_def e820_get_entry_count_def e820_entries_fold [OF assms(1,2)]
    by (rule fold_opt_total) simp
  have "unat (fold ?f es a) = fold (\<lambda>e m. max (entry_end e) m) (filter (\<lambda>e. e8_type e = E820_TYPE_USABLE) es) (unat a)"
    if "list_all entry_no_wrap es" for es a
    using that
  proof (induction es arbitrary: a)
    case (Cons e es)
    then have "unat (?f e a) = (if e8_type e = E820_TYPE_USABLE then max (entry_end e) (unat a) else unat a)"
      by (simp add: entry_no_wrap_def unat_range_end entry_end_def word_less_nat_alt Let_def)
    then show ?case
      using Cons by simp
  qed simp
  moreover have "list_all entry_no_wrap (e820_map e8)"
    using assms(3) by (simp add: entries_ok_def list_all_iff)
  moreover have "fold (\<lambda>e m. max (entry_end e) m) xs 0 = foldr (\<lambda>e m. max (entry_end e) m) xs 0" for xs
    by (rule foldr_fold [symmetric, THEN fun_cong]) (auto simp: fun_eq_iff)
  ultimately show ?thesis
    by (simp add: eq top_usable_def usable_def)
qed

lemma free_usable_regions_ok:
  assumes "e820_ok e8" "s_e820_initialized e8" "map_ok s"
    and "list_all (\<lambda>e. marks (e8_base e) (e8_length e) (frames s)) (usable e8)"
  shows "\<exists>s'. free_usable_regions e8 s = Some s' \<and> map_ok s' \<and> frames s' = frames s \<and>
    allocated s' = allocated s - (\<Union>e \<in> set (usable e8). whole_frames (e8_base e) (e8_length e) \<inter> {..<frames s})"
proof -
  let ?g = "\<lambda>entry s. if True \<and> e8_type entry = E820_TYPE_USABLE
    then mark_region_free (e8_base entry) (e8_length entry) s else Some s"
  let ?P = "\<lambda>(es :: e820_entry list) t. map_ok t \<and> frames t = frames s \<and> allocated t = allocated s -
    (\<Union>e \<in> set (filter (\<lambda>e. e8_type e = E820_TYPE_USABLE) es). whole_frames (e8_base e) (e8_length e) \<inter> {..<frames s})"
  have "\<exists>t. fold_opt ?g (e820_map e8) s = Some t \<and> ?P (e820_map e8) t"
  proof (rule fold_opt_rule)
    fix es e t
    assume t: "?P es t" and e: "e \<in> set (e820_map e8)"
    show "\<exists>t'. ?g e t = Some t' \<and> ?P (es @ [e]) t'"
    proof (cases "e8_type e = E820_TYPE_USABLE")
      case True
      then have "marks (e8_base e) (e8_length e) (frames t)"
        using assms(4) e t by (auto simp: usable_def list_all_iff)
      then show ?thesis
        using mark_region_free_ok [of t "e8_base e" "e8_length e"] t True by auto
    next
      case False
      then show ?thesis
        using t by simp
    qed
  qed (use assms(3) in simp)
  then show ?thesis
    unfolding free_usable_regions_def e820_get_entry_count_def e820_entries_fold [OF assms(1,2)] usable_def
    by auto
qed

subsection \<open>The initial state of the allocator\<close>

text \<open>The frames \<open>pframe_init\<close> reserves after it has released the usable regions.\<close>

definition reserved_frames :: "u64 \<Rightarrow> nat set" where
  "reserved_frames storage_addr = {..<272} \<union> whole_frames storage_addr PFRAME_MAX_BITMAP_SIZE"

lemma reserve_chain:
  assumes "map_ok s" "unat storage_addr + 0x201000 < 2 ^ 64"
  shows "\<exists>s'. do {
      s \<leftarrow> mark_region_reserved 0 0x100000 s;
      s \<leftarrow> mark_region_reserved 0x6000 4096 s;
      s \<leftarrow> mark_region_reserved 0x9000 (0xBFFF - 0x9000 + 1) s;
      s \<leftarrow> mark_region_reserved 0x10000 (1 * 1024 * 1024) s;
      s \<leftarrow> mark_region_reserved storage_addr PFRAME_MAX_BITMAP_SIZE s;
      Some (PFRAME_OK, s\<lparr>pf_initialized := True\<rparr>)
    } = Some (PFRAME_OK, s'\<lparr>pf_initialized := True\<rparr>) \<and> map_ok s' \<and> frames s' = frames s \<and>
    allocated s' = allocated s \<union> (reserved_frames storage_addr \<inter> {..<frames s})"
proof -
  have m: "marks 0 0x100000 n" "marks 0x6000 4096 n" "marks 0x9000 (0xBFFF - 0x9000 + 1) n"
    "marks 0x10000 (1 * 1024 * 1024) n" for n
    by (simp_all add: marks_def)
  have ms: "marks storage_addr PFRAME_MAX_BITMAP_SIZE n" for n
    using assms(2) by (auto simp: marks_def PFRAME_MAX_BITMAP_SIZE_def)
  obtain s1 where s1: "mark_region_reserved 0 0x100000 s = Some s1" "map_ok s1" "frames s1 = frames s"
      "allocated s1 = allocated s \<union> ({0..<256} \<inter> {..<frames s})"
    using mark_region_reserved_ok [OF assms(1) m(1)] by (auto simp: whole_frames_upt)
  obtain s2 where s2: "mark_region_reserved 0x6000 4096 s1 = Some s2" "map_ok s2" "frames s2 = frames s"
      "allocated s2 = allocated s1 \<union> ({6..<7} \<inter> {..<frames s})"
    using mark_region_reserved_ok [OF s1(2) m(2)] s1(3) by (auto simp: whole_frames_upt)
  obtain s3 where s3: "mark_region_reserved 0x9000 (0xBFFF - 0x9000 + 1) s2 = Some s3" "map_ok s3"
      "frames s3 = frames s" "allocated s3 = allocated s2 \<union> ({9..<12} \<inter> {..<frames s})"
    using mark_region_reserved_ok [OF s2(2) m(3)] s2(3) by (auto simp: whole_frames_upt)
  obtain s4 where s4: "mark_region_reserved 0x10000 (1 * 1024 * 1024) s3 = Some s4" "map_ok s4"
      "frames s4 = frames s" "allocated s4 = allocated s3 \<union> ({16..<272} \<inter> {..<frames s})"
    using mark_region_reserved_ok [OF s3(2) m(4)] s3(3) by (auto simp: whole_frames_upt)
  obtain s5 where s5: "mark_region_reserved storage_addr PFRAME_MAX_BITMAP_SIZE s4 = Some s5" "map_ok s5"
      "frames s5 = frames s"
      "allocated s5 = allocated s4 \<union> (whole_frames storage_addr PFRAME_MAX_BITMAP_SIZE \<inter> {..<frames s})"
    using mark_region_reserved_ok [OF s4(2) ms] s4(3) by auto
  have "allocated s5 = allocated s \<union> (reserved_frames storage_addr \<inter> {..<frames s})"
    unfolding s5(4) s4(4) s3(4) s2(4) s1(4) reserved_frames_def by auto
  then show ?thesis
    using s1(1) s2(1) s3(1) s4(1) s5 by (intro exI [of _ s5]) simp
qed

lemma unat_total_frames:
  assumes "unat hi div 4096 \<le> 2 ^ 24"
  shows "unat (bytes_to_pages (mem_align_down hi 12)) = unat hi div 4096"
proof -
  have m: "push_bit 12 1 - 1 = (mask 12 :: u64)"
    by (simp add: mask_eq_exp_minus_1)
  have d: "unat (mem_align_down hi 12) = unat hi div 4096 * 4096"
    unfolding mem_align_down_def Let_def m unat_and_not_mask by simp
  then have u: "unat (mem_align_down hi 12 + 4095) = unat hi div 4096 * 4096 + 4095"
    using assms by (subst unat_add_small) simp_all
  have e: "mem_align_down hi 12 + 4096 - 1 = mem_align_down hi 12 + 4095"
    by simp
  show ?thesis
    unfolding bytes_to_pages_def e unat_drop_bit u by simp
qed

lemma pframe_init_map:
  assumes "0 < n" "unat n \<le> 2 ^ 24" "length storage = 0x200000" "total_frames s = n"
  shows "\<exists>m m'. bitmap_init storage n = Some m \<and> bitmap_set_range m 0 n = Some m' \<and>
    map_ok (s\<lparr>frame_map := m'\<rparr>) \<and> frames (s\<lparr>frame_map := m'\<rparr>) = unat n \<and>
    allocated (s\<lparr>frame_map := m'\<rparr>) = {..<unat n}"
proof -
  have bytes: "(unat n + 7) div 8 \<le> length storage"
    using assms(2,3) div_le_mono [of "unat n + 7" 16777223 8] by simp
  obtain m where m: "bitmap_init storage n = Some m" "bitmap_ok m" "bm_size m = unat n" "bm_members m = {}"
    using bitmap_init_ok [of n storage] assms(1-3) bytes by auto
  obtain m' where "bitmap_set_range m 0 n = Some m'" "bitmap_ok m'" "bm_size m' = unat n"
      "bm_members m' = {..<unat n}"
    using bitmap_set_range_ok [OF m(2) assms(1), of 0] m(3,4) assms(2) by (auto simp: atLeast0LessThan)
  then show ?thesis
    using m(1) assms(2,4)
    by (auto simp: map_ok_def frames_def allocated_def bm_size_def word_unat_eq_iff)
qed

text \<open>
  C27: for a map of at most 64 GB of usable memory whose usable entries can be marked,
  \<^verbatim>\<open>pframe_init\<close> succeeds without a failed assertion and leaves the allocator well formed: it
  manages the frames up to the end of the usable memory, and a frame is free exactly when it lies
  completely in a usable entry, its index is at least 272 (the kernel image ends at \<open>0x110000\<close>) and
  it is not one of the frames that lie completely in the bitmap's own storage.
\<close>

theorem pframe_init_free_frames:
  assumes e8: "e820_ok e8" "s_e820_initialized e8" "entries_ok e8"
    and new: "\<not> pf_initialized s"
    and bytes: "bytes_of (\<lambda>t. t = E820_TYPE_USABLE) (e820_map e8) \<noteq> 0"
    and n: "0 < top_usable e8 div 4096" "top_usable e8 div 4096 \<le> 2 ^ 24"
    and marks: "list_all (\<lambda>e. marks (e8_base e) (e8_length e) (top_usable e8 div 4096)) (usable e8)"
    and storage: "length storage = 0x200000" "unat storage_addr + 0x201000 < 2 ^ 64"
  shows "\<exists>s'. pframe_init e8 st0 storage storage_addr s = Some (PFRAME_OK, s') \<and> pframe_ok s' \<and>
    frames s' = top_usable e8 div 4096 \<and>
    allocated s' = {f. f < top_usable e8 div 4096 \<and> (f < 272 \<or>
      frame_bytes f \<subseteq> range_of storage_addr PFRAME_MAX_BITMAP_SIZE \<or>
      \<not> (\<exists>e \<in> set (usable e8). frame_bytes f \<subseteq> entry_range e))}"
proof -
  obtain st where st: "e820_get_stats e8 (Some st0) = Some (Some st)" "ms_usable_bytes st \<noteq> 0"
    using bytes e8(1,2) by (auto simp: e820_get_stats_def e820_loop_fold fold_stats_entry)
  obtain hi where hi: "highest_usable e8 = Some hi" "unat hi = top_usable e8"
    using highest_usable_top [OF e8] by blast
  define a where "a = mem_align_down hi 12"
  define N where "N = bytes_to_pages a"
  define s0 where "s0 = s\<lparr>total_frames := N, managed_base := PFRAME_MIN_ALLOC_BASE, managed_end := a,
      last_alloc_hint := addr_to_frame PFRAME_MIN_ALLOC_BASE, pf_initialized := False\<rparr>"
  have N: "unat N = top_usable e8 div 4096"
    unfolding N_def a_def using unat_total_frames [of hi] hi(2) n(2) by simp
  then have pos: "0 < N"
    using n(1) by (simp add: word_less_nat_alt)
  have fits: "\<not> (N + 7) div 8 > PFRAME_MAX_BITMAP_SIZE"
    using N n(2) unat_add_small [of N 7]
    by (simp add: word_less_nat_alt unat_div PFRAME_MAX_BITMAP_SIZE_def)
  obtain m m' where m: "bitmap_init storage N = Some m" "bitmap_set_range m 0 N = Some m'"
      "map_ok (s0\<lparr>frame_map := m'\<rparr>)" "frames (s0\<lparr>frame_map := m'\<rparr>) = unat N"
      "allocated (s0\<lparr>frame_map := m'\<rparr>) = {..<unat N}"
    using pframe_init_map [OF pos _ storage(1), of s0] N n(2) by (auto simp: s0_def)
  obtain s1 where s1: "free_usable_regions e8 (s0\<lparr>frame_map := m'\<rparr>) = Some s1" "map_ok s1" "frames s1 = unat N"
      "allocated s1 = {..<unat N} - (\<Union>e \<in> set (usable e8). whole_frames (e8_base e) (e8_length e) \<inter> {..<unat N})"
    using free_usable_regions_ok [OF e8(1,2) m(3)] marks m(4,5) N by auto
  obtain s2 where s2: "map_ok s2" "frames s2 = unat N"
      "allocated s2 = allocated s1 \<union> (reserved_frames storage_addr \<inter> {..<unat N})"
      "pframe_init e8 st0 storage storage_addr s = Some (PFRAME_OK, s2\<lparr>pf_initialized := True\<rparr>)"
    using reserve_chain [OF s1(2) storage(2)] s1(1,3) m(1,2) new st hi(1) fits
    by (auto simp: pframe_init_def a_def [symmetric] N_def [symmetric] s0_def Let_def)
  have "allocated s2 = {f. f < unat N \<and> (f < 272 \<or> frame_bytes f \<subseteq> range_of storage_addr PFRAME_MAX_BITMAP_SIZE \<or>
      \<not> (\<exists>e \<in> set (usable e8). frame_bytes f \<subseteq> entry_range e))}"
    unfolding s2(3) s1(4) reserved_frames_def whole_frames_def entry_range_def by blast
  moreover have "pframe_ok (s2\<lparr>pf_initialized := True\<rparr>)"
    using s2(1) by (simp add: map_ok_def pframe_ok_def)
  ultimately show ?thesis
    using s2(2,4) N by (simp add: frames_def allocated_def)
qed

theorem pframe_init_free_frames_witness:
  "\<exists>s'. pframe_init
     \<lparr>s_e820_entries = [\<lparr>e8_base = 0x100000, e8_length = 0x1000000, e8_type = 1, e8_acpi_attrs = 0\<rparr>],
      s_e820_entry_count = 1, s_detect_method = 0, s_e820_initialized = True\<rparr>
     \<lparr>ms_total_bytes = 0, ms_usable_bytes = 0, ms_reserved_bytes = 0, ms_total_mb = 0,
      ms_usable_mb = 0, ms_entry_count = 0\<rparr>
     (replicate 0x200000 0) 0x50000
     \<lparr>frame_map = \<lparr>bm_bits = [], bm_nbits = 0\<rparr>, total_frames = 0, managed_base = 0, managed_end = 0,
      last_alloc_hint = 0, pf_initialized = False\<rparr> = Some (PFRAME_OK, s') \<and> pframe_ok s' \<and> frames s' = 0x1100"
proof -
  let ?e8 = "\<lparr>s_e820_entries = [\<lparr>e8_base = 0x100000, e8_length = 0x1000000, e8_type = 1, e8_acpi_attrs = 0\<rparr>],
      s_e820_entry_count = 1, s_detect_method = 0, s_e820_initialized = True\<rparr> :: e820_state"
  have map: "e820_map ?e8 = [\<lparr>e8_base = 0x100000, e8_length = 0x1000000, e8_type = 1, e8_acpi_attrs = 0\<rparr>]"
    by (simp add: e820_map_def)
  then have us: "usable ?e8 = [\<lparr>e8_base = 0x100000, e8_length = 0x1000000, e8_type = 1, e8_acpi_attrs = 0\<rparr>]"
    by (simp add: usable_def E820_TYPE_USABLE_def)
  have top: "top_usable ?e8 = 0x1100000"
    by (simp add: top_usable_def us entry_end_def)
  have "e820_ok ?e8" "entries_ok ?e8"
    "bytes_of (\<lambda>t. t = E820_TYPE_USABLE) (e820_map ?e8) \<noteq> 0"
    "list_all (\<lambda>e. marks (e8_base e) (e8_length e) (top_usable ?e8 div 4096)) (usable ?e8)"
    by (simp_all add: e820_ok_def entries_ok_def map us top entry_no_wrap_def no_wrap_def bytes_of_def
        E820_TYPE_USABLE_def marks_def)
  then show ?thesis
    using pframe_init_free_frames [of ?e8 "\<lparr>frame_map = \<lparr>bm_bits = [], bm_nbits = 0\<rparr>, total_frames = 0,
        managed_base = 0, managed_end = 0, last_alloc_hint = 0, pf_initialized = False\<rparr>"
        "replicate 0x200000 0" "0x50000" "\<lparr>ms_total_bytes = 0, ms_usable_bytes = 0, ms_reserved_bytes = 0,
        ms_total_mb = 0, ms_usable_mb = 0, ms_entry_count = 0\<rparr>"] top by auto
qed

end
