(* ===== verification/Klist.thy ===== *)
theory Klist
  imports Memory
begin

text \<open>
  The intrusive doubly-linked list (\<open>kernel/list/list.c\<close>, \<open>list.h\<close>).

  The memory is a store of the two links of every node, addressed by the node's address. The
  operations write it in the order of the source's assignments, so aliasing between the arguments
  is the source's. \<open>ring s h xs\<close> says that the circular list of head \<open>h\<close> holds the nodes
  \<open>xs\<close> in this order, each linked both ways; the operations are shown to refine the operations
  on HOL lists.
\<close>

record links =
  nxt :: "addr \<Rightarrow> addr"
  prv :: "addr \<Rightarrow> addr"

text \<open>The assignments \<open>p->next = q\<close> and \<open>p->prev = q\<close>.\<close>

definition set_next :: "addr \<Rightarrow> addr \<Rightarrow> links \<Rightarrow> links" where
  "set_next p q s = s\<lparr>nxt := (nxt s)(p := q)\<rparr>"

definition set_prev :: "addr \<Rightarrow> addr \<Rightarrow> links \<Rightarrow> links" where
  "set_prev p q s = s\<lparr>prv := (prv s)(p := q)\<rparr>"

subsection \<open>Operations\<close>

definition INIT_LIST_HEAD :: "addr \<Rightarrow> links \<Rightarrow> links" where
  "INIT_LIST_HEAD ptr s = set_prev ptr ptr (set_next ptr ptr s)"

definition list_insert_between :: "addr \<Rightarrow> addr \<Rightarrow> addr \<Rightarrow> links \<Rightarrow> links" where
  "list_insert_between new_node prev next s =
     (let s = set_prev next new_node s;
          s = set_next new_node next s;
          s = set_prev new_node prev s
      in set_next prev new_node s)"

definition list_unlink :: "addr \<Rightarrow> addr \<Rightarrow> links \<Rightarrow> links" where
  "list_unlink prev next s = (let s = set_prev next prev s in set_next prev next s)"

definition list_add :: "addr \<Rightarrow> addr \<Rightarrow> links \<Rightarrow> links" where
  "list_add new_node head s = list_insert_between new_node head (nxt s head) s"

definition list_add_tail :: "addr \<Rightarrow> addr \<Rightarrow> links \<Rightarrow> links" where
  "list_add_tail new_node head s = list_insert_between new_node (prv s head) head s"

definition list_del :: "addr \<Rightarrow> links \<Rightarrow> links" where
  "list_del entry s = list_unlink (prv s entry) (nxt s entry) s"

definition list_del_init :: "addr \<Rightarrow> links \<Rightarrow> links" where
  "list_del_init entry s = INIT_LIST_HEAD entry (list_unlink (prv s entry) (nxt s entry) s)"

definition list_replace :: "addr \<Rightarrow> addr \<Rightarrow> links \<Rightarrow> links" where
  "list_replace old_node new_node s =
     (let s = set_next new_node (nxt s old_node) s;
          s = set_prev (nxt s new_node) new_node s;
          s = set_prev new_node (prv s old_node) s
      in set_next (prv s new_node) new_node s)"

definition list_replace_init :: "addr \<Rightarrow> addr \<Rightarrow> links \<Rightarrow> links" where
  "list_replace_init old_node new_node s = INIT_LIST_HEAD old_node (list_replace old_node new_node s)"

definition list_is_empty :: "addr \<Rightarrow> links \<Rightarrow> bool" where
  "list_is_empty head s \<longleftrightarrow> nxt s head = head"

definition list_is_last :: "addr \<Rightarrow> addr \<Rightarrow> links \<Rightarrow> bool" where
  "list_is_last entry head s \<longleftrightarrow> nxt s entry = head"

definition list_is_singular :: "addr \<Rightarrow> links \<Rightarrow> bool" where
  "list_is_singular head s \<longleftrightarrow> \<not> list_is_empty head s \<and> nxt s head = prv s head"

definition list_splice :: "addr \<Rightarrow> addr \<Rightarrow> links \<Rightarrow> links" where
  "list_splice list head s =
     (if \<not> list_is_empty list s then
        let first = nxt s list; last = prv s list; head_next = nxt s head;
            s = set_prev first head s;
            s = set_next head first s;
            s = set_next last head_next s
        in set_prev head_next last s
      else s)"

definition list_splice_tail :: "addr \<Rightarrow> addr \<Rightarrow> links \<Rightarrow> links" where
  "list_splice_tail list head s =
     (if \<not> list_is_empty list s then
        let first = nxt s list; last = prv s list; head_prev = prv s head;
            s = set_prev head last s;
            s = set_next last head s;
            s = set_next head_prev first s
        in set_prev first head_prev s
      else s)"

definition list_splice_init :: "addr \<Rightarrow> addr \<Rightarrow> links \<Rightarrow> links" where
  "list_splice_init list head s =
     (if \<not> list_is_empty list s then
        let first = nxt s list; last = prv s list; head_next = nxt s head;
            s = set_prev first head s;
            s = set_next head first s;
            s = set_next last head_next s;
            s = set_prev head_next last s
        in INIT_LIST_HEAD list s
      else s)"

definition list_cut_position :: "addr \<Rightarrow> addr \<Rightarrow> addr \<Rightarrow> links \<Rightarrow> links" where
  "list_cut_position list head entry s =
     (if list_is_empty head s then INIT_LIST_HEAD list s
      else if list_is_singular head s \<and> (nxt s head \<noteq> entry \<and> head \<noteq> entry) then INIT_LIST_HEAD list s
      else if entry = head then
        let s = set_next list (nxt s head) s;
            s = set_prev list (prv s head) s;
            s = set_prev (nxt s list) list s;
            s = set_next (prv s list) list s
        in INIT_LIST_HEAD head s
      else
        let s = set_next list (nxt s head) s;
            s = set_prev list (prv s entry) s;
            s = set_prev (nxt s list) list s;
            s = set_next (prv s list) list s;
            s = set_next head entry s
        in set_prev entry head s)"

definition list_on_list :: "addr \<Rightarrow> links \<Rightarrow> bool" where
  "list_on_list node s \<longleftrightarrow> nxt s node \<noteq> node \<and> prv s node \<noteq> node"

text \<open>\<open>list_for_each\<close> may not end on a broken list, so not returning is \<open>None\<close>.\<close>

partial_function (option) list_count_from :: "links \<Rightarrow> addr \<Rightarrow> addr \<Rightarrow> u64 \<Rightarrow> u64 option" where
  "list_count_from s head pos count =
     (if pos = head then Some count else list_count_from s head (nxt s pos) (count + 1))"

definition list_count :: "addr \<Rightarrow> links \<Rightarrow> u64 option" where
  "list_count head s = list_count_from s head (nxt s head) 0"

text \<open>\<open>list_first_entry\<close> and \<open>list_last_entry\<close>, up to the offset of the member; \<open>None\<close> is
  \<open>NULL\<close>.\<close>

definition list_first_entry :: "addr \<Rightarrow> links \<Rightarrow> addr option" where
  "list_first_entry ptr s = (if list_is_empty ptr s then None else Some (nxt s ptr))"

definition list_last_entry :: "addr \<Rightarrow> links \<Rightarrow> addr option" where
  "list_last_entry ptr s = (if list_is_empty ptr s then None else Some (prv s ptr))"

lemma link_simps [simp]:
  "nxt (set_next p q s) = (nxt s)(p := q)" "prv (set_next p q s) = prv s"
  "nxt (set_prev p q s) = nxt s" "prv (set_prev p q s) = (prv s)(p := q)"
  by (simp_all add: set_next_def set_prev_def)

subsection \<open>Rings\<close>

text \<open>Consecutive nodes of a path are linked both ways.\<close>

fun linked :: "links \<Rightarrow> addr list \<Rightarrow> bool" where
  "linked s (x # y # zs) \<longleftrightarrow> nxt s x = y \<and> prv s y = x \<and> linked s (y # zs)"
| "linked s _ \<longleftrightarrow> True"

definition ring :: "links \<Rightarrow> addr \<Rightarrow> addr list \<Rightarrow> bool" where
  "ring s h xs \<longleftrightarrow> distinct (h # xs) \<and> linked s (h # xs @ [h])"

lemma linked_append: "linked s (xs @ y # zs) \<longleftrightarrow> linked s (xs @ [y]) \<and> linked s (y # zs)"
  by (induction s xs rule: linked.induct) (cases zs, auto)+

text \<open>A path depends on the \<open>next\<close> of all nodes but the last and the \<open>prev\<close> of all but the
  first.\<close>

lemma linked_cong:
  "(\<And>x. x \<in> set (butlast ps) \<Longrightarrow> nxt s x = nxt t x) \<Longrightarrow> (\<And>x. x \<in> set (tl ps) \<Longrightarrow> prv s x = prv t x) \<Longrightarrow>
   linked s ps \<longleftrightarrow> linked t ps"
  by (induction s ps rule: linked.induct) (auto split: if_splits)

lemma linked_Cons: "linked s (x # ys) \<Longrightarrow> ys \<noteq> [] \<Longrightarrow> nxt s x = hd ys"
  by (cases ys) auto

lemma linked_snoc: "linked s (xs @ [y]) \<Longrightarrow> xs \<noteq> [] \<Longrightarrow> prv s y = last xs"
  by (induction s xs rule: linked.induct) auto

lemma ring_frame:
  "ring s h xs \<Longrightarrow> (\<And>x. x \<in> set (h # xs) \<Longrightarrow> nxt t x = nxt s x \<and> prv t x = prv s x) \<Longrightarrow> ring t h xs"
  unfolding ring_def by (subst linked_cong [of _ t s]) (auto simp: butlast_append)

lemma ring_next: "ring s h xs \<Longrightarrow> nxt s h = hd (xs @ [h])"
  unfolding ring_def using linked_Cons [of s h "xs @ [h]"] by simp

lemma ring_prev: "ring s h xs \<Longrightarrow> prv s h = last (h # xs)"
  unfolding ring_def using linked_snoc [of s "h # xs" h] by simp

lemma linked_snoc_iff:
  "xs \<noteq> [] \<Longrightarrow> linked s (xs @ [y]) \<longleftrightarrow> linked s xs \<and> nxt s (last xs) = y \<and> prv s y = last xs"
  by (induction s xs rule: linked.induct) auto

text \<open>A path \<open>xs\<close> is put between two neighbours of another path.\<close>

lemma path_join:
  assumes "linked s (as @ p # q # bs)" "linked s xs" "xs \<noteq> []" "distinct xs"
    and "set xs \<inter> set (as @ p # q # bs) = {}"
    and "distinct (butlast (as @ p # q # bs))" "distinct (tl (as @ p # q # bs))"
    and nt: "nxt t = (nxt s)(p := hd xs, last xs := q)" and pt: "prv t = (prv s)(hd xs := p, q := last xs)"
  shows "linked t (as @ p # xs @ q # bs)"
proof -
  have d: "p \<notin> set as" "p \<notin> set (butlast (q # bs))" "q \<notin> set bs" "q \<notin> set (tl (as @ [p]))"
    using assms(6,7) by (cases as; auto simp: butlast_append split: if_splits)+
  have x: "hd xs \<in> set xs" "last xs \<in> set xs"
    using assms(3) by simp_all
  have sub: "set (tl (as @ [p])) \<subseteq> set (as @ p # q # bs)" "set (butlast (q # bs)) \<subseteq> set (as @ p # q # bs)"
    by (cases as) (auto dest: in_set_butlastD)
  have A: "linked t (as @ [p]) \<longleftrightarrow> linked s (as @ [p])"
    using d x sub assms(5) by (intro linked_cong) (auto simp: nt pt butlast_append)
  have B: "linked t (q # bs) \<longleftrightarrow> linked s (q # bs)"
    using d x sub assms(5) by (intro linked_cong) (auto simp: nt pt)
  have "last xs \<notin> set (butlast xs)" "hd xs \<notin> set (tl xs)"
    using assms(3,4) by (metis append_butlast_last_id distinct_append disjoint_insert(1) list.simps(15))
      (use assms(3,4) in \<open>cases xs; auto\<close>)
  then have X: "linked t xs \<longleftrightarrow> linked s xs"
    using assms(5) by (intro linked_cong) (auto simp: nt pt dest: in_set_butlastD list.set_sel(2) [OF assms(3)])
  have "p \<noteq> last xs" "q \<noteq> hd xs"
    using x assms(5) by auto
  then have ends: "nxt t p = hd xs" "prv t (hd xs) = p" "nxt t (last xs) = q" "prv t q = last xs"
    using nt pt by auto
  have "linked t (xs @ q # bs)"
    using linked_append [of t xs q bs] linked_snoc_iff [OF assms(3)] X B ends assms(1,2)
      linked_append [of s as p "q # bs"] by simp
  then have "linked t (p # xs @ q # bs)"
    using assms(3) ends by (cases xs) auto
  then show ?thesis
    using A assms(1) linked_append [of s as p "q # bs"] linked_append [of t as p "xs @ q # bs"] by simp
qed

lemma path_unlink:
  assumes "linked s (as @ p # e # q # bs)"
    and "distinct (butlast (as @ p # e # q # bs))" "distinct (tl (as @ p # e # q # bs))"
  shows "linked (list_unlink p q s) (as @ p # q # bs)"
proof -
  let ?t = "list_unlink p q s"
  have t: "nxt ?t = (nxt s)(p := q)" "prv ?t = (prv s)(q := p)"
    by (simp_all add: list_unlink_def Let_def)
  have d: "p \<notin> set as" "p \<notin> set (butlast (q # bs))" "q \<notin> set bs" "q \<notin> set (tl (as @ [p]))"
    using assms(2,3) by (cases as; auto simp: butlast_append split: if_splits)+
  have "linked ?t (as @ [p]) \<longleftrightarrow> linked s (as @ [p])"
    using d by (intro linked_cong) (auto simp: t butlast_append)
  moreover have "linked ?t (q # bs) \<longleftrightarrow> linked s (q # bs)"
    using d by (intro linked_cong) (auto simp: t split: if_splits)
  ultimately show ?thesis
    using assms(1) linked_append [of s as p "e # q # bs"] linked_append [of ?t as p "q # bs"] by (simp add: t)
qed

text \<open>The neighbours of a position of a ring.\<close>

lemma ring_split:
  obtains as bs where "h # xs = as @ [last (h # xs)]" "ys @ [h] = hd (ys @ [h]) # bs"
  using append_butlast_last_id [of "h # xs"] list.exhaust_sel [of "ys @ [h]"]
  by (metis list.distinct(1) snoc_eq_iff_butlast)

lemma ring_join:
  assumes r: "ring s h (ys @ zs)" and xs: "linked s xs" "xs \<noteq> []" "distinct xs" "set xs \<inter> set (h # ys @ zs) = {}"
    and "nxt t = (nxt s)(last (h # ys) := hd xs, last xs := hd (zs @ [h]))"
    and "prv t = (prv s)(hd xs := last (h # ys), hd (zs @ [h]) := last xs)"
  shows "ring t h (ys @ xs @ zs)"
proof -
  obtain as bs where ab: "h # ys = as @ [last (h # ys)]" "zs @ [h] = hd (zs @ [h]) # bs"
    by (rule ring_split)
  let ?p = "last (h # ys)" and ?q = "hd (zs @ [h])"
  have path: "h # (ys @ zs) @ [h] = as @ ?p # ?q # bs"
    using ab by (metis append.assoc append_Cons append_Nil)
  have path': "h # (ys @ xs @ zs) @ [h] = as @ ?p # xs @ ?q # bs"
    using ab by (metis append.assoc append_Cons append_Nil)
  have "distinct (butlast (as @ ?p # ?q # bs))" "distinct (tl (as @ ?p # ?q # bs))"
    "set xs \<inter> set (as @ ?p # ?q # bs) = {}"
    unfolding path [symmetric] using r xs(4) by (auto simp: ring_def butlast_append)
  then have "linked t (as @ ?p # xs @ ?q # bs)"
    using path_join [OF _ xs(1-3) _ _ _ assms(6,7)] r unfolding ring_def path by blast
  then show ?thesis
    using r xs(3,4) unfolding ring_def path' by auto
qed

lemma ring_insert:
  assumes "ring s h (xs @ ys)" "n \<notin> set (h # xs @ ys)"
  shows "ring (list_insert_between n (last (h # xs)) (hd (ys @ [h])) s) h (xs @ n # ys)"
proof -
  have "last (h # xs) \<noteq> n" "hd (ys @ [h]) \<noteq> n"
    using assms(2) by (auto simp: hd_append split: if_splits)
  then have "ring (list_insert_between n (last (h # xs)) (hd (ys @ [h])) s) h (xs @ [n] @ ys)"
    using assms by (intro ring_join [of s]) (auto simp: list_insert_between_def Let_def fun_upd_twist)
  then show ?thesis
    by simp
qed

lemma ring_unlink:
  assumes "ring s h (xs @ e # ys)"
  shows "ring (list_unlink (last (h # xs)) (hd (ys @ [h])) s) h (xs @ ys)"
proof -
  obtain as bs where ab: "h # xs = as @ [last (h # xs)]" "ys @ [h] = hd (ys @ [h]) # bs"
    by (rule ring_split)
  let ?p = "last (h # xs)" and ?q = "hd (ys @ [h])"
  have path: "h # (xs @ e # ys) @ [h] = as @ ?p # e # ?q # bs"
    using ab by (metis append.assoc append_Cons append_Nil)
  have path': "h # (xs @ ys) @ [h] = as @ ?p # ?q # bs"
    using ab by (metis append.assoc append_Cons append_Nil)
  have "distinct (butlast (as @ ?p # e # ?q # bs))" "distinct (tl (as @ ?p # e # ?q # bs))"
    unfolding path [symmetric] using assms by (auto simp: ring_def butlast_append)
  then have "linked (list_unlink ?p ?q s) (as @ ?p # ?q # bs)"
    using path_unlink assms unfolding ring_def path by blast
  then show ?thesis
    using assms unfolding ring_def path' by auto
qed

lemma ring_neighbours:
  assumes "ring s h (xs @ e # ys)"
  shows "prv s e = last (h # xs)" "nxt s e = hd (ys @ [h])"
proof -
  have "linked s ((h # xs) @ e # ys @ [h])"
    using assms by (simp add: ring_def)
  then have "linked s ((h # xs) @ [e])" "linked s (e # ys @ [h])"
    using linked_append [THEN iffD1] by blast+
  then show "prv s e = last (h # xs)" "nxt s e = hd (ys @ [h])"
    using linked_snoc [of s "h # xs" e] linked_Cons [of s e "ys @ [h]"] by auto
qed

subsection \<open>The operations refine operations on lists\<close>

lemma ring_init: "ring (INIT_LIST_HEAD h s) h []"
  by (simp add: ring_def INIT_LIST_HEAD_def)

lemma init_outside:
  "x \<noteq> h \<Longrightarrow> nxt (INIT_LIST_HEAD h s) x = nxt s x \<and> prv (INIT_LIST_HEAD h s) x = prv s x"
  by (simp add: INIT_LIST_HEAD_def)

lemma ring_list_add: "ring s h xs \<Longrightarrow> n \<notin> set (h # xs) \<Longrightarrow> ring (list_add n h s) h (n # xs)"
  using ring_insert [of s h "[]" xs n] by (simp add: list_add_def ring_next)

lemma ring_list_add_tail: "ring s h xs \<Longrightarrow> n \<notin> set (h # xs) \<Longrightarrow> ring (list_add_tail n h s) h (xs @ [n])"
  using ring_insert [of s h xs "[]" n] by (simp add: list_add_tail_def ring_prev)

lemma ring_list_del: "ring s h (xs @ e # ys) \<Longrightarrow> ring (list_del e s) h (xs @ ys)"
  using ring_unlink [of s h xs e ys] ring_neighbours [of s h xs e ys] by (simp add: list_del_def)

lemma ring_list_del_init:
  assumes "ring s h (xs @ e # ys)"
  shows "ring (list_del_init e s) h (xs @ ys)" "ring (list_del_init e s) e []"
proof -
  have "list_del_init e s = INIT_LIST_HEAD e (list_del e s)"
    by (simp add: list_del_init_def list_del_def)
  moreover have "e \<notin> set (h # xs @ ys)"
    using assms by (auto simp: ring_def)
  ultimately show "ring (list_del_init e s) h (xs @ ys)"
    using ring_frame [OF ring_list_del [OF assms], of "list_del_init e s"] init_outside [of _ e]
    by metis
  show "ring (list_del_init e s) e []"
    by (simp add: list_del_init_def ring_init)
qed

lemma ring_list_replace:
  assumes "ring s h (xs @ e # ys)" "n \<notin> set (h # xs @ e # ys)"
  shows "ring (list_replace e n s) h (xs @ n # ys)"
proof -
  let ?p = "last (h # xs)" and ?q = "hd (ys @ [h])"
  have e: "e \<notin> set (h # xs @ ys)" "e \<noteq> ?p" "e \<noteq> ?q" "n \<noteq> ?p" "n \<noteq> ?q"
    using assms by (auto simp: ring_def hd_append split: if_splits)
  have "ring (list_unlink ?p ?q s) h (xs @ ys)"
    by (rule ring_unlink [OF assms(1)])
  then have "ring (list_replace e n s) h (xs @ [n] @ ys)"
  proof (rule ring_join)
    show "nxt (list_replace e n s) = (nxt (list_unlink ?p ?q s))(?p := hd [n], last [n] := ?q)"
      "prv (list_replace e n s) = (prv (list_unlink ?p ?q s))(hd [n] := ?p, ?q := last [n])"
      using ring_neighbours [OF assms(1)] e assms(2)
      by (auto simp: list_replace_def list_unlink_def Let_def fun_eq_iff)
  qed (use assms(2) in auto)
  then show ?thesis
    by simp
qed

lemma ring_interior:
  assumes "ring s l xs" "xs \<noteq> []"
  shows "linked s xs" "distinct xs" "nxt s l = hd xs" "prv s l = last xs" "\<not> list_is_empty l s"
proof -
  have "linked s (l # xs)"
    using assms linked_snoc_iff [of "l # xs" s l] by (simp add: ring_def)
  then show "linked s xs"
    using assms(2) by (cases xs) auto
  show "distinct xs" "nxt s l = hd xs" "prv s l = last xs"
    using assms ring_next [OF assms(1)] ring_prev [OF assms(1)] by (auto simp: ring_def)
  then show "\<not> list_is_empty l s"
    using assms hd_in_set [of xs] by (auto simp: list_is_empty_def ring_def)
qed

lemma empty_ring: "ring s l xs \<Longrightarrow> list_is_empty l s \<longleftrightarrow> xs = []"
  using ring_interior(5) [of s l xs] ring_next [of s l xs] by (cases "xs = []") (auto simp: list_is_empty_def)

lemma ring_splice:
  assumes l: "ring s l xs" and h: "ring s h ys" and dis: "set (l # xs) \<inter> set (h # ys) = {}"
  shows "ring (list_splice l h s) h (xs @ ys)" "ring (list_splice_tail l h s) h (ys @ xs)"
    "ring (list_splice_init l h s) h (xs @ ys)" "ring (list_splice_init l h s) l []"
proof -
  have all: "ring (list_splice l h s) h (xs @ ys) \<and> ring (list_splice_tail l h s) h (ys @ xs) \<and>
      ring (list_splice_init l h s) h (xs @ ys) \<and> ring (list_splice_init l h s) l []"
  proof (cases "xs = []")
    case True
    then show ?thesis
      using l h empty_ring [OF l] by (simp add: list_splice_def list_splice_tail_def list_splice_init_def)
  next
    case False
    note i = ring_interior [OF l False]
    have x: "hd xs \<in> set xs" "last xs \<in> set xs"
      using False by simp_all
    have n: "h \<noteq> last xs" "hd xs \<noteq> hd (ys @ [h])" "last xs \<noteq> last (h # ys)" "hd xs \<noteq> h"
      using x dis by (auto simp: hd_append split: if_splits)
    have 1: "ring (list_splice l h s) h ([] @ xs @ ys)"
      using h i(1,2) False dis n ring_next [OF h]
      by (intro ring_join [of s]) (auto simp: list_splice_def i(3-5) Let_def fun_upd_twist)
    have 2: "ring (list_splice_tail l h s) h (ys @ xs @ [])"
      using h i(1,2) False dis n ring_prev [OF h]
      by (intro ring_join [of s]) (auto simp: list_splice_tail_def i(3-5) Let_def fun_upd_twist)
    have eq: "list_splice_init l h s = INIT_LIST_HEAD l (list_splice l h s)"
      using i(5) by (simp add: list_splice_init_def list_splice_def Let_def)
    have "l \<notin> set (h # xs @ ys)"
      using dis l by (auto simp: ring_def)
    then have "ring (list_splice_init l h s) h (xs @ ys)"
      using ring_frame [of "list_splice l h s" h "xs @ ys" "list_splice_init l h s"] 1 init_outside [of _ l]
      unfolding eq by (metis append_Nil)
    then show ?thesis
      using 1 2 ring_init [of l] by (simp add: eq)
  qed
  then show "ring (list_splice l h s) h (xs @ ys)" "ring (list_splice_tail l h s) h (ys @ xs)"
    "ring (list_splice_init l h s) h (xs @ ys)" "ring (list_splice_init l h s) l []"
    by auto
qed

lemma ring_cut:
  assumes h: "ring s h (xs @ e # ys)" and l: "l \<notin> set (h # xs @ e # ys)" and xs: "xs \<noteq> []"
  shows "ring (list_cut_position l h e s) l xs" "ring (list_cut_position l h e s) h (e # ys)"
proof -
  let ?t = "list_cut_position l h e s"
  have nb: "prv s e = last xs" "nxt s h = hd xs" "prv s h = last (e # ys)"
    using ring_neighbours(1) [OF h] ring_next [OF h] ring_prev [OF h] xs by auto
  have x: "hd xs \<in> set xs" "last xs \<in> set xs"
    using xs by simp_all
  have d: "distinct (h # xs @ e # ys)"
    using h by (simp add: ring_def)
  then have n: "hd xs \<noteq> h" "hd xs \<noteq> e" "last xs \<noteq> h" "last xs \<noteq> e" "hd xs \<noteq> last (e # ys)" "e \<noteq> h"
    "hd xs \<noteq> l" "last xs \<noteq> l" "l \<noteq> h" "l \<noteq> e"
    using x l by auto
  have t: "nxt ?t = (nxt s)(l := hd xs, last xs := l, h := e)" "prv ?t = (prv s)(l := last xs, hd xs := l, e := h)"
    using n nb by (auto simp: list_cut_position_def list_is_empty_def list_is_singular_def Let_def fun_eq_iff)
  have path: "linked s (h # xs @ e # ys @ [h])"
    using h by (simp add: ring_def)
  then have "linked s (h # xs)" "linked s (e # ys @ [h])"
    using linked_append [of s "h # xs" e "ys @ [h]"] linked_snoc_iff [of "h # xs" s e] by auto
  moreover have "linked s xs"
    using \<open>linked s (h # xs)\<close> xs by (cases xs) auto
  moreover have "last xs \<notin> set (butlast xs)" "hd xs \<notin> set (tl xs)"
    using xs d by (metis append_butlast_last_id distinct.simps(2) distinct_append not_distinct_conv_prefix)
      (use xs d in \<open>cases xs; auto\<close>)
  then have "linked ?t xs \<longleftrightarrow> linked s xs"
    using d l by (intro linked_cong) (auto simp: t dest: in_set_butlastD list.set_sel(2) [OF xs])
  moreover have "linked ?t (e # ys @ [h]) \<longleftrightarrow> linked s (e # ys @ [h])"
    using d l x by (intro linked_cong) (auto simp: t butlast_append)
  ultimately have 1: "linked ?t xs" and 2: "linked ?t (e # ys @ [h])"
    by auto
  have "linked ?t (l # xs)"
    using 1 xs n by (cases xs) (auto simp: t)
  then have "linked ?t (l # xs @ [l])"
    using linked_snoc_iff [of "l # xs" ?t l] xs n by (auto simp: t)
  then show "ring ?t l xs"
    using d l by (simp add: ring_def)
  show "ring ?t h (e # ys)"
    using 2 d n by (simp add: ring_def t)
qed

lemma count_path:
  assumes "linked s (xs @ [h])" "h \<notin> set xs"
  shows "list_count_from s h (hd (xs @ [h])) c = Some (c + of_nat (length xs))"
  using assms
proof (induction xs arbitrary: c)
  case Nil
  then show ?case
    by (simp add: list_count_from.simps)
next
  case (Cons x xs)
  then have "nxt s x = hd (xs @ [h])" "linked s (xs @ [h])"
    by (cases xs; simp)+
  then show ?case
    using Cons by (subst list_count_from.simps) (auto simp: algebra_simps)
qed

lemma ring_count: "ring s h xs \<Longrightarrow> list_count h s = Some (of_nat (length xs))"
proof -
  assume r: "ring s h xs"
  then have "linked s (xs @ [h])"
    unfolding ring_def by (cases xs) auto
  then show ?thesis
    using count_path [of s xs h 0] r ring_next [OF r] by (simp add: list_count_def ring_def)
qed



text \<open>
  Splicing a list \<open>xs\<close> into a disjoint list \<open>ys\<close> yields the concatenation at the front
  (\<^verbatim>\<open>list_splice\<close>, \<^verbatim>\<open>list_splice_init\<close>, which also leaves the source empty) or at the end
  (\<^verbatim>\<open>list_splice_tail\<close>), and \<^verbatim>\<open>list_cut_position\<close> undoes it: cutting at \<open>e\<close> moves the
  non-empty part before \<open>e\<close> to the other head.
\<close>

theorem list_splice_cut:
  assumes "ring s l xs" "ring s h (e # ys)" "set (l # xs) \<inter> set (h # e # ys) = {}" "xs \<noteq> []"
  shows "ring (list_splice l h s) h (xs @ e # ys) \<and> ring (list_splice_tail l h s) h (e # ys @ xs) \<and>
    ring (list_splice_init l h s) h (xs @ e # ys) \<and> ring (list_splice_init l h s) l [] \<and>
    (let t = list_cut_position l h e (list_splice_init l h s) in ring t l xs \<and> ring t h (e # ys))"
proof -
  note sp = ring_splice [OF assms(1-3)]
  have "l \<notin> set (h # xs @ e # ys)"
    using assms(1,3) by (auto simp: ring_def)
  then show ?thesis
    using sp ring_cut [OF sp(3) _ assms(4)] by (simp add: Let_def)
qed

theorem list_splice_cut_witness:
  "ring (list_splice 3 1 \<lparr>nxt = (\<lambda>_. 0)(1 := 2, 2 := 1, 3 := 4, 4 := 3), prv = (\<lambda>_. 0)(1 := 2, 2 := 1, 3 := 4, 4 := 3)\<rparr>)
     1 [4, 2]"
  using list_splice_cut [of "\<lparr>nxt = (\<lambda>_. 0)(1 := 2, 2 := 1, 3 := 4, 4 := 3), prv = (\<lambda>_. 0)(1 := 2, 2 := 1, 3 := 4, 4 := 3)\<rparr>"
      3 "[4]" 1 2 "[]"]
  by (simp add: ring_def)

text \<open>
  Cutting in front of the first node, where the part to move is empty, breaks the destination:
  \<^verbatim>\<open>list_cut_position\<close> leaves the source list as it was, but \<open>list\<close> does not become empty, it
  points into the source list.
\<close>

theorem list_cut_first_not_empty:
  assumes "ring s h (e # ys)" "l \<notin> set (h # e # ys)"
  shows "ring (list_cut_position l h e s) h (e # ys) \<and> \<not> list_is_empty l (list_cut_position l h e s) \<and>
    nxt (list_cut_position l h e s) l = e"
proof -
  let ?t = "list_cut_position l h e s"
  have nb: "nxt s h = e" "prv s e = h"
    using ring_next [OF assms(1)] ring_neighbours(1) [of s h "[]" e ys] assms(1) by auto
  have d: "e \<noteq> h" "l \<noteq> h" "l \<noteq> e"
    using assms by (auto simp: ring_def)
  have t: "nxt ?t = (nxt s)(l := e)" "prv ?t = (prv s)(l := h)"
    using d nb by (auto simp: list_cut_position_def list_is_empty_def list_is_singular_def Let_def fun_eq_iff)
  have "ring ?t h (e # ys)"
    using assms by (intro ring_frame [OF assms(1)]) (auto simp: t)
  then show ?thesis
    using d by (simp add: t list_is_empty_def)
qed

theorem list_cut_first_not_empty_witness:
  "\<not> list_is_empty 3 (list_cut_position 3 1 2 \<lparr>nxt = (\<lambda>_. 0)(1 := 2, 2 := 1), prv = (\<lambda>_. 0)(1 := 2, 2 := 1)\<rparr>)"
  using list_cut_first_not_empty [of "\<lparr>nxt = (\<lambda>_. 0)(1 := 2, 2 := 1), prv = (\<lambda>_. 0)(1 := 2, 2 := 1)\<rparr>" 1 2 "[]" 3]
  by (simp add: ring_def)

end
