(* ===== verification/Sched.thy ===== *)
theory Sched
  imports Klist
begin

text \<open>
  The scheduler: the class framework (\<open>kernel/process/sched.c\<close>), the round-robin class
  (\<open>sched_rr.c\<close>), the priority class (\<open>sched_prio.c\<close>) and \<open>schedule()\<close> of \<open>process.c\<close>.

  A run queue is the list of the addresses of the process control blocks on it, in order: the
  value \<open>xs\<close> of \<open>ring s h xs\<close> in \<open>Klist\<close>, where the pointer operations are shown to compute
  the list operations used here. A class is the value of a datatype instead of a pointer to a table
  of functions, and the calls through the table are case distinctions on it. \<open>NULL\<close> is
  \<open>None\<close>. The operations run under \<open>g_scheduler_lock\<close>.
\<close>

subsection \<open>Data\<close>

datatype sched_policy = SCHED_NORMAL | SCHED_PRIORITY | SCHED_MAX

datatype sched_class = RR_CLASS | PRIO_CLASS

datatype process_state = PROC_READY | PROC_RUNNING | PROC_BLOCKED | PROC_ZOMBIE

record sched_entity =
  policy :: sched_policy
  se_class :: "sched_class option"
  time_slice :: u32
  time_slice_total :: u32
  priority :: int
  nice :: int
  last_ran :: u64

record memory_context =
  pml4_phys :: u64
  brk :: u64
  stack_start :: u64

text \<open>
  A process control block without its list nodes: the nodes \<open>run_list\<close>, \<open>siblings\<close> and
  \<open>thread_group\<close> are members of the queues, of the parent's \<open>children\<close> and of its
  \<open>thread_list\<close>; \<open>zombie_children\<close>, which is a head and a node at once, is kept as a pair of
  links by the process model. A pointer to a separately allocated object is its address, 0 for
  \<open>NULL\<close>.
\<close>

record pcb =
  pid :: int
  ppid :: int
  state :: process_state
  exit_code :: int
  children :: "addr list"
  se :: sched_entity
  mm :: memory_context
  cpu_ctx :: addr
  trap_frame :: addr
  kernel_stack :: addr
  kernel_stack_base :: addr
  is_user_mode :: bool
  user_stack :: addr
  user_stack_size :: u64
  parent :: "addr option"
  start_time :: u64
  comm :: "u8 list"
  tgid :: int
  is_thread :: bool
  thread_list :: "addr list"
  mm_refcount :: u32
  join_waiters :: addr
  detached :: bool
  return_value :: addr
  thread_entry :: addr
  thread_arg :: addr

text \<open>All bytes zero, as \<open>memset\<close> leaves it.\<close>

definition zero_pcb :: pcb where
  "zero_pcb =
     \<lparr>pid = 0, ppid = 0, state = PROC_READY, exit_code = 0, children = [],
      se = \<lparr>policy = SCHED_NORMAL, se_class = None, time_slice = 0, time_slice_total = 0,
            priority = 0, nice = 0, last_ran = 0\<rparr>,
      mm = \<lparr>pml4_phys = 0, brk = 0, stack_start = 0\<rparr>,
      cpu_ctx = 0, trap_frame = 0, kernel_stack = 0, kernel_stack_base = 0,
      is_user_mode = False, user_stack = 0, user_stack_size = 0, parent = None, start_time = 0,
      comm = replicate 16 0, tgid = 0, is_thread = False, thread_list = [], mm_refcount = 0,
      join_waiters = 0, detached = False, return_value = 0, thread_entry = 0, thread_arg = 0\<rparr>"

record prio_rq_data =
  active :: "addr list list"
  expired :: "addr list list"
  nr_active :: u32
  nr_expired :: u32
  highest_prio :: int
  active_expired :: bool

record sched_rq =
  rq_class :: "sched_class option"
  queue :: "addr list"
  nr_running :: u32
  class_data :: "prio_rq_data option"

text \<open>The global \<open>scheduler\<close>, the static arrays of \<open>sched.c\<close> and the process control
  blocks.\<close>

record scheduler =
  run_queue :: "addr list"
  current :: "addr option"
  idle :: "addr option"
  sys_nr_running :: u32
  need_resched :: bool
  rqs :: "sched_policy \<Rightarrow> sched_rq"
  classes :: "sched_policy \<Rightarrow> sched_class option"
  pcbs :: "addr \<Rightarrow> pcb"

abbreviation slice :: "scheduler \<Rightarrow> addr \<Rightarrow> u32" where
  "slice s p \<equiv> time_slice (se (pcbs s p))"

definition upd_se :: "addr \<Rightarrow> (sched_entity \<Rightarrow> sched_entity) \<Rightarrow> scheduler \<Rightarrow> scheduler" where
  "upd_se p f s = s\<lparr>pcbs := (pcbs s)(p := (pcbs s p)\<lparr>se := f (se (pcbs s p))\<rparr>)\<rparr>"

definition set_state :: "addr \<Rightarrow> process_state \<Rightarrow> scheduler \<Rightarrow> scheduler" where
  "set_state p st s = s\<lparr>pcbs := (pcbs s)(p := (pcbs s p)\<lparr>state := st\<rparr>)\<rparr>"

text \<open>The list operations on queue values.\<close>

definition q_add :: "addr \<Rightarrow> addr list \<Rightarrow> addr list" where
  "q_add p q = p # q"

definition q_add_tail :: "addr \<Rightarrow> addr list \<Rightarrow> addr list" where
  "q_add_tail p q = q @ [p]"

definition q_del :: "addr \<Rightarrow> addr list \<Rightarrow> addr list" where
  "q_del p q = filter (\<lambda>x. x \<noteq> p) q"

definition q_first :: "addr list \<Rightarrow> addr option" where
  "q_first q = (case q of [] \<Rightarrow> None | x # _ \<Rightarrow> Some x)"

subsection \<open>The round-robin class\<close>

definition RR_TIMESLICE_DEFAULT :: u32 where "RR_TIMESLICE_DEFAULT = 10"

definition rr_enqueue_task :: "addr \<Rightarrow> bool \<Rightarrow> sched_rq \<Rightarrow> sched_rq" where
  "rr_enqueue_task p at_head rq =
     (let rq = (if at_head then rq\<lparr>queue := q_add p (queue rq)\<rparr> else rq\<lparr>queue := q_add_tail p (queue rq)\<rparr>)
      in rq\<lparr>nr_running := nr_running rq + 1\<rparr>)"

definition rr_dequeue_task :: "addr \<Rightarrow> sched_rq \<Rightarrow> sched_rq" where
  "rr_dequeue_task p rq = rq\<lparr>queue := q_del p (queue rq), nr_running := nr_running rq - 1\<rparr>"

definition rr_pick_next_task :: "sched_rq \<Rightarrow> addr option" where
  "rr_pick_next_task rq = (if queue rq = [] then None else q_first (queue rq))"

definition rr_should_preempt :: "sched_entity \<Rightarrow> sched_entity \<Rightarrow> bool" where
  "rr_should_preempt p cur \<longleftrightarrow> time_slice cur = 0"

definition rr_task_tick :: "sched_entity \<Rightarrow> sched_entity" where
  "rr_task_tick e = (if time_slice e > 0 then e\<lparr>time_slice := time_slice e - 1\<rparr> else e)"

definition rr_task_fork :: "int \<Rightarrow> sched_entity \<Rightarrow> sched_entity" where
  "rr_task_fork n e =
     e\<lparr>se_class := Some RR_CLASS, policy := SCHED_NORMAL, priority := 0,
       time_slice := RR_TIMESLICE_DEFAULT, time_slice_total := RR_TIMESLICE_DEFAULT, nice := 0\<rparr>"

definition rr_get_time_slice :: "sched_entity \<Rightarrow> u32" where
  "rr_get_time_slice e = RR_TIMESLICE_DEFAULT"

subsection \<open>The priority class\<close>

definition PRIO_MAX :: int where "PRIO_MAX = 0"
definition PRIO_MIN :: int where "PRIO_MIN = 127"
definition PRIO_DEFAULT :: int where "PRIO_DEFAULT = 64"
definition PRIO_LEVELS :: nat where "PRIO_LEVELS = 128"

lemmas prio_consts = PRIO_MAX_def PRIO_MIN_def PRIO_DEFAULT_def PRIO_LEVELS_def

definition PRIO_TIMESLICE :: "int \<Rightarrow> u32" where
  "PRIO_TIMESLICE p = (if p = 0 then 100 else if p < 64 then 50 else 20)"

definition find_highest_prio :: "prio_rq_data \<Rightarrow> int" where
  "find_highest_prio d =
     (case find (\<lambda>i. active d ! i \<noteq> []) [0..<PRIO_LEVELS] of Some i \<Rightarrow> int i | None \<Rightarrow> PRIO_MIN)"

text \<open>\<open>list_splice_init\<close>: the source becomes empty, its nodes come first in the destination.\<close>

definition swap_level :: "nat \<Rightarrow> prio_rq_data \<Rightarrow> prio_rq_data" where
  "swap_level i d =
     (let temp = [];
          temp = active d ! i @ temp;
          d = d\<lparr>active := (active d)[i := []]\<rparr>;
          d = d\<lparr>active := (active d)[i := expired d ! i @ active d ! i], expired := (expired d)[i := []]\<rparr>
      in d\<lparr>expired := (expired d)[i := temp @ expired d ! i]\<rparr>)"

definition prio_swap_active_expired :: "prio_rq_data \<Rightarrow> prio_rq_data" where
  "prio_swap_active_expired d =
     (let d = fold swap_level [0..<PRIO_LEVELS] d;
          temp_count = nr_active d;
          d = d\<lparr>nr_active := nr_expired d\<rparr>;
          d = d\<lparr>nr_expired := temp_count\<rparr>;
          d = d\<lparr>highest_prio := find_highest_prio d\<rparr>
      in d\<lparr>active_expired := False\<rparr>)"

definition clamp_prio :: "int \<Rightarrow> int" where
  "clamp_prio prio = (if prio < PRIO_MAX then PRIO_MAX else if prio > PRIO_MIN then PRIO_MIN else prio)"

definition prio_enqueue_task :: "addr \<Rightarrow> sched_entity \<Rightarrow> bool \<Rightarrow> sched_rq \<times> prio_rq_data \<Rightarrow> sched_rq \<times> prio_rq_data"
  where
  "prio_enqueue_task p e at_head = (\<lambda>(rq, d).
     let prio = clamp_prio (priority e);
         i = nat prio;
         to_expired = (time_slice e = 0);
         d = (if to_expired then
                let d = (if at_head then d\<lparr>expired := (expired d)[i := q_add p (expired d ! i)]\<rparr>
                         else d\<lparr>expired := (expired d)[i := q_add_tail p (expired d ! i)]\<rparr>)
                in d\<lparr>nr_expired := nr_expired d + 1\<rparr>
              else
                let d = (if at_head then d\<lparr>active := (active d)[i := q_add p (active d ! i)]\<rparr>
                         else d\<lparr>active := (active d)[i := q_add_tail p (active d ! i)]\<rparr>);
                    d = d\<lparr>nr_active := nr_active d + 1\<rparr>
                in if prio < highest_prio d then d\<lparr>highest_prio := prio\<rparr> else d)
     in (rq\<lparr>nr_running := nr_running rq + 1\<rparr>, d))"

definition prio_dequeue_task :: "addr \<Rightarrow> sched_entity \<Rightarrow> sched_rq \<times> prio_rq_data \<Rightarrow> sched_rq \<times> prio_rq_data" where
  "prio_dequeue_task p e = (\<lambda>(rq, d).
     let d = d\<lparr>active := map (q_del p) (active d), expired := map (q_del p) (expired d)\<rparr>;
         d = (if time_slice e = 0 \<and> nr_expired d > 0 then d\<lparr>nr_expired := nr_expired d - 1\<rparr>
              else if nr_active d > 0 then d\<lparr>nr_active := nr_active d - 1\<rparr> else d);
         rq = rq\<lparr>nr_running := nr_running rq - 1\<rparr>
     in (rq, d\<lparr>highest_prio := find_highest_prio d\<rparr>))"

definition prio_pick_next_task :: "prio_rq_data \<Rightarrow> addr option \<times> prio_rq_data" where
  "prio_pick_next_task d =
     (if nr_active d = 0 \<and> \<not> nr_expired d > 0 then (None, d)
      else
        let d = (if nr_active d = 0 then prio_swap_active_expired d else d);
            highest = find_highest_prio d
        in if highest \<ge> int PRIO_LEVELS then (None, d)
           else (q_first (active d ! nat highest), d))"

definition prio_should_preempt :: "sched_entity \<Rightarrow> sched_entity \<Rightarrow> bool" where
  "prio_should_preempt p cur =
     (if priority p < priority cur then True
      else if priority p = priority cur then time_slice cur = 0
      else False)"

definition prio_task_tick :: "sched_entity \<Rightarrow> sched_entity" where
  "prio_task_tick e = (if time_slice e > 0 then e\<lparr>time_slice := time_slice e - 1\<rparr> else e)"

definition prio_task_fork :: "int \<Rightarrow> sched_entity \<Rightarrow> sched_entity" where
  "prio_task_fork n e =
     (let e = e\<lparr>se_class := Some PRIO_CLASS, policy := SCHED_PRIORITY\<rparr>;
          e = (if n < 0 then
                 let e = e\<lparr>priority := PRIO_DEFAULT + n\<rparr>
                 in if priority e < PRIO_MAX then e\<lparr>priority := PRIO_MAX\<rparr> else e
               else e\<lparr>priority := PRIO_DEFAULT\<rparr>);
          e = (if priority e < PRIO_MAX then e\<lparr>priority := PRIO_MAX\<rparr>
               else if priority e > PRIO_MIN then e\<lparr>priority := PRIO_MIN\<rparr> else e);
          e = e\<lparr>time_slice := PRIO_TIMESLICE (priority e)\<rparr>;
          e = e\<lparr>time_slice_total := time_slice e\<rparr>
      in e\<lparr>nice := n\<rparr>)"

definition prio_get_time_slice :: "sched_entity \<Rightarrow> u32" where
  "prio_get_time_slice e = PRIO_TIMESLICE (priority e)"

subsection \<open>Calls through the class table\<close>

text \<open>The access \<open>scheduler.rq[policy]\<close> of an array of \<open>SCHED_MAX\<close> elements.\<close>

definition get_rq :: "scheduler \<Rightarrow> sched_policy \<Rightarrow> sched_rq option" where
  "get_rq s pol = (if pol = SCHED_MAX then None else Some (rqs s pol))"

definition put_rq :: "sched_policy \<Rightarrow> sched_rq \<Rightarrow> scheduler \<Rightarrow> scheduler" where
  "put_rq pol rq s = s\<lparr>rqs := (rqs s)(pol := rq)\<rparr>"

text \<open>An operation of the priority class dereferences \<open>rq->class_data\<close>.\<close>

definition with_prio_data :: "(sched_rq \<times> prio_rq_data \<Rightarrow> sched_rq \<times> prio_rq_data) \<Rightarrow> sched_rq \<Rightarrow> sched_rq option" where
  "with_prio_data f rq =
     map_option (\<lambda>d. let (rq, d) = f (rq, d) in rq\<lparr>class_data := Some d\<rparr>) (class_data rq)"

definition class_enqueue :: "sched_class \<Rightarrow> addr \<Rightarrow> sched_entity \<Rightarrow> bool \<Rightarrow> sched_rq \<Rightarrow> sched_rq option" where
  "class_enqueue c p e at_head rq =
     (case c of RR_CLASS \<Rightarrow> Some (rr_enqueue_task p at_head rq)
      | PRIO_CLASS \<Rightarrow> with_prio_data (prio_enqueue_task p e at_head) rq)"

definition class_dequeue :: "sched_class \<Rightarrow> addr \<Rightarrow> sched_entity \<Rightarrow> sched_rq \<Rightarrow> sched_rq option" where
  "class_dequeue c p e rq =
     (case c of RR_CLASS \<Rightarrow> Some (rr_dequeue_task p rq)
      | PRIO_CLASS \<Rightarrow> with_prio_data (prio_dequeue_task p e) rq)"

definition class_pick_next :: "sched_class \<Rightarrow> sched_rq \<Rightarrow> (addr option \<times> sched_rq) option" where
  "class_pick_next c rq =
     (case c of RR_CLASS \<Rightarrow> Some (rr_pick_next_task rq, rq)
      | PRIO_CLASS \<Rightarrow> map_option (\<lambda>d. let (r, d) = prio_pick_next_task d in (r, rq\<lparr>class_data := Some d\<rparr>)) (class_data rq))"

definition class_should_preempt :: "sched_class \<Rightarrow> sched_entity \<Rightarrow> sched_entity \<Rightarrow> bool" where
  "class_should_preempt c p cur =
     (case c of RR_CLASS \<Rightarrow> rr_should_preempt p cur | PRIO_CLASS \<Rightarrow> prio_should_preempt p cur)"

definition class_task_tick :: "sched_class \<Rightarrow> sched_entity \<Rightarrow> sched_entity" where
  "class_task_tick c e = (case c of RR_CLASS \<Rightarrow> rr_task_tick e | PRIO_CLASS \<Rightarrow> prio_task_tick e)"

definition class_task_fork :: "sched_class \<Rightarrow> int \<Rightarrow> sched_entity \<Rightarrow> sched_entity" where
  "class_task_fork c n e = (case c of RR_CLASS \<Rightarrow> rr_task_fork n e | PRIO_CLASS \<Rightarrow> prio_task_fork n e)"

definition class_get_time_slice :: "sched_class \<Rightarrow> sched_entity \<Rightarrow> u32" where
  "class_get_time_slice c e =
     (case c of RR_CLASS \<Rightarrow> rr_get_time_slice e | PRIO_CLASS \<Rightarrow> prio_get_time_slice e)"

subsection \<open>The class framework\<close>

definition sched_timer_tick_handler :: "scheduler \<Rightarrow> scheduler" where
  "sched_timer_tick_handler s =
     (case current s of None \<Rightarrow> s
      | Some p \<Rightarrow> (case se_class (se (pcbs s p)) of None \<Rightarrow> s | Some c \<Rightarrow> upd_se p (class_task_tick c) s))"

definition sched_init_time_slice :: "addr option \<Rightarrow> scheduler \<Rightarrow> scheduler" where
  "sched_init_time_slice pcb s =
     (case pcb of None \<Rightarrow> s
      | Some p \<Rightarrow> (case se_class (se (pcbs s p)) of None \<Rightarrow> s
        | Some c \<Rightarrow> let sl = class_get_time_slice c (se (pcbs s p)) in
            upd_se p (\<lambda>e. e\<lparr>time_slice := sl, time_slice_total := sl\<rparr>) s))"

definition sched_reset_time_slice :: "addr option \<Rightarrow> scheduler \<Rightarrow> scheduler" where
  "sched_reset_time_slice pcb s =
     (case pcb of None \<Rightarrow> s
      | Some p \<Rightarrow> (case se_class (se (pcbs s p)) of None \<Rightarrow> s
        | Some c \<Rightarrow> upd_se p (\<lambda>e. e\<lparr>time_slice := time_slice_total e\<rparr>) s))"

definition empty_rq :: sched_rq where
  "empty_rq = \<lparr>rq_class = None, queue = [], nr_running = 0, class_data = None\<rparr>"

definition sched_class_init :: "scheduler \<Rightarrow> int \<times> scheduler" where
  "sched_class_init s = (0, s\<lparr>rqs := \<lambda>_. empty_rq, classes := \<lambda>_. None, run_queue := []\<rparr>)"

definition sched_class_register :: "sched_class option \<Rightarrow> sched_policy \<Rightarrow> scheduler \<Rightarrow> int \<times> scheduler" where
  "sched_class_register cls pol s =
     (case cls of None \<Rightarrow> (- 1, s)
      | Some c \<Rightarrow>
        if pol = SCHED_MAX then (- 1, s)
        else if classes s pol \<noteq> None then (- 1, s)
        else (0, s\<lparr>classes := (classes s)(pol := Some c),
                  rqs := (rqs s)(pol := (rqs s pol)\<lparr>rq_class := Some c\<rparr>)\<rparr>))"

definition sched_rr_init :: "scheduler \<Rightarrow> int \<times> scheduler" where
  "sched_rr_init s = sched_class_register (Some RR_CLASS) SCHED_NORMAL s"

definition empty_prio_data :: prio_rq_data where
  "empty_prio_data =
     \<lparr>active = replicate PRIO_LEVELS [], expired = replicate PRIO_LEVELS [], nr_active = 0, nr_expired = 0,
      highest_prio = PRIO_MIN, active_expired = False\<rparr>"

text \<open>The argument says whether \<open>kmalloc\<close> returned memory for the class data.\<close>

definition sched_prio_init :: "bool \<Rightarrow> scheduler \<Rightarrow> int \<times> scheduler" where
  "sched_prio_init kmalloc_ok s =
     (if \<not> kmalloc_ok then (- 1, s)
      else
        let s = put_rq SCHED_PRIORITY ((rqs s SCHED_PRIORITY)\<lparr>class_data := Some empty_prio_data\<rparr>) s
        in sched_class_register (Some PRIO_CLASS) SCHED_PRIORITY s)"

definition sched_enqueue_task :: "addr option \<Rightarrow> bool \<Rightarrow> scheduler \<Rightarrow> scheduler option" where
  "sched_enqueue_task pcb at_head s =
     (case pcb of None \<Rightarrow> Some s
      | Some p \<Rightarrow> (case se_class (se (pcbs s p)) of None \<Rightarrow> Some s
        | Some c \<Rightarrow>
          let pol = policy (se (pcbs s p)) in do {
            rq \<leftarrow> get_rq s pol;
            rq \<leftarrow> class_enqueue c p (se (pcbs s p)) at_head rq;
            let s = put_rq pol rq s;
            let s = s\<lparr>sys_nr_running := sys_nr_running s + 1\<rparr>;
            Some (s\<lparr>run_queue := q_add_tail p (run_queue s)\<rparr>)
          }))"

definition sched_dequeue_task :: "addr option \<Rightarrow> scheduler \<Rightarrow> scheduler option" where
  "sched_dequeue_task pcb s =
     (case pcb of None \<Rightarrow> Some s
      | Some p \<Rightarrow> (case se_class (se (pcbs s p)) of None \<Rightarrow> Some s
        | Some c \<Rightarrow>
          let pol = policy (se (pcbs s p)) in do {
            rq \<leftarrow> get_rq s pol;
            rq \<leftarrow> class_dequeue c p (se (pcbs s p)) rq;
            let s = put_rq pol rq s;
            let s = (if sys_nr_running s > 0 then s\<lparr>sys_nr_running := sys_nr_running s - 1\<rparr> else s);
            Some (s\<lparr>run_queue := q_del p (run_queue s)\<rparr>)
          }))"

text \<open>Picking a task changes the state, because the priority class may swap its arrays.\<close>

definition pick_from :: "sched_policy \<Rightarrow> scheduler \<Rightarrow> (addr option \<times> scheduler) option" where
  "pick_from pol s =
     (let rq = rqs s pol in
      case rq_class rq of None \<Rightarrow> Some (None, s)
      | Some c \<Rightarrow>
        if nr_running rq > 0
        then map_option (\<lambda>(r, rq). (r, put_rq pol rq s)) (class_pick_next c rq)
        else Some (None, s))"

definition sched_pick_next_task :: "scheduler \<Rightarrow> (addr option \<times> scheduler) option" where
  "sched_pick_next_task s =
     (case current s of
        Some prev \<Rightarrow>
          if state (pcbs s prev) = PROC_RUNNING \<and> slice s prev > 0 then do {
            (t, s) \<leftarrow> pick_from SCHED_PRIORITY s;
            case t of None \<Rightarrow> Some (Some prev, s)
            | Some t \<Rightarrow> do {
                c \<leftarrow> se_class (se (pcbs s t));
                Some (if class_should_preempt c (se (pcbs s t)) (se (pcbs s prev)) then Some t else Some prev, s)
              }
          }
          else do {
            (t, s) \<leftarrow> pick_from SCHED_PRIORITY s;
            if t \<noteq> None then Some (t, s) else pick_from SCHED_NORMAL s
          }
      | None \<Rightarrow> do {
          (t, s) \<leftarrow> pick_from SCHED_PRIORITY s;
          if t \<noteq> None then Some (t, s) else pick_from SCHED_NORMAL s
        })"

definition sched_needs_reschedule :: "scheduler \<Rightarrow> bool" where
  "sched_needs_reschedule s = need_resched s"

definition sched_set_resched :: "scheduler \<Rightarrow> scheduler" where
  "sched_set_resched s = s\<lparr>need_resched := True\<rparr>"

definition sched_clear_resched :: "scheduler \<Rightarrow> scheduler" where
  "sched_clear_resched s = s\<lparr>need_resched := False\<rparr>"

definition sched_set_policy :: "addr option \<Rightarrow> sched_policy \<Rightarrow> int \<Rightarrow> scheduler \<Rightarrow> int \<times> scheduler" where
  "sched_set_policy pcb pol prio s =
     (case pcb of None \<Rightarrow> (- 1, s)
      | Some p \<Rightarrow>
        if pol = SCHED_MAX then (- 1, s)
        else case classes s pol of None \<Rightarrow> (- 1, s)
        | Some c \<Rightarrow> (0, upd_se p (\<lambda>e. class_task_fork c prio (e\<lparr>policy := pol, se_class := Some c\<rparr>)) s))"

definition sched_get_policy :: "addr option \<Rightarrow> scheduler \<Rightarrow> sched_policy" where
  "sched_get_policy pcb s = (case pcb of None \<Rightarrow> SCHED_NORMAL | Some p \<Rightarrow> policy (se (pcbs s p)))"

text \<open>
  \<open>schedule()\<close> up to the context switch; the result says which task the processor switches to,
  \<open>None\<close> when there is no switch.
\<close>

definition schedule :: "scheduler \<Rightarrow> (addr option \<times> scheduler) option" where
  "schedule s = do {
     let prev = current s;
     let s = sched_clear_resched s;
     (next, s) \<leftarrow> sched_pick_next_task s;
     case (if next = None then idle s else next) of
       None \<Rightarrow> Some (None, s)
     | Some next \<Rightarrow>
         if Some next = prev then Some (None, s)
         else do {
           s \<leftarrow> (case prev of
               Some p \<Rightarrow>
                 if Some p \<noteq> idle s then
                   let s = (if state (pcbs s p) = PROC_RUNNING then set_state p PROC_READY s else s)
                   in if state (pcbs s p) = PROC_READY then sched_enqueue_task (Some p) False s else Some s
                 else Some s
             | None \<Rightarrow> Some s);
           s \<leftarrow> (if Some next \<noteq> idle s then sched_dequeue_task (Some next) s else Some s);
           let s = set_state next PROC_RUNNING s;
           let s = s\<lparr>current := Some next\<rparr>;
           let s = sched_reset_time_slice (Some next) s;
           Some (Some next, s)
         }
   }"

end
