(* ===== verification/Sched_Props.thy ===== *)
theory Sched_Props
  imports Sched "HOL-Library.Multiset"
begin

text \<open>
  Properties of the scheduler: what the priority class picks, that \<open>schedule()\<close> neither loses nor
  duplicates a task, the round-robin order, and the effect of the counters of the priority class.
\<close>

subsection \<open>Queues\<close>

lemma set_q_add [simp]: "set (q_add p q) = insert p (set q)"
  by (simp add: q_add_def)

lemma set_q_add_tail [simp]: "set (q_add_tail p q) = insert p (set q)"
  by (simp add: q_add_tail_def)

lemma set_q_del [simp]: "set (q_del p q) = set q - {p}"
  by (auto simp: q_del_def)

lemma distinct_q_del [simp]: "distinct q \<Longrightarrow> distinct (q_del p q)"
  by (simp add: q_del_def)

lemma q_del_id [simp]: "p \<notin> set q \<Longrightarrow> q_del p q = q"
  by (auto simp: q_del_def filter_id_conv)

lemma q_del_append [simp]: "q_del p (xs @ ys) = q_del p xs @ q_del p ys"
  by (simp add: q_del_def)

lemma q_del_Cons [simp]: "q_del p (x # xs) = (if x = p then q_del p xs else x # q_del p xs)"
  by (simp add: q_del_def)

text \<open>The queue operations are the values of the pointer operations on the rings.\<close>

lemma q_ops_ring:
  assumes "ring l h q" "p \<notin> set (h # q)"
  shows "ring (list_add p h l) h (q_add p q)" "ring (list_add_tail p h l) h (q_add_tail p q)"
  using ring_list_add [OF assms] ring_list_add_tail [OF assms] by (simp_all add: q_add_def q_add_tail_def)

lemma q_del_ring:
  assumes "ring l h q" "p \<in> set q"
  shows "ring (list_del_init p l) h (q_del p q)"
proof -
  obtain xs ys where q: "q = xs @ p # ys"
    using assms(2) by (meson split_list)
  then have "p \<notin> set xs" "p \<notin> set ys"
    using assms(1) by (auto simp: ring_def)
  then have "q_del p q = xs @ ys"
    by (simp add: q)
  then show ?thesis
    using ring_list_del_init(1) [of l h xs p ys] assms(1) q by simp
qed

lemma q_first_ring: "ring l h q \<Longrightarrow> list_first_entry h l = q_first q"
  using empty_ring [of l h q] ring_next [of l h q]
  by (cases q) (auto simp: list_first_entry_def q_first_def)

subsection \<open>The priority class\<close>

definition levels_ok :: "prio_rq_data \<Rightarrow> bool" where
  "levels_ok d \<longleftrightarrow> length (active d) = PRIO_LEVELS \<and> length (expired d) = PRIO_LEVELS"

definition counts_ok :: "prio_rq_data \<Rightarrow> bool" where
  "counts_ok d \<longleftrightarrow> unat (nr_active d) = length (concat (active d)) \<and>
     unat (nr_expired d) = length (concat (expired d))"

definition queued :: "prio_rq_data \<Rightarrow> addr list" where
  "queued d = concat (active d) @ concat (expired d)"

lemma fold_swap_level:
  assumes "levels_ok d" "n \<le> PRIO_LEVELS"
  shows "fold swap_level [0..<n] d =
    d\<lparr>active := take n (expired d) @ drop n (active d), expired := take n (active d) @ drop n (expired d)\<rparr>"
  using assms(2)
proof (induction n)
  case (Suc n)
  have len: "n < length (active d)" "n < length (expired d)"
    using assms(1) Suc.prems by (auto simp: levels_ok_def)
  have upd: "(take n ys @ drop n xs)[n := v] = take n ys @ v # drop (Suc n) xs" if "n < length xs" "n < length ys"
    for xs ys :: "addr list list" and v
    using that by (simp add: list_update_append Cons_nth_drop_Suc [symmetric])
  have tk: "take n ys @ ys ! n # zs = take (Suc n) ys @ zs" if "n < length ys" for ys zs :: "addr list list"
    using that by (simp add: take_Suc_conv_app_nth)
  show ?case
    using Suc len by (simp add: swap_level_def Let_def nth_append upd tk)
qed simp

lemma prio_swap_eq:
  assumes "levels_ok d"
  shows "prio_swap_active_expired d =
    (let d' = d\<lparr>active := expired d, expired := active d, nr_active := nr_expired d, nr_expired := nr_active d\<rparr>
     in d'\<lparr>highest_prio := find_highest_prio d', active_expired := False\<rparr>)"
  using assms by (simp add: prio_swap_active_expired_def fold_swap_level levels_ok_def Let_def)

text \<open>The first task of the first non-empty level.\<close>

definition top_task :: "addr list list \<Rightarrow> addr option" where
  "top_task ls = q_first (concat ls)"

lemma first_level:
  assumes "levels_ok d" "concat (active d) \<noteq> []"
  shows "q_first (active d ! nat (find_highest_prio d)) = top_task (active d)"
    "find_highest_prio d < int PRIO_LEVELS"
proof -
  let ?n = PRIO_LEVELS
  have "find (\<lambda>i. active d ! i \<noteq> []) [0..<?n] \<noteq> None"
    using assms by (auto simp: find_upt_None levels_ok_def in_set_conv_nth)
  then obtain i where i: "find (\<lambda>i. active d ! i \<noteq> []) [0..<?n] = Some i"
    by blast
  note f = find_upt_Some [OF i]
  have split: "active d = take i (active d) @ active d ! i # drop (Suc i) (active d)"
    using f(2) assms(1) by (simp add: levels_ok_def id_take_nth_drop)
  have "concat (take i (active d)) = []"
    using f(2,4) assms(1) by (auto simp: levels_ok_def in_set_conv_nth)
  then have "concat (active d) = active d ! i @ concat (drop (Suc i) (active d))"
    using arg_cong [OF split, of concat] by simp
  then show "q_first (active d ! nat (find_highest_prio d)) = top_task (active d)"
    using f(3) i by (cases "active d ! i") (auto simp: find_highest_prio_def top_task_def q_first_def)
  show "find_highest_prio d < int ?n"
    using i f(2) by (simp add: find_highest_prio_def)
qed

lemma prio_pick_ok:
  assumes "levels_ok d" "counts_ok d"
  shows "prio_pick_next_task d =
    (if concat (active d) \<noteq> [] then (top_task (active d), d)
     else if concat (expired d) \<noteq> [] then (top_task (expired d), prio_swap_active_expired d)
     else (None, d))"
proof -
  have na: "nr_active d = 0 \<longleftrightarrow> concat (active d) = []" and ne: "nr_expired d = 0 \<longleftrightarrow> concat (expired d) = []"
    using assms(2) by (auto simp: counts_ok_def word_unat_eq_iff simp flip: length_0_conv)
  show ?thesis
  proof (cases "concat (active d) = []")
    case True
    let ?d = "prio_swap_active_expired d"
    have d: "levels_ok ?d" "active ?d = expired d"
      using assms(1) by (auto simp: prio_swap_eq levels_ok_def Let_def)
    show ?thesis
    proof (cases "concat (expired d) = []")
      case True': True
      then show ?thesis
        using True na ne by (simp add: prio_pick_next_task_def)
    next
      case False
      then show ?thesis
        using True na ne d first_level [OF d(1)] unfolding prio_pick_next_task_def
        by (simp add: Let_def word_gt_0 del: concat_eq_Nil_conv)
    qed
  next
    case False
    then show ?thesis
      using na first_level [OF assms(1)] by (auto simp: prio_pick_next_task_def Let_def)
  qed
qed

subsection \<open>The invariant of the scheduler\<close>

definition class_for :: "sched_policy \<Rightarrow> sched_class" where
  "class_for pol = (if pol = SCHED_NORMAL then RR_CLASS else PRIO_CLASS)"

definition entity_ok :: "sched_entity \<Rightarrow> bool" where
  "entity_ok e \<longleftrightarrow> policy e \<noteq> SCHED_MAX \<and> se_class e = Some (class_for (policy e))"

definition normal_tasks :: "scheduler \<Rightarrow> addr list" where
  "normal_tasks s = queue (rqs s SCHED_NORMAL)"

definition prio_tasks :: "scheduler \<Rightarrow> addr list" where
  "prio_tasks s = (case class_data (rqs s SCHED_PRIORITY) of Some d \<Rightarrow> queued d | None \<Rightarrow> [])"

text \<open>
  Both classes are registered; the tasks on the class queues are exactly the tasks on the legacy run
  queue, each once, on the queue of their policy and ready; the counters of the run queues are their
  lengths; there is no idle task (the kernel never sets one).
\<close>

definition queues_inv :: "scheduler \<Rightarrow> bool" where
  "queues_inv s \<longleftrightarrow>
     rq_class (rqs s SCHED_NORMAL) = Some RR_CLASS \<and> rq_class (rqs s SCHED_PRIORITY) = Some PRIO_CLASS \<and>
     (\<exists>d. class_data (rqs s SCHED_PRIORITY) = Some d \<and> levels_ok d) \<and>
     mset (run_queue s) = mset (normal_tasks s) + mset (prio_tasks s) \<and> distinct (run_queue s) \<and>
     (\<forall>p \<in> set (normal_tasks s). policy (se (pcbs s p)) = SCHED_NORMAL) \<and>
     (\<forall>p \<in> set (prio_tasks s). policy (se (pcbs s p)) = SCHED_PRIORITY) \<and>
     (\<forall>p \<in> set (run_queue s). entity_ok (se (pcbs s p)) \<and> state (pcbs s p) = PROC_READY) \<and>
     unat (nr_running (rqs s SCHED_NORMAL)) = length (normal_tasks s) \<and>
     unat (nr_running (rqs s SCHED_PRIORITY)) = length (prio_tasks s) \<and>
     unat (sys_nr_running s) = length (run_queue s) \<and> idle s = None"

text \<open>Between two calls of the scheduler the current task is on no queue.\<close>

definition sched_inv :: "scheduler \<Rightarrow> bool" where
  "sched_inv s \<longleftrightarrow> queues_inv s \<and> length (run_queue s) + 1 < 2 ^ 32 \<and>
     (\<forall>p. current s = Some p \<longrightarrow> p \<notin> set (run_queue s) \<and> entity_ok (se (pcbs s p)))"

lemma mset_update_level:
  assumes "i < length ls"
  shows "mset (concat (ls[i := q])) + mset (ls ! i) = mset (concat ls) + mset q"
proof -
  have "concat ls = concat (take i ls) @ ls ! i @ concat (drop (Suc i) ls)"
    using arg_cong [OF id_take_nth_drop [OF assms], of concat] by simp
  moreover have "concat (ls[i := q]) = concat (take i ls) @ q @ concat (drop (Suc i) ls)"
    using assms by (simp add: upd_conv_take_nth_drop)
  ultimately show ?thesis
    by simp
qed

lemma mset_add_level:
  assumes "i < length ls" "mset q = add_mset p (mset (ls ! i))"
  shows "mset (concat (ls[i := q])) = add_mset p (mset (concat ls))"
  using mset_update_level [OF assms(1), of q] assms(2) by (simp add: add.commute)

lemma clamp_prio_bound: "nat (clamp_prio x) < PRIO_LEVELS"
  by (auto simp: clamp_prio_def prio_consts)

lemma prio_enqueue_tasks:
  assumes "levels_ok d" "prio_enqueue_task p e h (rq, d) = (rq', d')"
  shows "levels_ok d'" "mset (queued d') = add_mset p (mset (queued d))"
    "nr_running rq' = nr_running rq + 1" "rq_class rq' = rq_class rq" "queue rq' = queue rq"
proof -
  let ?i = "nat (clamp_prio (priority e))"
  have i: "?i < length (active d)" "?i < length (expired d)"
    using assms(1) clamp_prio_bound by (auto simp: levels_ok_def)
  note add = mset_add_level [OF i(1)] mset_add_level [OF i(2)]
  show "levels_ok d'" "nr_running rq' = nr_running rq + 1" "rq_class rq' = rq_class rq" "queue rq' = queue rq"
    using assms by (auto simp: prio_enqueue_task_def Let_def levels_ok_def split: if_splits)
  show "mset (queued d') = add_mset p (mset (queued d))"
    using assms(2)
    by (auto simp: prio_enqueue_task_def Let_def queued_def add q_add_def q_add_tail_def split: if_splits)
qed

lemma prio_dequeue_tasks:
  assumes "levels_ok d" "prio_dequeue_task p e (rq, d) = (rq', d')"
  shows "levels_ok d'" "queued d' = q_del p (queued d)"
    "nr_running rq' = nr_running rq - 1" "rq_class rq' = rq_class rq" "queue rq' = queue rq"
proof -
  have "concat (map (q_del p) ls) = q_del p (concat ls)" for ls
    by (induction ls) (simp_all add: q_del_def)
  then show "queued d' = q_del p (queued d)"
    using assms by (auto simp: prio_dequeue_task_def Let_def queued_def split: if_splits)
  show "levels_ok d'" "nr_running rq' = nr_running rq - 1" "rq_class rq' = rq_class rq" "queue rq' = queue rq"
    using assms by (auto simp: prio_dequeue_task_def Let_def levels_ok_def split: if_splits)
qed

lemma prio_swap_tasks:
  assumes "levels_ok d"
  shows "levels_ok (prio_swap_active_expired d)" "mset (queued (prio_swap_active_expired d)) = mset (queued d)"
  using assms by (auto simp: prio_swap_eq levels_ok_def queued_def Let_def)

lemma q_first_mem: "q_first q = Some p \<Longrightarrow> p \<in> set q"
  by (cases q) (auto simp: q_first_def)

lemma highest_range: "0 \<le> find_highest_prio d" "find_highest_prio d < int PRIO_LEVELS"
proof -
  have "i < PRIO_LEVELS" if "find q [0..<PRIO_LEVELS] = Some i" for q i
    using find_upt_Some(2) [OF that] .
  then show "0 \<le> find_highest_prio d" "find_highest_prio d < int PRIO_LEVELS"
    by (auto simp: find_highest_prio_def prio_consts split: option.splits)
qed

lemma prio_pick_tasks:
  assumes "levels_ok d" "prio_pick_next_task d = (r, d')"
  shows "levels_ok d'" "mset (queued d') = mset (queued d)" "r = Some p \<Longrightarrow> p \<in> set (queued d)"
proof -
  show l: "levels_ok d'" and m: "mset (queued d') = mset (queued d)"
    using assms prio_swap_tasks by (auto simp: prio_pick_next_task_def Let_def split: if_splits)
  assume "r = Some p"
  then have "p \<in> set (active d' ! nat (find_highest_prio d'))"
    using assms(2) by (auto simp: prio_pick_next_task_def Let_def dest: q_first_mem split: if_splits)
  moreover have "nat (find_highest_prio d') < length (active d')"
    using l highest_range [of d'] by (simp add: levels_ok_def)
  ultimately have "p \<in> set (queued d')"
    by (auto simp: queued_def)
  then show "p \<in> set (queued d)"
    using m by (metis set_mset_mset)
qed

lemma queues_invD:
  assumes "queues_inv s"
  shows "rq_class (rqs s SCHED_NORMAL) = Some RR_CLASS" "rq_class (rqs s SCHED_PRIORITY) = Some PRIO_CLASS"
    "\<exists>d. class_data (rqs s SCHED_PRIORITY) = Some d \<and> levels_ok d"
    "set (run_queue s) = set (normal_tasks s) \<union> set (prio_tasks s)" "distinct (run_queue s)"
    "length (run_queue s) = length (normal_tasks s) + length (prio_tasks s)"
    "set (normal_tasks s) \<inter> set (prio_tasks s) = {}" "distinct (normal_tasks s)" "distinct (prio_tasks s)"
proof -
  have m: "mset (run_queue s) = mset (normal_tasks s @ prio_tasks s)" "distinct (run_queue s)"
    using assms by (auto simp: queues_inv_def)
  then have "distinct (normal_tasks s @ prio_tasks s)"
    by (metis mset_eq_imp_distinct_iff)
  then show "set (normal_tasks s) \<inter> set (prio_tasks s) = {}" "distinct (normal_tasks s)" "distinct (prio_tasks s)"
    by simp_all
  show "set (run_queue s) = set (normal_tasks s) \<union> set (prio_tasks s)"
    using mset_eq_setD [OF m(1)] by simp
  show "length (run_queue s) = length (normal_tasks s) + length (prio_tasks s)"
    using mset_eq_length [OF m(1)] by simp
qed (use assms in \<open>auto simp: queues_inv_def\<close>)

lemma unat_inc: "unat (w :: u32) = n \<Longrightarrow> n + 1 < 2 ^ 32 \<Longrightarrow> unat (w + 1) = n + 1"
  by (subst unat_add_small) simp_all

lemma unat_dec: "unat (w :: u32) = n \<Longrightarrow> 0 < n \<Longrightarrow> unat (w - 1) = n - 1"
  by (metis unat_eq_zero unat_minus_one less_numeral_extra(3))

lemma length_q_del: "distinct q \<Longrightarrow> p \<in> set q \<Longrightarrow> length (q_del p q) = length q - 1"
proof -
  assume q: "distinct q" "p \<in> set q"
  then have "length (q_del p q) = card (set q - {p})"
    using distinct_card [of "q_del p q"] by simp
  then show ?thesis
    using q by (simp add: distinct_card)
qed

lemma dec_length:
  assumes "unat (w :: u32) = length q" "distinct q" "p \<in> set q"
  shows "unat (w - 1) = length (q_del p q)" "w > 0"
proof -
  have pos: "0 < length q"
    using assms(3) by (rule length_pos_if_in_set)
  show "unat (w - 1) = length (q_del p q)" "w > 0"
    using assms pos unat_dec [OF assms(1) pos] by (simp_all add: length_q_del word_less_nat_alt)
qed

lemma enqueue_inv:
  assumes inv: "queues_inv s" and "length (run_queue s) + 1 < 2 ^ 32"
    and p: "p \<notin> set (run_queue s)" "entity_ok (se (pcbs s p))" "state (pcbs s p) = PROC_READY"
  shows "\<exists>s'. sched_enqueue_task (Some p) h s = Some s' \<and> queues_inv s' \<and> run_queue s' = run_queue s @ [p] \<and>
    pcbs s' = pcbs s \<and> current s' = current s"
proof (cases "policy (se (pcbs s p))")
  case SCHED_NORMAL
  let ?rq = "rr_enqueue_task p h (rqs s SCHED_NORMAL)"
  let ?s = "(put_rq SCHED_NORMAL ?rq s)\<lparr>sys_nr_running := sys_nr_running s + 1, run_queue := run_queue s @ [p]\<rparr>"
  have "sched_enqueue_task (Some p) h s = Some ?s"
    using p(2) SCHED_NORMAL
    by (simp add: sched_enqueue_task_def entity_ok_def class_for_def get_rq_def class_enqueue_def put_rq_def
        q_add_tail_def Let_def)
  moreover have "normal_tasks ?s = (if h then p # normal_tasks s else normal_tasks s @ [p])"
    "prio_tasks ?s = prio_tasks s"
    by (simp_all add: normal_tasks_def prio_tasks_def put_rq_def rr_enqueue_task_def q_add_def q_add_tail_def Let_def)
  then have "queues_inv ?s"
    using inv p SCHED_NORMAL assms(2) queues_invD(6) [OF inv]
    by (auto simp: queues_inv_def put_rq_def rr_enqueue_task_def Let_def unat_inc)
  ultimately show ?thesis
    by (auto simp: put_rq_def)
next
  case SCHED_PRIORITY
  obtain d where d: "class_data (rqs s SCHED_PRIORITY) = Some d" "levels_ok d"
    using queues_invD(3) [OF inv] by blast
  obtain rq' d' where e: "prio_enqueue_task p (se (pcbs s p)) h (rqs s SCHED_PRIORITY, d) = (rq', d')"
    by fastforce
  note t = prio_enqueue_tasks [OF d(2) e]
  let ?s = "(put_rq SCHED_PRIORITY (rq'\<lparr>class_data := Some d'\<rparr>) s)\<lparr>sys_nr_running := sys_nr_running s + 1,
    run_queue := run_queue s @ [p]\<rparr>"
  have "sched_enqueue_task (Some p) h s = Some ?s"
    using p(2) SCHED_PRIORITY d(1) e
    by (simp add: sched_enqueue_task_def entity_ok_def class_for_def get_rq_def class_enqueue_def put_rq_def
        with_prio_data_def q_add_tail_def Let_def)
  moreover have pt: "normal_tasks ?s = normal_tasks s" "mset (prio_tasks ?s) = add_mset p (mset (prio_tasks s))"
    using t(2) d(1) by (simp_all add: normal_tasks_def prio_tasks_def put_rq_def)
  then have "set (prio_tasks ?s) = insert p (set (prio_tasks s))" "length (prio_tasks ?s) = length (prio_tasks s) + 1"
    by (metis set_mset_mset set_mset_add_mset_insert, metis size_mset size_add_mset Suc_eq_plus1)
  then have "queues_inv ?s"
    using inv p SCHED_PRIORITY assms(2) queues_invD(6) [OF inv] t pt
    by (auto simp: queues_inv_def put_rq_def unat_inc normal_tasks_def)
  ultimately show ?thesis
    by (auto simp: put_rq_def)
next
  case SCHED_MAX
  then show ?thesis
    using p(2) by (simp add: entity_ok_def)
qed

lemma mset_q_del: "mset (q_del p q) = filter_mset (\<lambda>x. x \<noteq> p) (mset q)"
  by (simp add: q_del_def)

lemma dequeue_inv:
  assumes inv: "queues_inv s" and p: "p \<in> set (run_queue s)"
  shows "\<exists>s'. sched_dequeue_task (Some p) s = Some s' \<and> queues_inv s' \<and> run_queue s' = q_del p (run_queue s) \<and>
    pcbs s' = pcbs s \<and> current s' = current s"
proof -
  note D = queues_invD [OF inv]
  have e: "entity_ok (se (pcbs s p))"
    using inv p by (auto simp: queues_inv_def)
  have cnt: "unat (sys_nr_running s) = length (run_queue s)"
    "unat (nr_running (rqs s SCHED_NORMAL)) = length (normal_tasks s)"
    "unat (nr_running (rqs s SCHED_PRIORITY)) = length (prio_tasks s)"
    using inv by (simp_all add: queues_inv_def)
  note sys = dec_length(2,1) [OF cnt(1) D(5) p]
  show ?thesis
  proof (cases "policy (se (pcbs s p))")
    case SCHED_NORMAL
    then have in_q: "p \<in> set (normal_tasks s)" "p \<notin> set (prio_tasks s)"
      using p D(4) inv by (auto simp: queues_inv_def)
    let ?rq = "rr_dequeue_task p (rqs s SCHED_NORMAL)"
    let ?s = "(put_rq SCHED_NORMAL ?rq s)\<lparr>sys_nr_running := sys_nr_running s - 1, run_queue := q_del p (run_queue s)\<rparr>"
    have "sched_dequeue_task (Some p) s = Some ?s"
      using e SCHED_NORMAL sys(1)
      by (simp add: sched_dequeue_task_def entity_ok_def class_for_def get_rq_def class_dequeue_def put_rq_def Let_def)
    moreover have "normal_tasks ?s = q_del p (normal_tasks s)" "prio_tasks ?s = prio_tasks s"
      by (simp_all add: normal_tasks_def prio_tasks_def put_rq_def rr_dequeue_task_def)
    moreover have "unat (nr_running (rqs s SCHED_NORMAL) - 1) = length (q_del p (normal_tasks s))"
      by (rule dec_length(1) [OF cnt(2) D(8) in_q(1)])
    ultimately show ?thesis
      using inv in_q sys(2) D(5)
      by (auto simp: queues_inv_def put_rq_def rr_dequeue_task_def mset_q_del filter_mset_eq_conv)
  next
    case SCHED_PRIORITY
    then have in_q: "p \<notin> set (normal_tasks s)" "p \<in> set (prio_tasks s)"
      using p D(4) inv by (auto simp: queues_inv_def)
    obtain d where d: "class_data (rqs s SCHED_PRIORITY) = Some d" "levels_ok d"
      using D(3) by blast
    obtain rq' d' where q: "prio_dequeue_task p (se (pcbs s p)) (rqs s SCHED_PRIORITY, d) = (rq', d')"
      by fastforce
    note t = prio_dequeue_tasks [OF d(2) q]
    let ?s = "(put_rq SCHED_PRIORITY (rq'\<lparr>class_data := Some d'\<rparr>) s)\<lparr>sys_nr_running := sys_nr_running s - 1,
      run_queue := q_del p (run_queue s)\<rparr>"
    have "sched_dequeue_task (Some p) s = Some ?s"
      using e SCHED_PRIORITY sys(1) d(1) q
      by (simp add: sched_dequeue_task_def entity_ok_def class_for_def get_rq_def class_dequeue_def put_rq_def
          with_prio_data_def Let_def)
    moreover have "normal_tasks ?s = normal_tasks s" "prio_tasks ?s = q_del p (prio_tasks s)"
      using t(2) d(1) by (simp_all add: normal_tasks_def prio_tasks_def put_rq_def)
    moreover have "unat (nr_running (rqs s SCHED_PRIORITY) - 1) = length (q_del p (prio_tasks s))"
      by (rule dec_length(1) [OF cnt(3) D(9) in_q(2)])
    ultimately show ?thesis
      using inv in_q sys(2) D(5) t
      by (auto simp: queues_inv_def put_rq_def mset_q_del filter_mset_eq_conv normal_tasks_def)
  next
    case SCHED_MAX
    then show ?thesis
      using e by (simp add: entity_ok_def)
  qed
qed

text \<open>Picking a task changes no queue as a set of tasks and returns a queued task.\<close>

lemma pick_from_inv:
  assumes inv: "queues_inv s" and pol: "pol \<noteq> SCHED_MAX"
  shows "\<exists>r s'. pick_from pol s = Some (r, s') \<and> queues_inv s' \<and> run_queue s' = run_queue s \<and> pcbs s' = pcbs s \<and>
    current s' = current s \<and> (\<forall>p. r = Some p \<longrightarrow> p \<in> set (run_queue s))"
proof -
  note D = queues_invD [OF inv]
  obtain d where d: "class_data (rqs s SCHED_PRIORITY) = Some d" "levels_ok d"
    using D(3) by blast
  obtain r d' where pk: "prio_pick_next_task d = (r, d')"
    by fastforce
  note t = prio_pick_tasks [OF d(2) pk]
  show ?thesis
  proof (cases pol)
    case SCHED_NORMAL
    have "put_rq SCHED_NORMAL (rqs s SCHED_NORMAL) s = s"
      by (simp add: put_rq_def)
    then show ?thesis
      using inv SCHED_NORMAL D(1,4)
      by (auto simp: pick_from_def class_pick_next_def rr_pick_next_task_def Let_def normal_tasks_def dest: q_first_mem)
  next
    case SCHED_PRIORITY
    let ?s = "put_rq SCHED_PRIORITY ((rqs s SCHED_PRIORITY)\<lparr>class_data := Some d'\<rparr>) s"
    have "normal_tasks ?s = normal_tasks s" "mset (prio_tasks ?s) = mset (prio_tasks s)"
      using t(2) d(1) by (simp_all add: normal_tasks_def prio_tasks_def put_rq_def)
    moreover from this(2) have "set (prio_tasks ?s) = set (prio_tasks s)" "length (prio_tasks ?s) = length (prio_tasks s)"
      by (auto dest: mset_eq_setD mset_eq_length)
    ultimately have "queues_inv ?s"
      using inv t(1) by (auto simp: queues_inv_def put_rq_def)
    moreover have "p \<in> set (run_queue s)" if "r = Some p" for p
      using t(3) [OF that] D(4) d(1) by (auto simp: prio_tasks_def)
    moreover have "pick_from pol s = (if nr_running (rqs s SCHED_PRIORITY) > 0 then Some (r, ?s) else Some (None, s))"
      using SCHED_PRIORITY D(2) d(1) pk by (simp add: pick_from_def class_pick_next_def Let_def)
    ultimately show ?thesis
      using inv by (auto simp: put_rq_def)
  next
    case SCHED_MAX
    then show ?thesis
      using pol by simp
  qed
qed

lemma sched_pick_inv:
  assumes inv: "sched_inv s"
  shows "\<exists>r s'. sched_pick_next_task s = Some (r, s') \<and> queues_inv s' \<and> run_queue s' = run_queue s \<and>
    pcbs s' = pcbs s \<and> current s' = current s \<and> (\<forall>p. r = Some p \<longrightarrow> p \<in> set (run_queue s) \<or> current s = Some p)"
proof -
  have q: "queues_inv s"
    using inv by (simp add: sched_inv_def)
  obtain t1 s1 where 1: "pick_from SCHED_PRIORITY s = Some (t1, s1)" "queues_inv s1" "run_queue s1 = run_queue s"
      "pcbs s1 = pcbs s" "current s1 = current s" "\<forall>p. t1 = Some p \<longrightarrow> p \<in> set (run_queue s)"
    using pick_from_inv [OF q, of SCHED_PRIORITY] by auto
  obtain t2 s2 where 2: "pick_from SCHED_NORMAL s1 = Some (t2, s2)" "queues_inv s2" "run_queue s2 = run_queue s"
      "pcbs s2 = pcbs s" "current s2 = current s" "\<forall>p. t2 = Some p \<longrightarrow> p \<in> set (run_queue s)"
    using pick_from_inv [OF 1(2), of SCHED_NORMAL] 1(3-5) by auto
  have c: "\<exists>c. se_class (se (pcbs s t)) = Some c" if "t1 = Some t" for t
    using 1(6) that q by (auto simp: queues_inv_def entity_ok_def)
  show ?thesis
  proof (cases "\<exists>p. current s = Some p \<and> state (pcbs s p) = PROC_RUNNING \<and> slice s p > 0")
    case True
    then show ?thesis
      using 1 c by (cases t1) (auto simp: sched_pick_next_task_def)
  next
    case False
    then have "sched_pick_next_task s = (if t1 \<noteq> None then Some (t1, s1) else Some (t2, s2))"
      using 1(1) 2(1) by (cases "current s") (auto simp: sched_pick_next_task_def)
    then show ?thesis
      using 1 2 by (cases t1) auto
  qed
qed

text \<open>The tasks that want the processor.\<close>

definition runnable :: "scheduler \<Rightarrow> addr set" where
  "runnable s = set (run_queue s) \<union>
     {p. current s = Some p \<and> (state (pcbs s p) = PROC_RUNNING \<or> state (pcbs s p) = PROC_READY)}"

lemma set_state_simps [simp]:
  "run_queue (set_state p st s) = run_queue s" "current (set_state p st s) = current s"
  "rqs (set_state p st s) = rqs s" "idle (set_state p st s) = idle s"
  "se (pcbs (set_state p st s) q) = se (pcbs s q)"
  "state (pcbs (set_state p st s) q) = (if q = p then st else state (pcbs s q))"
  by (simp_all add: set_state_def)

lemma queues_inv_cong:
  assumes "queues_inv s" "run_queue t = run_queue s" "rqs t = rqs s" "idle t = idle s"
    "sys_nr_running t = sys_nr_running s"
    and "\<And>p. p \<in> set (run_queue s) \<Longrightarrow> policy (se (pcbs t p)) = policy (se (pcbs s p)) \<and>
      se_class (se (pcbs t p)) = se_class (se (pcbs s p)) \<and> state (pcbs t p) = state (pcbs s p)"
  shows "queues_inv t"
proof -
  have tasks: "normal_tasks t = normal_tasks s" "prio_tasks t = prio_tasks s"
    using assms(3) by (simp_all add: normal_tasks_def prio_tasks_def)
  show ?thesis
    unfolding queues_inv_def tasks assms(2-5)
    using assms(1) assms(6) queues_invD(4) [OF assms(1)] by (auto simp: queues_inv_def entity_ok_def)
qed

text \<open>Switching to a queued task, after the previous one has been put back.\<close>

lemma switch_inv:
  assumes inv: "queues_inv s" and p: "p \<in> set (run_queue s)" and len: "length (run_queue s) < 2 ^ 32"
  shows "\<exists>s1. sched_dequeue_task (Some p) s = Some s1 \<and>
    (let s2 = sched_reset_time_slice (Some p) ((set_state p PROC_RUNNING s1)\<lparr>current := Some p\<rparr>)
     in sched_inv s2 \<and> run_queue s2 = q_del p (run_queue s) \<and> current s2 = Some p \<and>
        state (pcbs s2 p) = PROC_RUNNING)"
proof -
  obtain s1 where s1: "sched_dequeue_task (Some p) s = Some s1" "queues_inv s1"
      "run_queue s1 = q_del p (run_queue s)" "pcbs s1 = pcbs s"
    using dequeue_inv [OF inv p] by blast
  let ?s2 = "sched_reset_time_slice (Some p) ((set_state p PROC_RUNNING s1)\<lparr>current := Some p\<rparr>)"
  have e: "entity_ok (se (pcbs s p))"
    using inv p by (auto simp: queues_inv_def)
  have eq: "run_queue ?s2 = run_queue s1" "rqs ?s2 = rqs s1" "idle ?s2 = idle s1" "current ?s2 = Some p"
    "sys_nr_running ?s2 = sys_nr_running s1" "state (pcbs ?s2 q) = (if q = p then PROC_RUNNING else state (pcbs s1 q))"
    "policy (se (pcbs ?s2 q)) = policy (se (pcbs s1 q))" "se_class (se (pcbs ?s2 q)) = se_class (se (pcbs s1 q))" for q
    by (auto simp: sched_reset_time_slice_def upd_se_def set_state_def split: option.splits)
  have "queues_inv ?s2"
    by (rule queues_inv_cong [OF s1(2) eq(1-3,5)]) (use s1(3) in \<open>auto simp: eq(6-8)\<close>)
  moreover have "length (q_del p (run_queue s)) + 1 < 2 ^ 32"
    using length_q_del [OF queues_invD(5) [OF inv] p] len length_pos_if_in_set [OF p] by simp
  ultimately have "sched_inv ?s2"
    using e s1(3,4) by (auto simp: sched_inv_def eq entity_ok_def)
  then show ?thesis
    using s1(1,3) eq(1,4) eq(6) [of p] by (auto simp: Let_def)
qed

text \<open>\<open>schedule()\<close> when a task other than the current one has been picked.\<close>

definition put_back :: "addr option \<Rightarrow> scheduler \<Rightarrow> scheduler option" where
  "put_back prev s =
     (case prev of
        Some p \<Rightarrow>
          if Some p \<noteq> idle s then
            let s = (if state (pcbs s p) = PROC_RUNNING then set_state p PROC_READY s else s)
            in if state (pcbs s p) = PROC_READY then sched_enqueue_task (Some p) False s else Some s
          else Some s
      | None \<Rightarrow> Some s)"

lemma put_back_inv:
  assumes q: "queues_inv s" and len: "length (run_queue s) + 1 < 2 ^ 32"
    and cur: "\<forall>p. current s = Some p \<longrightarrow> p \<notin> set (run_queue s) \<and> entity_ok (se (pcbs s p))"
  shows "\<exists>s1. put_back (current s) s = Some s1 \<and> queues_inv s1 \<and> length (run_queue s1) < 2 ^ 32 \<and>
    set (run_queue s1) = runnable s"
proof (cases "current s")
  case None
  then show ?thesis
    using q len by (auto simp: put_back_def runnable_def)
next
  case (Some p)
  let ?s = "if state (pcbs s p) = PROC_RUNNING then set_state p PROC_READY s else s"
  have idle: "idle s = None"
    using q by (simp add: queues_inv_def)
  have s: "run_queue ?s = run_queue s" "se (pcbs ?s p) = se (pcbs s p)"
    by auto
  have q': "queues_inv ?s"
    by (rule queues_inv_cong [OF q]) (use cur Some in \<open>auto simp: set_state_def\<close>)
  show ?thesis
  proof (cases "state (pcbs ?s p) = PROC_READY")
    case True
    obtain s1 where "sched_enqueue_task (Some p) False ?s = Some s1" "queues_inv s1" "run_queue s1 = run_queue s @ [p]"
      using enqueue_inv [OF q', of p False] len cur Some s True by auto
    then show ?thesis
      using Some True idle len by (auto simp: put_back_def Let_def runnable_def split: if_splits)
  next
    case False
    then show ?thesis
      using Some q' idle len by (auto simp: put_back_def Let_def runnable_def split: if_splits)
  qed
qed

lemma schedule_cases:
  assumes "sched_pick_next_task (sched_clear_resched s) = Some (r, t)" "idle t = None"
  shows "schedule s = (if r = None \<or> r = current s then Some (None, t) else do {
      s1 \<leftarrow> put_back (current s) t;
      s2 \<leftarrow> (if r \<noteq> idle s1 then sched_dequeue_task r s1 else Some s1);
      Some (r, sched_reset_time_slice r ((set_state (the r) PROC_RUNNING s2)\<lparr>current := r\<rparr>))
    })"
  using assms unfolding schedule_def put_back_def
  by (cases r) (auto simp: Let_def split: option.splits)

lemma schedule_inv:
  assumes inv: "sched_inv s"
  shows "\<exists>r s'. schedule s = Some (r, s') \<and> sched_inv s' \<and> runnable s' = runnable s \<and>
    (case r of None \<Rightarrow> current s' = current s \<and> run_queue s' = run_queue s
     | Some p \<Rightarrow> p \<in> set (run_queue s) \<and> current s' = Some p \<and> state (pcbs s' p) = PROC_RUNNING)"
proof -
  let ?s = "sched_clear_resched s"
  have q: "queues_inv s" and len: "length (run_queue s) + 1 < 2 ^ 32"
    and cur: "\<forall>p. current s = Some p \<longrightarrow> p \<notin> set (run_queue s) \<and> entity_ok (se (pcbs s p))"
    using inv by (auto simp: sched_inv_def)
  have clr: "run_queue ?s = run_queue s" "pcbs ?s = pcbs s" "current ?s = current s"
    by (simp_all add: sched_clear_resched_def)
  have "queues_inv ?s"
    by (rule queues_inv_cong [OF q]) (simp_all add: sched_clear_resched_def)
  then have inv': "sched_inv ?s"
    using inv by (simp add: sched_inv_def clr)
  obtain r t where t: "sched_pick_next_task ?s = Some (r, t)" "queues_inv t" "run_queue t = run_queue s"
      "pcbs t = pcbs s" "current t = current s" "\<forall>p. r = Some p \<longrightarrow> p \<in> set (run_queue s) \<or> current s = Some p"
    using sched_pick_inv [OF inv'] by (auto simp: clr)
  have idle: "idle t = None"
    using t(2) by (simp add: queues_inv_def)
  note sc = schedule_cases [OF t(1) idle]
  have run: "runnable t = runnable s"
    using t(3-5) by (simp add: runnable_def)
  have inv_t: "sched_inv t"
    using t(2-5) len cur by (simp add: sched_inv_def)
  show ?thesis
  proof (cases "r = None \<or> r = current s")
    case True
    then show ?thesis
      using sc inv_t run t(3,5) by auto
  next
    case False
    then obtain p where p: "r = Some p" "p \<in> set (run_queue s)"
      using t(6) by auto
    obtain s1 where s1: "put_back (current s) t = Some s1" "queues_inv s1" "length (run_queue s1) < 2 ^ 32"
        "set (run_queue s1) = runnable s"
      using put_back_inv [OF t(2)] len cur t(3-5) run by auto
    then have ps: "p \<in> set (run_queue s1)" and id1: "idle s1 = None"
      using p(2) by (auto simp: runnable_def queues_inv_def)
    obtain s2 where s2: "sched_dequeue_task (Some p) s1 = Some s2"
        "let s' = sched_reset_time_slice (Some p) ((set_state p PROC_RUNNING s2)\<lparr>current := Some p\<rparr>)
         in sched_inv s' \<and> run_queue s' = q_del p (run_queue s1) \<and> current s' = Some p \<and> state (pcbs s' p) = PROC_RUNNING"
      using switch_inv [OF s1(2) ps s1(3)] by blast
    define s' where "s' = sched_reset_time_slice (Some p) ((set_state p PROC_RUNNING s2)\<lparr>current := Some p\<rparr>)"
    have s': "sched_inv s'" "run_queue s' = q_del p (run_queue s1)" "current s' = Some p"
        "state (pcbs s' p) = PROC_RUNNING"
      using s2(2) by (simp_all add: s'_def Let_def)
    have "schedule s = Some (Some p, s')"
      using False s1(1) s2(1) id1 by (simp add: sc p(1) s'_def)
    moreover have "runnable s' = runnable s"
      using s' s1(4) ps by (auto simp: runnable_def)
    ultimately show ?thesis
      using s' p(2) by auto
  qed
qed

text \<open>
  C2: \<^verbatim>\<open>schedule()\<close> on a well-formed scheduler never dereferences a missing class or queue, keeps the
  scheduler well formed (every queued task on exactly one class queue, on the legacy queue and ready,
  counters equal to the queue lengths, the current task on no queue), and neither loses nor invents a
  task: the set of tasks that want the processor is unchanged, and a task it switches to was queued.
\<close>

theorem schedule_conserves_tasks:
  assumes "sched_inv s"
  shows "\<exists>r s'. schedule s = Some (r, s') \<and> sched_inv s' \<and> runnable s' = runnable s \<and>
    (case r of None \<Rightarrow> current s' = current s \<and> run_queue s' = run_queue s
     | Some p \<Rightarrow> p \<in> set (run_queue s) \<and> current s' = Some p \<and> state (pcbs s' p) = PROC_RUNNING)"
  using schedule_inv [OF assms] .

subsection \<open>Round-robin order\<close>

lemma enqueue_normal:
  assumes "entity_ok (se (pcbs s p))" "policy (se (pcbs s p)) = SCHED_NORMAL"
    "sched_enqueue_task (Some p) False s = Some s'"
  shows "normal_tasks s' = normal_tasks s @ [p]" "prio_tasks s' = prio_tasks s" "pcbs s' = pcbs s" "idle s' = idle s"
  using assms
  by (auto simp: sched_enqueue_task_def entity_ok_def class_for_def get_rq_def class_enqueue_def put_rq_def
      q_add_tail_def Let_def normal_tasks_def prio_tasks_def rr_enqueue_task_def)

lemma dequeue_normal:
  assumes "entity_ok (se (pcbs s p))" "policy (se (pcbs s p)) = SCHED_NORMAL"
    "sched_dequeue_task (Some p) s = Some s'"
  shows "normal_tasks s' = q_del p (normal_tasks s)" "prio_tasks s' = prio_tasks s" "pcbs s' = pcbs s"
  using assms
  by (auto simp: sched_dequeue_task_def entity_ok_def class_for_def get_rq_def class_dequeue_def put_rq_def
      Let_def normal_tasks_def prio_tasks_def rr_dequeue_task_def)

lemma reset_tasks [simp]:
  "normal_tasks (sched_reset_time_slice q s) = normal_tasks s" "prio_tasks (sched_reset_time_slice q s) = prio_tasks s"
  "normal_tasks (set_state p st s) = normal_tasks s" "prio_tasks (set_state p st s) = prio_tasks s"
  "normal_tasks (s\<lparr>current := c\<rparr>) = normal_tasks s" "prio_tasks (s\<lparr>current := c\<rparr>) = prio_tasks s"
  by (auto simp: sched_reset_time_slice_def upd_se_def set_state_def normal_tasks_def prio_tasks_def split: option.splits)

lemma reset_policy [simp]:
  "policy (se (pcbs (sched_reset_time_slice q s) p)) = policy (se (pcbs s p))"
  by (auto simp: sched_reset_time_slice_def upd_se_def split: option.splits)

text \<open>A running task of the normal class, with no task of the priority class around.\<close>

definition rr_running :: "addr \<Rightarrow> scheduler \<Rightarrow> bool" where
  "rr_running c s \<longleftrightarrow> sched_inv s \<and> prio_tasks s = [] \<and> current s = Some c \<and> state (pcbs s c) = PROC_RUNNING \<and>
     policy (se (pcbs s c)) = SCHED_NORMAL"

lemma pick_rr:
  assumes "rr_running c s" "slice s c = 0" "normal_tasks s = x # xs"
  shows "sched_pick_next_task (sched_clear_resched s) = Some (Some x, sched_clear_resched s)"
proof -
  have q: "queues_inv s"
    using assms(1) by (simp add: rr_running_def sched_inv_def)
  then have "nr_running (rqs s SCHED_PRIORITY) = 0" "nr_running (rqs s SCHED_NORMAL) > 0"
    using assms(1,3) by (auto simp: queues_inv_def rr_running_def word_less_nat_alt unat_eq_zero)
  moreover have "put_rq SCHED_NORMAL (rqs s SCHED_NORMAL) (s\<lparr>need_resched := False\<rparr>) = s\<lparr>need_resched := False\<rparr>"
    by (simp add: put_rq_def)
  ultimately show ?thesis
    using assms queues_invD(1,2) [OF q]
    by (simp add: sched_pick_next_task_def sched_clear_resched_def rr_running_def pick_from_def Let_def
        class_pick_next_def rr_pick_next_task_def normal_tasks_def q_first_def)
qed

lemma schedule_rr:
  assumes r: "rr_running c s" and "slice s c = 0" and x: "normal_tasks s = x # xs"
  shows "\<exists>s'. schedule s = Some (Some x, s') \<and> rr_running x s' \<and> normal_tasks s' = xs @ [c]"
proof -
  have inv: "sched_inv s" and q: "queues_inv s" and idle: "idle s = None"
    and c: "current s = Some c" "c \<notin> set (run_queue s)" "entity_ok (se (pcbs s c))" "policy (se (pcbs s c)) = SCHED_NORMAL"
      "state (pcbs s c) = PROC_RUNNING" "prio_tasks s = []"
    using r by (auto simp: rr_running_def sched_inv_def queues_inv_def)
  have xq: "x \<in> set (run_queue s)" "entity_ok (se (pcbs s x))" "policy (se (pcbs s x)) = SCHED_NORMAL"
    and d: "distinct (x # xs)" and cx: "x \<noteq> c"
    using q x queues_invD(4,8) [OF q] c(2) by (auto simp: queues_inv_def)
  obtain r' s' where s': "schedule s = Some (r', s')" "sched_inv s'"
      "case r' of None \<Rightarrow> current s' = current s \<and> run_queue s' = run_queue s
       | Some p \<Rightarrow> p \<in> set (run_queue s) \<and> current s' = Some p \<and> state (pcbs s' p) = PROC_RUNNING"
    using schedule_inv [OF inv] by blast
  have sc: "schedule s = do {
      s1 \<leftarrow> put_back (Some c) (sched_clear_resched s);
      s2 \<leftarrow> (if Some x \<noteq> idle s1 then sched_dequeue_task (Some x) s1 else Some s1);
      Some (Some x, sched_reset_time_slice (Some x) ((set_state x PROC_RUNNING s2)\<lparr>current := Some x\<rparr>))
    }"
    using schedule_cases [OF pick_rr [OF assms]] idle c(1) cx by (simp add: sched_clear_resched_def)
  let ?s0 = "set_state c PROC_READY (sched_clear_resched s)"
  have pb: "put_back (Some c) (sched_clear_resched s) = sched_enqueue_task (Some c) False ?s0"
    using idle c(5) by (simp add: put_back_def Let_def sched_clear_resched_def)
  obtain s1 where s1: "sched_enqueue_task (Some c) False ?s0 = Some s1"
    using s'(1) sc pb by (auto simp: bind_eq_Some_conv)
  have n0: "normal_tasks ?s0 = x # xs" "prio_tasks ?s0 = []" "pcbs (sched_clear_resched s) = pcbs s" "idle ?s0 = None"
    using x c(6) idle by (simp_all add: sched_clear_resched_def normal_tasks_def prio_tasks_def)
  note e = enqueue_normal [of ?s0 c s1]
  have e1: "normal_tasks s1 = x # xs @ [c]" "prio_tasks s1 = []" "pcbs s1 = pcbs ?s0" "idle s1 = None"
    using e c(3,4) s1 n0 by (auto simp: sched_clear_resched_def)
  obtain s2 where s2: "sched_dequeue_task (Some x) s1 = Some s2"
      "s' = sched_reset_time_slice (Some x) ((set_state x PROC_RUNNING s2)\<lparr>current := Some x\<rparr>)" "r' = Some x"
    using s'(1) sc pb s1 e1(4) by (auto simp: bind_eq_Some_conv)
  note e2 = dequeue_normal [of s1 x s2]
  have "normal_tasks s2 = xs @ [c]" "prio_tasks s2 = []" "policy (se (pcbs s2 x)) = SCHED_NORMAL"
    using e2 e1 xq(2,3) s2(1) d cx n0(3) by (auto simp: sched_clear_resched_def)
  then show ?thesis
    using s' s2 by (auto simp: rr_running_def)
qed

text \<open>The timer interrupts that use up the slice of the current task.\<close>

lemma tick_current:
  assumes "rr_running c s"
  shows "sched_timer_tick_handler s = upd_se c rr_task_tick s"
proof -
  have "class_task_tick RR_CLASS = rr_task_tick"
    by (simp add: fun_eq_iff class_task_tick_def)
  then show ?thesis
    using assms
    by (auto simp: rr_running_def sched_inv_def entity_ok_def class_for_def sched_timer_tick_handler_def)
qed

lemma tick_running:
  assumes "rr_running c s"
  shows "rr_running c (sched_timer_tick_handler s)" "normal_tasks (sched_timer_tick_handler s) = normal_tasks s"
    "unat (slice (sched_timer_tick_handler s) c) = unat (slice s c) - 1"
proof -
  let ?t = "sched_timer_tick_handler s"
  have t: "?t = upd_se c rr_task_tick s"
    by (rule tick_current [OF assms])
  have p: "policy (rr_task_tick e) = policy e" "se_class (rr_task_tick e) = se_class e" for e
    by (simp_all add: rr_task_tick_def)
  have eq: "run_queue ?t = run_queue s" "rqs ?t = rqs s" "idle ?t = idle s" "sys_nr_running ?t = sys_nr_running s"
    "current ?t = current s" "state (pcbs ?t q) = state (pcbs s q)" "policy (se (pcbs ?t q)) = policy (se (pcbs s q))"
    "se_class (se (pcbs ?t q)) = se_class (se (pcbs s q))" for q
    by (auto simp: t upd_se_def p)
  have "queues_inv ?t"
    by (rule queues_inv_cong [OF _ eq(1-4)]) (use assms in \<open>auto simp: eq rr_running_def sched_inv_def\<close>)
  then show "rr_running c ?t" "normal_tasks ?t = normal_tasks s"
    using assms by (auto simp: rr_running_def sched_inv_def eq entity_ok_def normal_tasks_def prio_tasks_def)
  show "unat (slice ?t c) = unat (slice s c) - 1"
    using unat_dec [of "slice s c" "unat (slice s c)"]
    by (auto simp: t upd_se_def rr_task_tick_def word_less_nat_alt)
qed

lemma ticks_running:
  assumes "rr_running c s"
  shows "rr_running c ((sched_timer_tick_handler ^^ n) s)"
    "normal_tasks ((sched_timer_tick_handler ^^ n) s) = normal_tasks s"
    "unat (slice ((sched_timer_tick_handler ^^ n) s) c) = unat (slice s c) - n"
proof (induction n)
  case (Suc n)
  {
    case 1
    show ?case
      using tick_running(1) [OF Suc(1)] by simp
  next
    case 2
    show ?case
      using tick_running(2) [OF Suc(1)] Suc(2) by simp
  next
    case 3
    show ?case
      using tick_running(3) [OF Suc(1)] Suc(3) by simp
  }
qed (use assms in simp_all)

text \<open>A round: the current task uses up its slice, then \<open>schedule()\<close> runs.\<close>

definition rr_round :: "scheduler \<Rightarrow> scheduler option" where
  "rr_round s = do {
     c \<leftarrow> current s;
     map_option snd (schedule ((sched_timer_tick_handler ^^ unat (slice s c)) s))
   }"

fun rr_rounds :: "nat \<Rightarrow> scheduler \<Rightarrow> scheduler option" where
  "rr_rounds 0 s = Some s"
| "rr_rounds (Suc n) s = do { s \<leftarrow> rr_round s; rr_rounds n s }"

lemma rr_rounds_add: "rr_rounds (m + n) s = do { t \<leftarrow> rr_rounds m s; rr_rounds n t }"
proof (induction m arbitrary: s)
  case (Suc m)
  then show ?case
    by (cases "rr_round s") simp_all
qed simp

lemma rr_round_ok:
  assumes "rr_running c s" "normal_tasks s = x # xs"
  shows "\<exists>s'. rr_round s = Some s' \<and> rr_running x s' \<and> normal_tasks s' = xs @ [c]"
proof -
  let ?t = "(sched_timer_tick_handler ^^ unat (slice s c)) s"
  have "slice ?t c = 0"
    using ticks_running(3) [OF assms(1), of "unat (slice s c)"] by (simp add: unat_eq_zero)
  moreover have "current s = Some c"
    using assms(1) by (simp add: rr_running_def)
  ultimately show ?thesis
    using schedule_rr [of c ?t x xs] ticks_running(1,2) [OF assms(1), of "unat (slice s c)"] assms(2)
    by (auto simp: rr_round_def)
qed


subsection \<open>A concrete scheduler\<close>

definition demo_pcb :: "process_state \<Rightarrow> pcb" where
  "demo_pcb st = zero_pcb\<lparr>pid := 1, state := st, se := \<lparr>policy = SCHED_NORMAL, se_class = Some RR_CLASS, time_slice = 10,
     time_slice_total = 10, priority = 0, nice = 0, last_ran = 0\<rparr>\<rparr>"

text \<open>Task 1 runs, tasks 2 and 3 are queued.\<close>

definition demo_sched :: scheduler where
  "demo_sched =
     \<lparr>run_queue = [2, 3], current = Some 1, idle = None, sys_nr_running = 2, need_resched = False,
      rqs = (\<lambda>_. \<lparr>rq_class = Some PRIO_CLASS, queue = [], nr_running = 0, class_data = Some empty_prio_data\<rparr>)
        (SCHED_NORMAL := \<lparr>rq_class = Some RR_CLASS, queue = [2, 3], nr_running = 2, class_data = None\<rparr>),
      classes = (\<lambda>pol. Some (class_for pol)),
      pcbs = (\<lambda>_. demo_pcb PROC_READY)(1 := demo_pcb PROC_RUNNING)\<rparr>"

lemma demo_running: "rr_running 1 demo_sched" "normal_tasks demo_sched = [2, 3]"
proof -
  have q: "queued empty_prio_data = []" "levels_ok empty_prio_data"
    by (simp_all add: queued_def empty_prio_data_def levels_ok_def)
  show "normal_tasks demo_sched = [2, 3]"
    by (simp add: normal_tasks_def demo_sched_def)
  show "rr_running 1 demo_sched"
    by (simp add: rr_running_def sched_inv_def queues_inv_def demo_sched_def normal_tasks_def prio_tasks_def q
        entity_ok_def class_for_def demo_pcb_def)
qed


theorem schedule_conserves_tasks_witness:
  "sched_inv demo_sched \<and> (\<exists>r s'. schedule demo_sched = Some (r, s') \<and> runnable s' = {1, 2, 3})"
proof -
  have "sched_inv demo_sched" "runnable demo_sched = {1, 2, 3}"
    using demo_running(1) by (auto simp: rr_running_def runnable_def demo_sched_def demo_pcb_def)
  then show ?thesis
    using schedule_conserves_tasks [of demo_sched] by auto
qed

subsection \<open>What the priority class picks\<close>

lemma top_task_level:
  assumes "top_task ls = Some p"
  shows "\<exists>i < length ls. q_first (ls ! i) = Some p \<and> (\<forall>j < i. ls ! j = [])"
  using assms
proof (induction ls)
  case (Cons l ls)
  show ?case
  proof (cases l)
    case Nil
    then obtain i where "i < length ls" "q_first (ls ! i) = Some p" "\<forall>j < i. ls ! j = []"
      using Cons by (auto simp: top_task_def)
    then show ?thesis
      using Nil by (intro exI [of _ "Suc i"]) (auto simp: less_Suc_eq_0_disj)
  next
    case (Cons x xs)
    then show ?thesis
      using Cons.prems by (intro exI [of _ 0]) (auto simp: top_task_def q_first_def)
  qed
qed (simp add: top_task_def q_first_def)



subsection \<open>The counters of the priority class\<close>

text \<open>The priority class believes that a task is active, but none is.\<close>

definition stuck :: "addr \<Rightarrow> scheduler \<Rightarrow> bool" where
  "stuck a s \<longleftrightarrow> sched_inv s \<and> current s = Some a \<and> state (pcbs s a) = PROC_RUNNING \<and> normal_tasks s = [] \<and>
     (\<exists>d. class_data (rqs s SCHED_PRIORITY) = Some d \<and> concat (active d) = [] \<and> nr_active d \<noteq> 0)"

lemma stuck_pick: "levels_ok d \<Longrightarrow> concat (active d) = [] \<Longrightarrow> nr_active d \<noteq> 0 \<Longrightarrow> prio_pick_next_task d = (None, d)"
proof -
  assume d: "levels_ok d" "concat (active d) = []" "nr_active d \<noteq> 0"
  have "nat (find_highest_prio d) < length (active d)"
    using d(1) highest_range [of d] by (simp add: levels_ok_def)
  then have "active d ! nat (find_highest_prio d) = []"
    using d(2) by auto
  then show ?thesis
    using d(3) highest_range [of d] by (simp add: prio_pick_next_task_def Let_def q_first_def)
qed

lemma stuck_schedule:
  assumes "stuck a s"
  shows "schedule s = Some (None, sched_clear_resched s)" "stuck a (sched_clear_resched s)"
proof -
  let ?s = "sched_clear_resched s"
  have q: "queues_inv s"
    using assms by (simp add: stuck_def sched_inv_def)
  obtain d where d: "class_data (rqs s SCHED_PRIORITY) = Some d" "concat (active d) = []" "nr_active d \<noteq> 0" "levels_ok d"
    using assms queues_invD(3) [OF q] by (auto simp: stuck_def)
  have clr: "rqs ?s = rqs s" "current ?s = current s" "pcbs ?s = pcbs s" "run_queue ?s = run_queue s"
    "idle ?s = idle s" "sys_nr_running ?s = sys_nr_running s"
    by (simp_all add: sched_clear_resched_def)
  have put: "put_rq pol (rqs s pol) ?s = ?s" for pol
    by (simp add: put_rq_def clr [symmetric])
  have same: "(rqs s SCHED_PRIORITY)\<lparr>class_data := Some d\<rparr> = rqs s SCHED_PRIORITY"
    using d(1) by simp
  have p1: "pick_from SCHED_PRIORITY ?s = Some (None, ?s)"
    using queues_invD(2) [OF q] d(1) stuck_pick [OF d(4,2,3)]
    by (simp add: pick_from_def class_pick_next_def clr same put Let_def)
  have "unat (nr_running (rqs s SCHED_NORMAL)) = 0"
    using q assms by (simp add: queues_inv_def stuck_def)
  then have p2: "pick_from SCHED_NORMAL ?s = Some (None, ?s)"
    using queues_invD(1) [OF q] by (simp add: pick_from_def clr word_less_nat_alt Let_def)
  have "sched_pick_next_task ?s = Some (if slice s a > 0 then Some a else None, ?s)"
    using assms p1 p2 by (simp add: sched_pick_next_task_def stuck_def clr)
  moreover have "idle ?s = None"
    using q by (simp add: clr queues_inv_def)
  ultimately show "schedule s = Some (None, ?s)"
    using schedule_cases [of s _ ?s] assms by (simp add: stuck_def)
  have "queues_inv ?s"
    by (rule queues_inv_cong [OF q]) (simp_all add: clr)
  then show "stuck a ?s"
    using assms by (auto simp: stuck_def sched_inv_def clr normal_tasks_def)
qed

lemma stuck_tick: "stuck a s \<Longrightarrow> stuck a (sched_timer_tick_handler s)"
proof -
  assume s: "stuck a s"
  let ?t = "sched_timer_tick_handler s"
  have p: "policy (class_task_tick c e) = policy e" "se_class (class_task_tick c e) = se_class e" for c e
    by (auto simp: class_task_tick_def rr_task_tick_def prio_task_tick_def split: sched_class.splits)
  have eq: "run_queue ?t = run_queue s" "rqs ?t = rqs s" "idle ?t = idle s" "sys_nr_running ?t = sys_nr_running s"
    "current ?t = current s" "state (pcbs ?t q) = state (pcbs s q)" "policy (se (pcbs ?t q)) = policy (se (pcbs s q))"
    "se_class (se (pcbs ?t q)) = se_class (se (pcbs s q))" for q
    by (auto simp: sched_timer_tick_handler_def upd_se_def p split: option.splits)
  have "queues_inv ?t"
    by (rule queues_inv_cong [OF _ eq(1-4)]) (use s in \<open>auto simp: eq stuck_def sched_inv_def\<close>)
  then show "stuck a ?t"
    using s by (auto simp: stuck_def sched_inv_def eq entity_ok_def normal_tasks_def)
qed

lemma enqueue_idle: "sched_enqueue_task q h s = Some s' \<Longrightarrow> idle s' = idle s"
  by (auto simp: sched_enqueue_task_def put_rq_def Let_def bind_eq_Some_conv split: option.splits)

lemma enqueue_prio:
  assumes "entity_ok (se (pcbs s p))" "policy (se (pcbs s p)) = SCHED_PRIORITY"
    "class_data (rqs s SCHED_PRIORITY) = Some d" "sched_enqueue_task (Some p) h s = Some s'"
  shows "class_data (rqs s' SCHED_PRIORITY) = Some (snd (prio_enqueue_task p (se (pcbs s p)) h (rqs s SCHED_PRIORITY, d)))"
    "normal_tasks s' = normal_tasks s" "pcbs s' = pcbs s"
  using assms
  by (auto simp: sched_enqueue_task_def entity_ok_def class_for_def get_rq_def class_enqueue_def put_rq_def
      with_prio_data_def Let_def normal_tasks_def split: prod.splits)

lemma dequeue_prio:
  assumes "entity_ok (se (pcbs s p))" "policy (se (pcbs s p)) = SCHED_PRIORITY"
    "class_data (rqs s SCHED_PRIORITY) = Some d" "sched_dequeue_task (Some p) s = Some s'"
  shows "class_data (rqs s' SCHED_PRIORITY) = Some (snd (prio_dequeue_task p (se (pcbs s p)) (rqs s SCHED_PRIORITY, d)))"
    "normal_tasks s' = normal_tasks s"
  using assms
  by (auto simp: sched_dequeue_task_def entity_ok_def class_for_def get_rq_def class_dequeue_def put_rq_def
      with_prio_data_def Let_def normal_tasks_def split: prod.splits)

text \<open>The data of the priority class after the switch.\<close>

lemma switch_counters:
  assumes d: "levels_ok d" "counts_ok d" "concat (active d) = []" "concat (expired d) = [a]"
    and "time_slice eb = 0" "time_slice ea = 0"
  shows "let d1 = prio_swap_active_expired d;
             d2 = snd (prio_enqueue_task b eb False (rq, d1));
             d3 = snd (prio_dequeue_task a ea (rq', d2))
         in concat (active d3) = [] \<and> nr_active d3 \<noteq> 0"
proof -
  have n: "nr_active d = 0" "nr_expired d = 1"
    using d(2-4) by (simp_all add: counts_ok_def word_unat_eq_iff)
  have "concat (map (q_del a) ls) = q_del a (concat ls)" for ls
    by (induction ls) (simp_all add: q_del_def)
  then show ?thesis
    using assms n
    by (simp add: prio_swap_eq prio_enqueue_task_def prio_dequeue_task_def Let_def del: concat_eq_Nil_conv)
qed

text \<open>Two tasks of the priority class, the running one and the queued one both out of time.\<close>

definition two_expired :: "addr \<Rightarrow> addr \<Rightarrow> scheduler \<Rightarrow> bool" where
  "two_expired a b s \<longleftrightarrow> sched_inv s \<and> normal_tasks s = [] \<and> current s = Some b \<and> state (pcbs s b) = PROC_RUNNING \<and>
     policy (se (pcbs s b)) = SCHED_PRIORITY \<and> slice s a = 0 \<and> slice s b = 0 \<and>
     (\<exists>d. class_data (rqs s SCHED_PRIORITY) = Some d \<and> counts_ok d \<and> concat (active d) = [] \<and> concat (expired d) = [a])"

lemma pick_expired:
  assumes "two_expired a b s" "class_data (rqs s SCHED_PRIORITY) = Some d"
  shows "sched_pick_next_task (sched_clear_resched s) = Some (Some a,
    put_rq SCHED_PRIORITY ((rqs s SCHED_PRIORITY)\<lparr>class_data := Some (prio_swap_active_expired d)\<rparr>) (sched_clear_resched s))"
proof -
  have q: "queues_inv s"
    using assms(1) by (simp add: two_expired_def sched_inv_def)
  have d: "levels_ok d" "counts_ok d" "concat (active d) = []" "concat (expired d) = [a]"
    using assms queues_invD(3) [OF q] by (auto simp: two_expired_def)
  have pk: "prio_pick_next_task d = (Some a, prio_swap_active_expired d)"
    using prio_pick_ok [OF d(1,2)] d(3,4) by (simp add: top_task_def q_first_def)
  have "length (prio_tasks s) = 1"
    using assms(2) d(3,4) by (simp add: prio_tasks_def queued_def)
  then have "nr_running (rqs s SCHED_PRIORITY) > 0"
    using q by (simp add: queues_inv_def word_less_nat_alt)
  then show ?thesis
    using assms queues_invD(2) [OF q] pk
    by (simp add: sched_pick_next_task_def two_expired_def sched_clear_resched_def pick_from_def Let_def class_pick_next_def)
qed

lemma two_expired_stuck:
  assumes s: "two_expired a b s"
  shows "\<exists>s'. schedule s = Some (Some a, s') \<and> stuck a s' \<and> b \<in> set (run_queue s')"
proof -
  have inv: "sched_inv s" and q: "queues_inv s" and idle: "idle s = None"
    and b: "current s = Some b" "b \<notin> set (run_queue s)" "entity_ok (se (pcbs s b))" "policy (se (pcbs s b)) = SCHED_PRIORITY"
      "state (pcbs s b) = PROC_RUNNING" "normal_tasks s = []" "slice s a = 0" "slice s b = 0"
    using s by (auto simp: two_expired_def sched_inv_def queues_inv_def)
  obtain d where d: "class_data (rqs s SCHED_PRIORITY) = Some d" "levels_ok d" "counts_ok d"
      "concat (active d) = []" "concat (expired d) = [a]"
    using s queues_invD(3) [OF q] by (auto simp: two_expired_def)
  have a: "a \<in> set (run_queue s)" "entity_ok (se (pcbs s a))" "policy (se (pcbs s a)) = SCHED_PRIORITY"
    using q d(1,4,5) queues_invD(4) [OF q] by (auto simp: queues_inv_def prio_tasks_def queued_def)
  then have ab: "a \<noteq> b"
    using b(2) by auto
  let ?t = "put_rq SCHED_PRIORITY ((rqs s SCHED_PRIORITY)\<lparr>class_data := Some (prio_swap_active_expired d)\<rparr>) (sched_clear_resched s)"
  have t: "idle ?t = None" "pcbs ?t = pcbs s" "normal_tasks ?t = []"
    "class_data (rqs ?t SCHED_PRIORITY) = Some (prio_swap_active_expired d)"
    using idle b(6) by (simp_all add: put_rq_def sched_clear_resched_def normal_tasks_def)
  obtain s' where s': "schedule s = Some (Some a, s')" "sched_inv s'" "runnable s' = runnable s" "current s' = Some a"
      "state (pcbs s' a) = PROC_RUNNING"
    using schedule_inv [OF inv] schedule_cases [OF pick_expired [OF s d(1)] t(1)] ab b(1)
    by (auto simp: bind_eq_Some_conv split: option.splits)
  obtain s1 s2 where s12: "sched_enqueue_task (Some b) False (set_state b PROC_READY ?t) = Some s1"
      "sched_dequeue_task (Some a) s1 = Some s2"
      "s' = sched_reset_time_slice (Some a) ((set_state a PROC_RUNNING s2)\<lparr>current := Some a\<rparr>)"
    using s'(1) schedule_cases [OF pick_expired [OF s d(1)] t(1)] ab b(1,5) t(1,2) idle a
    by (auto simp: put_back_def Let_def bind_eq_Some_conv split: if_splits dest: enqueue_idle)
  note e = enqueue_prio [OF _ _ _ s12(1)]
  have 1: "class_data (rqs s1 SCHED_PRIORITY) = Some (snd (prio_enqueue_task b (se (pcbs s b)) False
        (rqs ?t SCHED_PRIORITY, prio_swap_active_expired d)))"
      "normal_tasks s1 = []" "se (pcbs s1 a) = se (pcbs s a)"
    using e [of "prio_swap_active_expired d"] b(3,4) t by auto
  note e2 = dequeue_prio [OF _ _ 1(1) s12(2)]
  have "\<exists>d. class_data (rqs s2 SCHED_PRIORITY) = Some d \<and> concat (active d) = [] \<and> nr_active d \<noteq> 0" "normal_tasks s2 = []"
    using e2 a 1(2,3) switch_counters [OF d(2-5) b(8,7)] by (simp_all add: Let_def)
  moreover have "rqs s' = rqs s2"
    by (auto simp: s12(3) sched_reset_time_slice_def upd_se_def set_state_def split: option.splits)
  ultimately have "stuck a s'"
    using s' by (auto simp: stuck_def normal_tasks_def)
  moreover have "b \<in> set (run_queue s')"
    using s'(3,4) b(1,5) ab by (auto simp: runnable_def)
  ultimately show ?thesis
    using s'(1) by blast
qed

text \<open>A timer interrupt or a call of \<open>schedule()\<close>.\<close>

definition sched_event :: "bool \<Rightarrow> scheduler \<Rightarrow> scheduler option" where
  "sched_event tick s = (if tick then Some (sched_timer_tick_handler s) else map_option snd (schedule s))"

text \<open>
  The guess of \<^verbatim>\<open>prio_dequeue_task\<close> about the array a task was on (expired, if its time
  slice is 0) starves tasks. When the running task \<open>b\<close> and the only queued task \<open>a\<close> of the
  priority class have both used up their slices, with all counters correct, \<^verbatim>\<open>schedule()\<close> switches to
  \<open>a\<close> and decrements the counter of the wrong array; from then on, whatever the sequence of
  timer interrupts and calls of \<^verbatim>\<open>schedule()\<close>, \<open>a\<close> keeps the processor and \<open>b\<close> stays queued.
\<close>

theorem prio_counter_starvation:
  assumes "two_expired a b s"
  shows "\<exists>s'. schedule s = Some (Some a, s') \<and>
    (\<forall>events. \<exists>t. fold_opt sched_event events s' = Some t \<and> current t = Some a \<and> b \<in> set (run_queue t))"
proof -
  obtain s' where s': "schedule s = Some (Some a, s')" "stuck a s'" "b \<in> set (run_queue s')"
    using two_expired_stuck [OF assms] by blast
  have "\<exists>t. fold_opt sched_event events s' = Some t \<and> stuck a t \<and> b \<in> set (run_queue t)" for events
  proof (rule fold_opt_rule [where P = "\<lambda>_ t. stuck a t \<and> b \<in> set (run_queue t)"])
    fix ys :: "bool list" and y t
    assume t: "stuck a t \<and> b \<in> set (run_queue t)"
    have "run_queue (sched_timer_tick_handler t) = run_queue t" "run_queue (sched_clear_resched t) = run_queue t"
      by (auto simp: sched_timer_tick_handler_def upd_se_def sched_clear_resched_def split: option.splits)
    then show "\<exists>t'. sched_event y t = Some t' \<and> stuck a t' \<and> b \<in> set (run_queue t')"
      using t stuck_tick [of a t] stuck_schedule [of a t] by (simp add: sched_event_def)
  qed (use s' in simp)
  then show ?thesis
    using s'(1) by (fastforce simp: stuck_def)
qed

definition starve_sched :: scheduler where
  "starve_sched =
     (let pcb = zero_pcb\<lparr>pid := 1, state := PROC_READY, se := \<lparr>policy = SCHED_PRIORITY, se_class = Some PRIO_CLASS, time_slice = 0,
        time_slice_total = 20, priority = 64, nice = 0, last_ran = 0\<rparr>\<rparr> in
      \<lparr>run_queue = [1], current = Some 2, idle = None, sys_nr_running = 1, need_resched = False,
       rqs = (\<lambda>_. \<lparr>rq_class = Some PRIO_CLASS, queue = [], nr_running = 1, class_data = Some
           (empty_prio_data\<lparr>expired := (replicate 128 [])[64 := [1]], nr_expired := 1\<rparr>)\<rparr>)
         (SCHED_NORMAL := \<lparr>rq_class = Some RR_CLASS, queue = [], nr_running = 0, class_data = None\<rparr>),
       classes = (\<lambda>pol. Some (class_for pol)),
       pcbs = (\<lambda>_. pcb)(2 := pcb\<lparr>state := PROC_RUNNING\<rparr>)\<rparr>)"

lemma starve_two_expired: "two_expired 1 2 starve_sched"
proof -
  have "concat ((replicate 128 [])[64 := [1 :: addr]]) = [1]"
    by (simp add: upd_conv_take_nth_drop)
  then show ?thesis
    by (simp add: two_expired_def sched_inv_def queues_inv_def starve_sched_def normal_tasks_def prio_tasks_def
        entity_ok_def class_for_def queued_def levels_ok_def counts_ok_def empty_prio_data_def PRIO_LEVELS_def Let_def)
qed

theorem prio_counter_starvation_witness:
  "\<exists>s'. schedule starve_sched = Some (Some 1, s') \<and>
     (\<exists>t. fold_opt sched_event [True, False, True, False] s' = Some t \<and> 2 \<in> set (run_queue t))"
  using prio_counter_starvation [OF starve_two_expired] by blast

end
