(* ===== verification/Kheap.thy ===== *)
theory Kheap
  imports Memory Bits
begin

text \<open>
  The kernel heap (\<open>kernel/mm/heap/heap.c\<close>): a best-fit allocator whose block headers lie in the
  memory they manage.

  The state is \<open>s_heap\<close> together with the byte memory, and the fields of a header are loads and
  stores at its address, so that a header that overlaps another block overwrites it as on the
  machine. \<open>NULL\<close> is address 0. The loops over the free list follow the \<open>next\<close> pointers in memory
  and may not end on a corrupted list: not returning and a failed assertion are \<open>None\<close>. Whether
  \<open>vmm_alloc_pages_at\<close> maps the pages that the heap asks for is the argument \<open>vmm\<close>. Every operation
  holds \<open>s_heap_lock\<close> while it works on the state; \<open>kfree\<close> holds it twice, which is why it is the
  sequence of \<open>kfree_mark\<close> and \<open>kfree_insert\<close>.
\<close>

subsection \<open>State\<close>

datatype heap_result = HEAP_OK | HEAP_ERR_NOT_INIT | HEAP_ERR_OOM | HEAP_ERR_INVALID
  | HEAP_ERR_DOUBLE_FREE | HEAP_ERR_CORRUPTED

record heap_stats =
  hs_total_bytes :: u64
  hs_used_bytes :: u64
  hs_free_bytes :: u64
  hs_total_blocks :: u64
  hs_used_blocks :: u64
  hs_free_blocks :: u64
  hs_alloc_count :: u64
  hs_free_count :: u64
  hs_expand_count :: u64

record heap_state =
  heap_start :: addr
  heap_end :: addr
  heap_brk :: addr
  free_list :: addr
  hstats :: heap_stats
  h_initialized :: bool
  hmem :: mem

definition HEAP_ALIGN :: u64 where "HEAP_ALIGN = 16"
definition HEAP_MIN_BLOCK :: u64 where "HEAP_MIN_BLOCK = 32"
definition HEAP_INIT_PAGES :: u64 where "HEAP_INIT_PAGES = 16"
definition HEAP_BLOCK_MAGIC :: u32 where "HEAP_BLOCK_MAGIC = 0x00114514"
definition KERNEL_HEAP_BASE :: addr where "KERNEL_HEAP_BASE = 0xFFFFFFFF81000000"
definition KERNEL_HEAP_MAX :: addr where "KERNEL_HEAP_MAX = KERNEL_HEAP_BASE + 128 * 1024 * 1024"

lemmas heap_consts = HEAP_ALIGN_def HEAP_MIN_BLOCK_def HEAP_INIT_PAGES_def

text \<open>
  The fields of a \<open>heap_block_t\<close>: \<open>size\<close> at offset 0, \<open>used\<close> at 8, \<open>prev\<close> at 16, \<open>next\<close> at 24,
  \<open>magic\<close> at 32; with \<open>_padding\<close> and the alignment of 16 the structure has 48 bytes.
\<close>

definition HEADER :: u64 where "HEADER = 48"

definition blk_size :: "heap_state \<Rightarrow> addr \<Rightarrow> u64" where
  "blk_size s b = mload 8 (hmem s) b"

definition blk_used :: "heap_state \<Rightarrow> addr \<Rightarrow> bool" where
  "blk_used s b \<longleftrightarrow> (mload 1 (hmem s) (b + 8) :: u8) \<noteq> 0"

definition blk_prev :: "heap_state \<Rightarrow> addr \<Rightarrow> addr" where
  "blk_prev s b = mload 8 (hmem s) (b + 16)"

definition blk_next :: "heap_state \<Rightarrow> addr \<Rightarrow> addr" where
  "blk_next s b = mload 8 (hmem s) (b + 24)"

definition blk_magic :: "heap_state \<Rightarrow> addr \<Rightarrow> u32" where
  "blk_magic s b = mload 4 (hmem s) (b + 32)"

definition set_size :: "addr \<Rightarrow> u64 \<Rightarrow> heap_state \<Rightarrow> heap_state" where
  "set_size b v s = s\<lparr>hmem := mstore 8 b v (hmem s)\<rparr>"

definition set_used :: "addr \<Rightarrow> bool \<Rightarrow> heap_state \<Rightarrow> heap_state" where
  "set_used b v s = s\<lparr>hmem := mstore 1 (b + 8) (if v then 1 else 0 :: u8) (hmem s)\<rparr>"

definition set_bprev :: "addr \<Rightarrow> addr \<Rightarrow> heap_state \<Rightarrow> heap_state" where
  "set_bprev b v s = s\<lparr>hmem := mstore 8 (b + 16) v (hmem s)\<rparr>"

definition set_bnext :: "addr \<Rightarrow> addr \<Rightarrow> heap_state \<Rightarrow> heap_state" where
  "set_bnext b v s = s\<lparr>hmem := mstore 8 (b + 24) v (hmem s)\<rparr>"

definition set_magic :: "addr \<Rightarrow> u32 \<Rightarrow> heap_state \<Rightarrow> heap_state" where
  "set_magic b v s = s\<lparr>hmem := mstore 4 (b + 32) v (hmem s)\<rparr>"

definition upd_stats :: "(heap_stats \<Rightarrow> heap_stats) \<Rightarrow> heap_state \<Rightarrow> heap_state" where
  "upd_stats f s = s\<lparr>hstats := f (hstats s)\<rparr>"

subsection \<open>Helpers\<close>

definition align_size :: "u64 \<Rightarrow> u64" where
  "align_size sz = (sz + HEAP_ALIGN - 1) AND NOT (HEAP_ALIGN - 1)"

definition total_block_size :: "u64 \<Rightarrow> u64" where
  "total_block_size user_size = align_size user_size + HEADER"

definition block_to_ptr :: "addr \<Rightarrow> addr" where
  "block_to_ptr block = block + HEADER"

definition ptr_to_block :: "addr \<Rightarrow> heap_state \<Rightarrow> addr" where
  "ptr_to_block addr s =
     (let orig = mload 8 (hmem s) (addr - 8) in
      if orig \<ge> heap_start s \<and> orig < heap_brk s \<and> orig AND 0xF = 0 \<and>
         blk_magic s (orig - HEADER) = HEAP_BLOCK_MAGIC \<and>
         addr \<ge> orig \<and> addr < orig + blk_size s (orig - HEADER) - HEADER
      then orig - HEADER
      else addr - HEADER)"

definition next_block :: "addr \<Rightarrow> heap_state \<Rightarrow> addr" where
  "next_block block s = block + blk_size s block"

definition is_last_block :: "addr \<Rightarrow> heap_state \<Rightarrow> bool" where
  "is_last_block block s \<longleftrightarrow> next_block block s \<ge> heap_brk s \<or> next_block block s \<ge> heap_end s"

definition validate_block :: "addr \<Rightarrow> heap_state \<Rightarrow> bool" where
  "validate_block block s =
     (if block = 0 then False
      else if blk_magic s block \<noteq> HEAP_BLOCK_MAGIC then False
      else if block < heap_start s \<or> block \<ge> heap_end s then False
      else if block AND (HEAP_ALIGN - 1) \<noteq> 0 then False
      else if blk_size s block < HEADER \<or> block + blk_size s block > heap_end s then False
      else True)"

definition remove_from_free_list :: "addr \<Rightarrow> heap_state \<Rightarrow> heap_state option" where
  "remove_from_free_list block s = do {
     ccos_assert (\<not> blk_used s block);
     let prev = blk_prev s block;
     let next = blk_next s block;
     let s = (if prev \<noteq> 0 then set_bnext prev next s else s\<lparr>free_list := next\<rparr>);
     let s = (if next \<noteq> 0 then set_bprev next prev s else s);
     let s = set_bprev block 0 s;
     Some (set_bnext block 0 s)
   }"

text \<open>The loop that finds the last free block before \<open>block\<close> and the first one behind it.\<close>

partial_function (option) free_around ::
  "heap_state \<Rightarrow> addr \<Rightarrow> addr \<Rightarrow> addr \<Rightarrow> (addr \<times> addr) option" where
  "free_around s block prev cur =
     (if cur \<noteq> 0 \<and> cur < block then free_around s block cur (blk_next s cur)
      else Some (prev, cur))"

definition insert_to_free_list :: "addr \<Rightarrow> heap_state \<Rightarrow> heap_state option" where
  "insert_to_free_list block s = do {
     ccos_assert (\<not> blk_used s block);
     ccos_assert (blk_prev s block = 0);
     ccos_assert (blk_next s block = 0);
     (prev, cur) \<leftarrow> free_around s block 0 (free_list s);
     let s = set_bnext block cur s;
     let s = (if cur \<noteq> 0 then set_bprev cur block s else s);
     let s = set_bprev block prev s;
     Some (if prev \<noteq> 0 then set_bnext prev block s else s\<lparr>free_list := block\<rparr>)
   }"

partial_function (option) best_fit :: "heap_state \<Rightarrow> u64 \<Rightarrow> addr \<Rightarrow> addr \<Rightarrow> addr option" where
  "best_fit s sz best cur =
     (if cur = 0 then Some best
      else if blk_size s cur \<ge> sz \<and> (best = 0 \<or> blk_size s cur < blk_size s best)
      then (if blk_size s cur = sz then Some cur else best_fit s sz cur (blk_next s cur))
      else best_fit s sz best (blk_next s cur))"

definition find_best_fit :: "u64 \<Rightarrow> heap_state \<Rightarrow> addr option" where
  "find_best_fit sz s = best_fit s sz 0 (free_list s)"

text \<open>The stores that make a free block of \<open>sz\<close> bytes.\<close>

definition init_free_block :: "addr \<Rightarrow> u64 \<Rightarrow> heap_state \<Rightarrow> heap_state" where
  "init_free_block b sz s =
     set_bnext b 0 (set_bprev b 0 (set_magic b HEAP_BLOCK_MAGIC (set_used b False (set_size b sz s))))"

definition split_block :: "addr \<Rightarrow> u64 \<Rightarrow> heap_state \<Rightarrow> heap_state option" where
  "split_block block needed_size s =
     (let remaining = blk_size s block - needed_size in
      if remaining \<ge> HEAP_MIN_BLOCK then do {
        let new_block = block + needed_size;
        let s = init_free_block new_block remaining s;
        let s = set_size block needed_size s;
        s \<leftarrow> insert_to_free_list new_block s;
        Some (upd_stats (\<lambda>t. t\<lparr>hs_total_blocks := hs_total_blocks t + 1,
          hs_free_blocks := hs_free_blocks t + 1, hs_free_bytes := hs_free_bytes t + remaining\<rparr>) s)
      }
      else Some s)"

definition merged_stats :: "heap_state \<Rightarrow> heap_state" where
  "merged_stats = upd_stats (\<lambda>t. t\<lparr>hs_total_blocks := hs_total_blocks t - 1,
     hs_free_blocks := hs_free_blocks t - 1\<rparr>)"

definition coalesce_next :: "addr \<Rightarrow> heap_state \<Rightarrow> heap_state option" where
  "coalesce_next block s =
     (let next = next_block block s in
      if \<not> is_last_block block s \<and> \<not> blk_used s next \<and> validate_block next s then do {
        s \<leftarrow> remove_from_free_list next s;
        let s = set_size block (blk_size s block + blk_size s next) s;
        Some (merged_stats s)
      }
      else Some s)"

definition coalesce_prev :: "addr \<Rightarrow> heap_state \<Rightarrow> heap_state option" where
  "coalesce_prev block s = do {
     (prev_in_free, cur) \<leftarrow> free_around s block 0 (free_list s);
     if prev_in_free \<noteq> 0 \<and> prev_in_free + blk_size s prev_in_free = block then do {
       let s = set_size prev_in_free (blk_size s prev_in_free + blk_size s block) s;
       s \<leftarrow> remove_from_free_list block s;
       Some (merged_stats s)
     }
     else Some s
   }"

definition coalesce_block :: "addr \<Rightarrow> heap_state \<Rightarrow> heap_state option" where
  "coalesce_block block s = do {
     ccos_assert (\<not> blk_used s block);
     s \<leftarrow> coalesce_next block s;
     coalesce_prev block s
   }"

definition expand_heap_locked ::
  "(addr \<Rightarrow> u64 \<Rightarrow> bool) \<Rightarrow> u64 \<Rightarrow> heap_state \<Rightarrow> (heap_result \<times> heap_state) option" where
  "expand_heap_locked vmm min_needed s =
     (let page_count = (min_needed + 4096 - 1) div 4096;
          page_count = (if page_count < 4 then 4 else page_count);
          target_vaddr = heap_brk s;
          target_vaddr = (if target_vaddr = 0 then KERNEL_HEAP_BASE else target_vaddr);
          target_vaddr = (target_vaddr + 4096 - 1) AND NOT (4096 - 1)
      in if \<not> vmm target_vaddr page_count then Some (HEAP_ERR_OOM, s)
      else do {
        let new_block = target_vaddr;
        let s = init_free_block new_block (page_count * 4096) s;
        (_, m) \<leftarrow> memset (target_vaddr + HEADER) 0 (blk_size s new_block - HEADER) (hmem s);
        let s = s\<lparr>hmem := m\<rparr>;
        s \<leftarrow> insert_to_free_list new_block s;
        let s = s\<lparr>heap_brk := target_vaddr + blk_size s new_block\<rparr>;
        let sz = blk_size s new_block;
        let s = upd_stats (\<lambda>t. t\<lparr>hs_total_bytes := hs_total_bytes t + sz,
          hs_free_bytes := hs_free_bytes t + sz, hs_total_blocks := hs_total_blocks t + 1,
          hs_free_blocks := hs_free_blocks t + 1, hs_expand_count := hs_expand_count t + 1\<rparr>) s;
        s \<leftarrow> coalesce_block new_block s;
        Some (HEAP_OK, s)
      })"

subsection \<open>The interface\<close>

definition zero_stats :: heap_stats where
  "zero_stats = \<lparr>hs_total_bytes = 0, hs_used_bytes = 0, hs_free_bytes = 0, hs_total_blocks = 0,
     hs_used_blocks = 0, hs_free_blocks = 0, hs_alloc_count = 0, hs_free_count = 0, hs_expand_count = 0\<rparr>"

definition heap_init :: "(addr \<Rightarrow> u64 \<Rightarrow> bool) \<Rightarrow> heap_state \<Rightarrow> (heap_result \<times> heap_state) option" where
  "heap_init vmm s =
     (if h_initialized s then Some (HEAP_OK, s)
      else do {
        let s = \<lparr>heap_start = KERNEL_HEAP_BASE, heap_end = KERNEL_HEAP_MAX, heap_brk = 0,
                 free_list = 0, hstats = zero_stats, h_initialized = False, hmem = hmem s\<rparr>;
        (r, s) \<leftarrow> expand_heap_locked vmm (HEAP_INIT_PAGES * 4096) s;
        if r \<noteq> HEAP_OK then Some (r, s)
        else Some (HEAP_OK, s\<lparr>heap_start := free_list s, h_initialized := True\<rparr>)
      })"

text \<open>The end of \<open>kmalloc\<close>, from the block that was found.\<close>

definition take_block :: "addr \<Rightarrow> u64 \<Rightarrow> heap_state \<Rightarrow> (addr \<times> heap_state) option" where
  "take_block block total_size s = do {
     s \<leftarrow> remove_from_free_list block s;
     s \<leftarrow> split_block block total_size s;
     let s = set_used block True s;
     let sz = blk_size s block;
     let s = upd_stats (\<lambda>t. t\<lparr>hs_used_bytes := hs_used_bytes t + sz,
       hs_free_bytes := hs_free_bytes t - sz, hs_used_blocks := hs_used_blocks t + 1,
       hs_free_blocks := hs_free_blocks t - 1, hs_alloc_count := hs_alloc_count t + 1\<rparr>) s;
     Some (block_to_ptr block, s)
   }"

definition kmalloc ::
  "(addr \<Rightarrow> u64 \<Rightarrow> bool) \<Rightarrow> u64 \<Rightarrow> heap_state \<Rightarrow> (addr \<times> heap_state) option" where
  "kmalloc vmm sz s =
     (if \<not> h_initialized s \<or> sz = 0 then Some (0, s)
      else do {
        let total_size = total_block_size sz;
        block \<leftarrow> find_best_fit total_size s;
        if block \<noteq> 0 then take_block block total_size s
        else do {
          (r, s) \<leftarrow> expand_heap_locked vmm total_size s;
          if r \<noteq> HEAP_OK then Some (0, s)
          else do {
            block \<leftarrow> find_best_fit total_size s;
            if block = 0 then Some (0, s) else take_block block total_size s
          }
        }
      })"

text \<open>The first critical section of \<open>kfree\<close>: the block to insert, or \<open>None\<close> for an early return.\<close>

definition kfree_mark :: "addr \<Rightarrow> heap_state \<Rightarrow> addr option \<times> heap_state" where
  "kfree_mark ptr s =
     (if \<not> h_initialized s \<or> ptr = 0 then (None, s)
      else
        let block = ptr_to_block ptr s in
        if \<not> validate_block block s then (None, s)
        else if \<not> blk_used s block then (None, s)
        else
          let s = set_used block False s;
              sz = blk_size s block;
              s = upd_stats (\<lambda>t. t\<lparr>hs_used_bytes := hs_used_bytes t - sz,
                hs_free_bytes := hs_free_bytes t + sz, hs_used_blocks := hs_used_blocks t - 1,
                hs_free_blocks := hs_free_blocks t + 1, hs_free_count := hs_free_count t + 1\<rparr>) s
          in (Some block, s))"

definition kfree_insert :: "addr \<Rightarrow> heap_state \<Rightarrow> heap_state option" where
  "kfree_insert block s = do { s \<leftarrow> insert_to_free_list block s; coalesce_block block s }"

definition kfree :: "addr \<Rightarrow> heap_state \<Rightarrow> heap_state option" where
  "kfree ptr s =
     (case kfree_mark ptr s of (None, s) \<Rightarrow> Some s | (Some block, s) \<Rightarrow> kfree_insert block s)"

definition krealloc ::
  "(addr \<Rightarrow> u64 \<Rightarrow> bool) \<Rightarrow> addr \<Rightarrow> u64 \<Rightarrow> heap_state \<Rightarrow> (addr \<times> heap_state) option" where
  "krealloc vmm ptr new_size s =
     (if ptr = 0 then kmalloc vmm new_size s
      else if new_size = 0 then map_option (\<lambda>s. (0, s)) (kfree ptr s)
      else if \<not> h_initialized s then Some (0, s)
      else
        let old_block = ptr_to_block ptr s in
        if \<not> validate_block old_block s \<or> \<not> blk_used s old_block then Some (0, s)
        else
          let old_user_size = blk_size s old_block - HEADER in
          if total_block_size new_size \<le> blk_size s old_block then Some (ptr, s)
          else do {
            (new_ptr, s) \<leftarrow> kmalloc vmm new_size s;
            if new_ptr = 0 then Some (0, s)
            else do {
              let copy_size = (if old_user_size < new_size then old_user_size else new_size);
              (_, m) \<leftarrow> memcpy new_ptr ptr copy_size (hmem s);
              s \<leftarrow> kfree ptr (s\<lparr>hmem := m\<rparr>);
              Some (new_ptr, s)
            }
          })"

definition kmalloc_aligned ::
  "(addr \<Rightarrow> u64 \<Rightarrow> bool) \<Rightarrow> u64 \<Rightarrow> u64 \<Rightarrow> heap_state \<Rightarrow> (addr \<times> heap_state) option" where
  "kmalloc_aligned vmm sz alignment s =
     (if \<not> h_initialized s then Some (0, s)
      else if sz = 0 then Some (0, s)
      else if alignment = 0 \<or> alignment AND (alignment - 1) \<noteq> 0 then Some (0, s)
      else do {
        let alignment = (if alignment < HEAP_ALIGN then HEAP_ALIGN else alignment);
        let total_size = total_block_size sz + alignment + 8;
        (raw_ptr, s) \<leftarrow> kmalloc vmm total_size s;
        if raw_ptr = 0 then Some (0, s)
        else do {
          let aligned_addr = align_up (raw_ptr + 8) alignment;
          Some (aligned_addr, s\<lparr>hmem := mstore 8 (aligned_addr - 8) raw_ptr (hmem s)\<rparr>)
        }
      })"

text \<open>\<open>heap_get_stats\<close> walks the blocks; the walk does not end when a size is zero.\<close>

definition count_block :: "addr \<Rightarrow> heap_state \<Rightarrow> heap_stats \<Rightarrow> heap_stats" where
  "count_block block s t =
     (if validate_block block s then
        let user_bytes = blk_size s block - HEADER;
            t = t\<lparr>hs_total_blocks := hs_total_blocks t + 1, hs_total_bytes := hs_total_bytes t + user_bytes\<rparr>
        in if blk_used s block
           then t\<lparr>hs_used_blocks := hs_used_blocks t + 1, hs_used_bytes := hs_used_bytes t + user_bytes\<rparr>
           else t\<lparr>hs_free_blocks := hs_free_blocks t + 1, hs_free_bytes := hs_free_bytes t + user_bytes\<rparr>
      else t)"

partial_function (option) stats_walk :: "heap_state \<Rightarrow> addr \<Rightarrow> heap_stats \<Rightarrow> heap_stats option" where
  "stats_walk s block t =
     (if block < heap_brk s then stats_walk s (block + blk_size s block) (count_block block s t)
      else Some t)"

definition heap_get_stats ::
  "heap_stats option \<Rightarrow> heap_state \<Rightarrow> (heap_result \<times> heap_stats option) option" where
  "heap_get_stats stats s =
     (if \<not> h_initialized s then Some (HEAP_ERR_NOT_INIT, stats)
      else if stats = None then Some (HEAP_ERR_INVALID, stats)
      else do {
        t \<leftarrow> stats_walk s (heap_start s)
          (zero_stats\<lparr>hs_alloc_count := hs_alloc_count (hstats s), hs_free_count := hs_free_count (hstats s),
             hs_expand_count := hs_expand_count (hstats s)\<rparr>);
        Some (HEAP_OK, Some t)
      })"

end
