(* ===== verification/Kheap_Free.thy ===== *)
theory Kheap_Free
  imports Kheap Klist
begin

text \<open>
  Block headers and the free list of the kernel heap.

  The fields of headers that do not overlap can be treated as separate variables; the blocks that
  tile the heap are such headers. The free list through the headers is a ring of \<open>Klist\<close>, on which
  \<open>remove_from_free_list\<close>, \<open>insert_to_free_list\<close> and the best-fit search are shown correct.
\<close>

subsection \<open>Header fields in memory\<close>

lemma field_same [simp]:
  "blk_size (set_size b w s) b = w"
  "blk_used (set_used b u s) b = u"
  "blk_prev (set_bprev b w s) b = w"
  "blk_next (set_bnext b w s) b = w"
  "blk_magic (set_magic b m s) b = m"
  by (simp_all add: blk_size_def set_size_def blk_used_def set_used_def blk_prev_def set_bprev_def
      blk_next_def set_bnext_def blk_magic_def set_magic_def mload_mstore_same)

lemmas field_defs = blk_size_def set_size_def blk_used_def set_used_def blk_prev_def set_bprev_def
  blk_next_def set_bnext_def blk_magic_def set_magic_def

lemma field_diff [simp]:
  "blk_size (set_used b u s) b = blk_size s b"
  "blk_size (set_bprev b w s) b = blk_size s b"
  "blk_size (set_bnext b w s) b = blk_size s b"
  "blk_size (set_magic b mg s) b = blk_size s b"
  "blk_used (set_size b w s) b = blk_used s b"
  "blk_used (set_bprev b w s) b = blk_used s b"
  "blk_used (set_bnext b w s) b = blk_used s b"
  "blk_used (set_magic b mg s) b = blk_used s b"
  "blk_prev (set_size b w s) b = blk_prev s b"
  "blk_prev (set_used b u s) b = blk_prev s b"
  "blk_prev (set_bnext b w s) b = blk_prev s b"
  "blk_prev (set_magic b mg s) b = blk_prev s b"
  "blk_next (set_size b w s) b = blk_next s b"
  "blk_next (set_used b u s) b = blk_next s b"
  "blk_next (set_bprev b w s) b = blk_next s b"
  "blk_next (set_magic b mg s) b = blk_next s b"
  "blk_magic (set_size b w s) b = blk_magic s b"
  "blk_magic (set_used b u s) b = blk_magic s b"
  "blk_magic (set_bprev b w s) b = blk_magic s b"
  "blk_magic (set_bnext b w s) b = blk_magic s b"
  using apart_fields [of 8 1 0 8 b]  apart_fields [of 16 8 0 8 b]  apart_fields [of 24 8 0 8 b]
    apart_fields [of 32 4 0 8 b]  apart_fields [of 0 8 8 1 b]  apart_fields [of 16 8 8 1 b]
    apart_fields [of 24 8 8 1 b]  apart_fields [of 32 4 8 1 b]  apart_fields [of 0 8 16 8 b]
    apart_fields [of 8 1 16 8 b]  apart_fields [of 24 8 16 8 b]  apart_fields [of 32 4 16 8 b]
    apart_fields [of 0 8 24 8 b]  apart_fields [of 8 1 24 8 b]  apart_fields [of 16 8 24 8 b]
    apart_fields [of 32 4 24 8 b]  apart_fields [of 0 8 32 4 b]  apart_fields [of 8 1 32 4 b]
    apart_fields [of 16 8 32 4 b]  apart_fields [of 24 8 32 4 b]
  by (simp_all add: field_defs mload_mstore_apart)

abbreviation hapart :: "addr \<Rightarrow> addr \<Rightarrow> bool" where
  "hapart b c \<equiv> apart b 48 c 48"

lemma field_apart:
  assumes "hapart b c"
  shows
    "blk_size (set_size b w s) c = blk_size s c"
    "blk_size (set_used b u s) c = blk_size s c"
    "blk_size (set_bprev b w s) c = blk_size s c"
    "blk_size (set_bnext b w s) c = blk_size s c"
    "blk_size (set_magic b mg s) c = blk_size s c"
    "blk_used (set_size b w s) c = blk_used s c"
    "blk_used (set_used b u s) c = blk_used s c"
    "blk_used (set_bprev b w s) c = blk_used s c"
    "blk_used (set_bnext b w s) c = blk_used s c"
    "blk_used (set_magic b mg s) c = blk_used s c"
    "blk_prev (set_size b w s) c = blk_prev s c"
    "blk_prev (set_used b u s) c = blk_prev s c"
    "blk_prev (set_bprev b w s) c = blk_prev s c"
    "blk_prev (set_bnext b w s) c = blk_prev s c"
    "blk_prev (set_magic b mg s) c = blk_prev s c"
    "blk_next (set_size b w s) c = blk_next s c"
    "blk_next (set_used b u s) c = blk_next s c"
    "blk_next (set_bprev b w s) c = blk_next s c"
    "blk_next (set_bnext b w s) c = blk_next s c"
    "blk_next (set_magic b mg s) c = blk_next s c"
    "blk_magic (set_size b w s) c = blk_magic s c"
    "blk_magic (set_used b u s) c = blk_magic s c"
    "blk_magic (set_bprev b w s) c = blk_magic s c"
    "blk_magic (set_bnext b w s) c = blk_magic s c"
    "blk_magic (set_magic b mg s) c = blk_magic s c"
  using apart_parts [OF assms, of 0 8 0 8]  apart_parts [OF assms, of 8 1 0 8]  apart_parts [OF assms, of 16 8 0 8]
    apart_parts [OF assms, of 24 8 0 8]  apart_parts [OF assms, of 32 4 0 8]  apart_parts [OF assms, of 0 8 8 1]
    apart_parts [OF assms, of 8 1 8 1]  apart_parts [OF assms, of 16 8 8 1]  apart_parts [OF assms, of 24 8 8 1]
    apart_parts [OF assms, of 32 4 8 1]  apart_parts [OF assms, of 0 8 16 8]  apart_parts [OF assms, of 8 1 16 8]
    apart_parts [OF assms, of 16 8 16 8]  apart_parts [OF assms, of 24 8 16 8]  apart_parts [OF assms, of 32 4 16 8]
    apart_parts [OF assms, of 0 8 24 8]  apart_parts [OF assms, of 8 1 24 8]  apart_parts [OF assms, of 16 8 24 8]
    apart_parts [OF assms, of 24 8 24 8]  apart_parts [OF assms, of 32 4 24 8]  apart_parts [OF assms, of 0 8 32 4]
    apart_parts [OF assms, of 8 1 32 4]  apart_parts [OF assms, of 16 8 32 4]  apart_parts [OF assms, of 24 8 32 4]
    apart_parts [OF assms, of 32 4 32 4]
  by (simp_all add: field_defs mload_mstore_apart)

lemma set_other [simp]:
  "heap_start (set_size b w s) = heap_start s" "heap_start (set_used b u s) = heap_start s" "heap_start (set_bprev b w s) = heap_start s" "heap_start (set_bnext b w s) = heap_start s" "heap_start (set_magic b mg s) = heap_start s"
  "heap_end (set_size b w s) = heap_end s" "heap_end (set_used b u s) = heap_end s" "heap_end (set_bprev b w s) = heap_end s" "heap_end (set_bnext b w s) = heap_end s" "heap_end (set_magic b mg s) = heap_end s"
  "heap_brk (set_size b w s) = heap_brk s" "heap_brk (set_used b u s) = heap_brk s" "heap_brk (set_bprev b w s) = heap_brk s" "heap_brk (set_bnext b w s) = heap_brk s" "heap_brk (set_magic b mg s) = heap_brk s"
  "free_list (set_size b w s) = free_list s" "free_list (set_used b u s) = free_list s" "free_list (set_bprev b w s) = free_list s" "free_list (set_bnext b w s) = free_list s" "free_list (set_magic b mg s) = free_list s"
  "hstats (set_size b w s) = hstats s" "hstats (set_used b u s) = hstats s" "hstats (set_bprev b w s) = hstats s" "hstats (set_bnext b w s) = hstats s" "hstats (set_magic b mg s) = hstats s"
  "h_initialized (set_size b w s) = h_initialized s" "h_initialized (set_used b u s) = h_initialized s" "h_initialized (set_bprev b w s) = h_initialized s" "h_initialized (set_bnext b w s) = h_initialized s" "h_initialized (set_magic b mg s) = h_initialized s"
  by (simp_all add: field_defs)


lemma blk_upd [simp]:
  "blk_size (s\<lparr>free_list := x\<rparr>) b = blk_size s b" "blk_size (s\<lparr>hstats := y\<rparr>) b = blk_size s b" "blk_size (s\<lparr>heap_brk := x\<rparr>) b = blk_size s b" "blk_size (s\<lparr>heap_start := x\<rparr>) b = blk_size s b" "blk_size (s\<lparr>h_initialized := z\<rparr>) b = blk_size s b"
  "blk_size (upd_stats f s) b = blk_size s b"
  "blk_used (s\<lparr>free_list := x\<rparr>) b = blk_used s b" "blk_used (s\<lparr>hstats := y\<rparr>) b = blk_used s b" "blk_used (s\<lparr>heap_brk := x\<rparr>) b = blk_used s b" "blk_used (s\<lparr>heap_start := x\<rparr>) b = blk_used s b" "blk_used (s\<lparr>h_initialized := z\<rparr>) b = blk_used s b"
  "blk_used (upd_stats f s) b = blk_used s b"
  "blk_prev (s\<lparr>free_list := x\<rparr>) b = blk_prev s b" "blk_prev (s\<lparr>hstats := y\<rparr>) b = blk_prev s b" "blk_prev (s\<lparr>heap_brk := x\<rparr>) b = blk_prev s b" "blk_prev (s\<lparr>heap_start := x\<rparr>) b = blk_prev s b" "blk_prev (s\<lparr>h_initialized := z\<rparr>) b = blk_prev s b"
  "blk_prev (upd_stats f s) b = blk_prev s b"
  "blk_next (s\<lparr>free_list := x\<rparr>) b = blk_next s b" "blk_next (s\<lparr>hstats := y\<rparr>) b = blk_next s b" "blk_next (s\<lparr>heap_brk := x\<rparr>) b = blk_next s b" "blk_next (s\<lparr>heap_start := x\<rparr>) b = blk_next s b" "blk_next (s\<lparr>h_initialized := z\<rparr>) b = blk_next s b"
  "blk_next (upd_stats f s) b = blk_next s b"
  "blk_magic (s\<lparr>free_list := x\<rparr>) b = blk_magic s b" "blk_magic (s\<lparr>hstats := y\<rparr>) b = blk_magic s b" "blk_magic (s\<lparr>heap_brk := x\<rparr>) b = blk_magic s b" "blk_magic (s\<lparr>heap_start := x\<rparr>) b = blk_magic s b" "blk_magic (s\<lparr>h_initialized := z\<rparr>) b = blk_magic s b"
  "blk_magic (upd_stats f s) b = blk_magic s b"
  by (simp_all add: field_defs upd_stats_def)

lemma upd_stats_simps [simp]:
  "heap_start (upd_stats g s) = heap_start s" "heap_end (upd_stats g s) = heap_end s" "heap_brk (upd_stats g s) = heap_brk s" "free_list (upd_stats g s) = free_list s" "h_initialized (upd_stats g s) = h_initialized s" "hmem (upd_stats g s) = hmem s"
  by (simp_all add: upd_stats_def)

lemma outside_area:
  assumes "unat b + n \<le> 2 ^ 64" "unat x < unat b \<or> unat b + n \<le> unat (x :: addr)"
  shows "n \<le> unat (x - b)"
proof (cases "unat x < unat b")
  case True
  then have "unat (b - x) = unat b - unat x" "b - x \<noteq> 0"
    by (auto simp: unat_sub_le word_le_nat_alt)
  then have "unat (x - b) = 2 ^ 64 - (unat b - unat x)"
    using unat_minus_flip [of "b - x"] by simp
  then show ?thesis
    using assms(1) by simp
next
  case False
  then show ?thesis
    using assms(2) by (simp add: unat_sub_le word_le_nat_alt)
qed

lemma hapart_nat:
  assumes "unat b + 48 \<le> unat c" "unat c + 48 \<le> 2 ^ 64"
  shows "hapart b c"
  using assms outside_area [of b 48 c] outside_area [of c 48 b] by (simp add: apart_def)

lemma hmem_set:
  assumes "unat b + 48 \<le> 2 ^ 64" "unat x < unat b \<or> unat b + 48 \<le> unat x"
  shows "hmem (set_size b w s) x = hmem s x" "hmem (set_used b u s) x = hmem s x"
    "hmem (set_bprev b w s) x = hmem s x" "hmem (set_bnext b w s) x = hmem s x"
    "hmem (set_magic b mg s) x = hmem s x"
proof -
  have a: "apart b 48 x 1"
    using outside_area [OF assms] outside_area [of x 1 b] assms(2) unat_less_exp [of x] by (auto simp: apart_def)
  note p = apart_parts [OF a, of _ _ 0 1, simplified]
  show "hmem (set_size b w s) x = hmem s x" "hmem (set_used b u s) x = hmem s x"
    "hmem (set_bprev b w s) x = hmem s x" "hmem (set_bnext b w s) x = hmem s x"
    "hmem (set_magic b mg s) x = hmem s x"
    using p [of 0 8] p [of 8 1] p [of 16 8] p [of 24 8] p [of 32 4]
    by (simp_all add: field_defs mstore_byte_apart)
qed

subsection \<open>Blocks\<close>

type_synonym block = "addr \<times> nat \<times> bool"

text \<open>The blocks fill the addresses from \<open>a\<close> up to \<open>e\<close>.\<close>

fun tiles :: "nat \<Rightarrow> block list \<Rightarrow> nat \<Rightarrow> bool" where
  "tiles a [] e \<longleftrightarrow> a = e"
| "tiles a ((b, n, u) # bs) e \<longleftrightarrow> unat b = a \<and> 48 \<le> n \<and> n mod 16 = 0 \<and> tiles (a + n) bs e"

lemma tiles_append: "tiles a (xs @ ys) e \<longleftrightarrow> (\<exists>c. tiles a xs c \<and> tiles c ys e)"
  by (induction a xs e rule: tiles.induct) auto

lemma tiles_le: "tiles a bs e \<Longrightarrow> a \<le> e"
  by (induction a bs e rule: tiles.induct) auto

lemma tiles_bounds: "tiles a bs e \<Longrightarrow> (b, n, u) \<in> set bs \<Longrightarrow>
    a \<le> unat b \<and> unat b + n \<le> e \<and> 48 \<le> n \<and> n mod 16 = 0"
  by (induction a bs e rule: tiles.induct) (auto dest: tiles_le)

lemma tiles_sorted: "tiles a bs e \<Longrightarrow> sorted_wrt (\<lambda>x y. unat (fst x) + fst (snd x) \<le> unat (fst y)) bs"
  by (induction a bs e rule: tiles.induct) (auto dest: tiles_bounds)

lemma tiles_aligned: "tiles a bs e \<Longrightarrow> a mod 16 = 0 \<Longrightarrow> (b, n, u) \<in> set bs \<Longrightarrow> unat b mod 16 = 0"
  by (induction a bs e rule: tiles.induct) auto

abbreviation addrs :: "block list \<Rightarrow> addr set" where
  "addrs bs \<equiv> fst ` set bs"

definition frees :: "block list \<Rightarrow> addr list" where
  "frees bs = map fst (filter (\<lambda>(b, n, u). \<not> u) bs)"

lemma tiles_split:
  assumes "tiles a (xs @ (b, n, u) # ys) e" "e < 2 ^ 64"
  shows "x \<in> set xs \<Longrightarrow> unat (fst x) + fst (snd x) \<le> unat b"
    and "x \<in> set ys \<Longrightarrow> unat b + n \<le> unat (fst x)"
    and "b \<notin> addrs xs" "b \<notin> addrs ys"
proof -
  note sorted = tiles_sorted [OF assms(1)]
  show 1: "unat (fst x) + fst (snd x) \<le> unat b" if "x \<in> set xs" for x
    using sorted that by (auto simp: sorted_wrt_append)
  show 2: "unat b + n \<le> unat (fst x)" if "x \<in> set ys" for x
    using sorted that by (auto simp: sorted_wrt_append)
  have n: "48 \<le> fst (snd x)" if "x \<in> set (xs @ (b, n, u) # ys)" for x
    using tiles_bounds [OF assms(1), of "fst x" "fst (snd x)" "snd (snd x)"] that by simp
  have "fst x \<noteq> b" if "x \<in> set xs" for x
    using 1 [OF that] n [of x] that by auto
  moreover have "fst x \<noteq> b" if "x \<in> set ys" for x
    using 2 [OF that] n [of "(b, n, u)"] by auto
  ultimately show "b \<notin> addrs xs" "b \<notin> addrs ys"
    by blast+
qed

lemma tiles_hapart:
  assumes "tiles a bs e" "e < 2 ^ 64" "b \<in> addrs bs" "c \<in> addrs bs" "b \<noteq> c"
  shows "hapart b c"
proof -
  from assms(3) obtain xs n u ys where bs: "bs = xs @ (b, n, u) # ys"
    by (metis (no_types, lifting) imageE prod.collapse split_list)
  from assms(4) obtain k w where c: "(c, k, w) \<in> set bs" by auto
  have bn: "unat b + n \<le> e" "48 \<le> n" "unat c + k \<le> e" "48 \<le> k"
    using tiles_bounds [OF assms(1), of b n u] tiles_bounds [OF assms(1) c] bs by auto
  consider "(c, k, w) \<in> set xs" | "(c, k, w) \<in> set ys"
    using c bs assms(5) by auto
  then show ?thesis
  proof cases
    case 1
    then have "hapart c b"
      using tiles_split(1) [OF assms(1) [unfolded bs] assms(2)] bn assms(2) by (intro hapart_nat) fastforce+
    then show ?thesis by (simp add: apart_commute)
  next
    case 2
    then show ?thesis
      using tiles_split(2) [OF assms(1) [unfolded bs] assms(2)] bn assms(2) by (intro hapart_nat) fastforce+
  qed
qed

text \<open>On the blocks of a tiling a store to a header is the update of one field.\<close>

definition separate :: "addr set \<Rightarrow> bool" where
  "separate B \<longleftrightarrow> (\<forall>b \<in> B. \<forall>c \<in> B. b \<noteq> c \<longrightarrow> hapart b c)"

lemma fld:
  assumes "separate B" "b \<in> B" "c \<in> B"
  shows
    "blk_size (set_size b w s) c = (if c = b then w else blk_size s c)"
    "blk_size (set_used b u s) c = blk_size s c"
    "blk_size (set_bprev b w s) c = blk_size s c"
    "blk_size (set_bnext b w s) c = blk_size s c"
    "blk_size (set_magic b mg s) c = blk_size s c"
    "blk_used (set_size b w s) c = blk_used s c"
    "blk_used (set_used b u s) c = (if c = b then u else blk_used s c)"
    "blk_used (set_bprev b w s) c = blk_used s c"
    "blk_used (set_bnext b w s) c = blk_used s c"
    "blk_used (set_magic b mg s) c = blk_used s c"
    "blk_prev (set_size b w s) c = blk_prev s c"
    "blk_prev (set_used b u s) c = blk_prev s c"
    "blk_prev (set_bprev b w s) c = (if c = b then w else blk_prev s c)"
    "blk_prev (set_bnext b w s) c = blk_prev s c"
    "blk_prev (set_magic b mg s) c = blk_prev s c"
    "blk_next (set_size b w s) c = blk_next s c"
    "blk_next (set_used b u s) c = blk_next s c"
    "blk_next (set_bprev b w s) c = blk_next s c"
    "blk_next (set_bnext b w s) c = (if c = b then w else blk_next s c)"
    "blk_next (set_magic b mg s) c = blk_next s c"
    "blk_magic (set_size b w s) c = blk_magic s c"
    "blk_magic (set_used b u s) c = blk_magic s c"
    "blk_magic (set_bprev b w s) c = blk_magic s c"
    "blk_magic (set_bnext b w s) c = blk_magic s c"
    "blk_magic (set_magic b mg s) c = (if c = b then mg else blk_magic s c)"
proof -
  have "hapart b c" if "c \<noteq> b"
    using assms that by (auto simp: separate_def)
  then show
    "blk_size (set_size b w s) c = (if c = b then w else blk_size s c)"
    "blk_size (set_used b u s) c = blk_size s c"
    "blk_size (set_bprev b w s) c = blk_size s c"
    "blk_size (set_bnext b w s) c = blk_size s c"
    "blk_size (set_magic b mg s) c = blk_size s c"
    "blk_used (set_size b w s) c = blk_used s c"
    "blk_used (set_used b u s) c = (if c = b then u else blk_used s c)"
    "blk_used (set_bprev b w s) c = blk_used s c"
    "blk_used (set_bnext b w s) c = blk_used s c"
    "blk_used (set_magic b mg s) c = blk_used s c"
    "blk_prev (set_size b w s) c = blk_prev s c"
    "blk_prev (set_used b u s) c = blk_prev s c"
    "blk_prev (set_bprev b w s) c = (if c = b then w else blk_prev s c)"
    "blk_prev (set_bnext b w s) c = blk_prev s c"
    "blk_prev (set_magic b mg s) c = blk_prev s c"
    "blk_next (set_size b w s) c = blk_next s c"
    "blk_next (set_used b u s) c = blk_next s c"
    "blk_next (set_bprev b w s) c = blk_next s c"
    "blk_next (set_bnext b w s) c = (if c = b then w else blk_next s c)"
    "blk_next (set_magic b mg s) c = blk_next s c"
    "blk_magic (set_size b w s) c = blk_magic s c"
    "blk_magic (set_used b u s) c = blk_magic s c"
    "blk_magic (set_bprev b w s) c = blk_magic s c"
    "blk_magic (set_bnext b w s) c = blk_magic s c"
    "blk_magic (set_magic b mg s) c = (if c = b then mg else blk_magic s c)"
    by (cases "c = b"; simp add: field_apart)+
qed

lemma separate_tiles: "tiles a bs e \<Longrightarrow> e < 2 ^ 64 \<Longrightarrow> separate (addrs bs)"
  unfolding separate_def using tiles_hapart by blast

subsection \<open>The free list\<close>

text \<open>
  The free list as a ring through address 0, whose \<open>next\<close> is \<open>free_list\<close>; \<open>z\<close> stands for the
  \<open>prev\<close> of this end, which no header holds.
\<close>

definition view :: "heap_state \<Rightarrow> addr \<Rightarrow> links" where
  "view s z = \<lparr>nxt = (\<lambda>x. if x = 0 then free_list s else blk_next s x),
     prv = (\<lambda>x. if x = 0 then z else blk_prev s x)\<rparr>"

definition free_ring :: "heap_state \<Rightarrow> addr list \<Rightarrow> bool" where
  "free_ring s fs \<longleftrightarrow> ring (view s (last (0 # fs))) 0 fs"

lemma free_ring_ends:
  assumes "free_ring s (xs @ b # ys)"
  shows "blk_prev s b = last (0 # xs)" "blk_next s b = hd (ys @ [0])" "b \<noteq> 0"
    "free_list s = hd (xs @ [b])"
proof -
  note r = assms [unfolded free_ring_def]
  show "b \<noteq> 0" using r by (auto simp: ring_def)
  then show "blk_prev s b = last (0 # xs)" "blk_next s b = hd (ys @ [0])" 
    using ring_neighbours [OF r] by (simp_all add: view_def)
  show "free_list s = hd (xs @ [b])"
    using ring_next [OF r] by (cases xs) (simp_all add: view_def)
qed

lemma free_ring_frame:
  "free_ring s fs \<Longrightarrow> free_list t = free_list s \<Longrightarrow>
   (\<And>x. x \<in> set fs \<Longrightarrow> blk_next t x = blk_next s x \<and> blk_prev t x = blk_prev s x) \<Longrightarrow> free_ring t fs"
  unfolding free_ring_def by (erule ring_frame) (auto simp: view_def)

text \<open>What an operation on the links of the headers in \<open>B\<close> leaves alone.\<close>

definition links_only :: "addr set \<Rightarrow> addr set \<Rightarrow> heap_state \<Rightarrow> heap_state \<Rightarrow> bool" where
  "links_only B F s t \<longleftrightarrow>
     heap_start t = heap_start s \<and> heap_end t = heap_end s \<and> heap_brk t = heap_brk s \<and>
     h_initialized t = h_initialized s \<and> hstats t = hstats s \<and>
     (\<forall>c \<in> B. blk_size t c = blk_size s c \<and> blk_used t c = blk_used s c \<and> blk_magic t c = blk_magic s c \<and>
       (c \<notin> F \<longrightarrow> blk_prev t c = blk_prev s c \<and> blk_next t c = blk_next s c)) \<and>
     (\<forall>x. (\<forall>b \<in> B. unat x < unat b \<or> unat b + 48 \<le> unat x) \<longrightarrow> hmem t x = hmem s x)"

lemma remove_ok:
  assumes B: "separate B" "\<forall>b \<in> B. unat b + 48 \<le> 2 ^ 64" "0 \<notin> B"
    and r: "free_ring s (xs @ b # ys)" "set (xs @ b # ys) \<subseteq> B" and u: "\<not> blk_used s b"
  shows "\<exists>t. remove_from_free_list b s = Some t \<and> free_ring t (xs @ ys) \<and>
    blk_prev t b = 0 \<and> blk_next t b = 0 \<and> links_only B (set (xs @ b # ys)) s t"
proof -
  define p q where "p = last (0 # xs)" and "q = hd (ys @ [0])"
  note e = free_ring_ends [OF r(1), folded p_def q_def]
  have d: "distinct (0 # xs @ b # ys)"
    using r(1) by (simp add: free_ring_def ring_def)
  have p: "p = 0 \<or> p \<in> set xs" and q: "q = 0 \<or> q \<in> set ys"
    by (auto simp: hd_append p_def q_def)
  have in_B: "b \<in> B" "p \<noteq> 0 \<Longrightarrow> p \<in> B" "q \<noteq> 0 \<Longrightarrow> q \<in> B"
    using r(2) p q by auto
  have ne: "p \<noteq> b" "q \<noteq> b" "p = q \<Longrightarrow> q = 0"
    using d p q by auto
  define t where "t = (let t = (if p \<noteq> 0 then set_bnext p q s else s\<lparr>free_list := q\<rparr>);
      t = (if q \<noteq> 0 then set_bprev q p t else t) in set_bnext b 0 (set_bprev b 0 t))"
  have rm: "remove_from_free_list b s = Some t"
    using u by (simp add: remove_from_free_list_def e t_def Let_def)
  have nx: "blk_next t c = (if c = b then 0 else if c = p then q else blk_next s c)"
    and pv: "blk_prev t c = (if c = b then 0 else if c = q then p else blk_prev s c)" if "c \<in> B" for c
    using that in_B ne B(3) by (auto simp: t_def Let_def fld [OF B(1)])
  have keep: "blk_size t c = blk_size s c" "blk_used t c = blk_used s c" "blk_magic t c = blk_magic s c" if "c \<in> B" for c
    using that in_B by (auto simp: t_def Let_def fld [OF B(1)])
  have fl: "free_list t = (if p = 0 then q else free_list s)"
    by (simp add: t_def Let_def)
  have hm: "hmem t x = hmem s x" if "\<forall>b \<in> B. unat x < unat b \<or> unat b + 48 \<le> unat x" for x
    using that in_B B(2) by (auto simp: t_def Let_def hmem_set)
  have "free_ring t (xs @ ys)"
    unfolding free_ring_def
  proof (rule ring_frame [OF ring_unlink [OF r(1) [unfolded free_ring_def]]], fold p_def q_def)
    fix x assume x: "x \<in> set (0 # xs @ ys)"
    have z: "q = 0 \<longleftrightarrow> ys = []" "last (0 # xs @ ys) = (if ys = [] then p else last (0 # xs @ b # ys))"
      using d by (cases ys; auto simp: q_def p_def)+
    have "x \<noteq> b" "x \<noteq> 0 \<Longrightarrow> x \<in> B"
      using x d r(2) by auto
    then show "nxt (view t (last (0 # xs @ ys))) x = nxt (list_unlink p q (view s (last (0 # xs @ b # ys)))) x \<and>
      prv (view t (last (0 # xs @ ys))) x = prv (list_unlink p q (view s (last (0 # xs @ b # ys)))) x"
      unfolding z using z(1) by (auto simp: view_def list_unlink_def Let_def nx pv fl)
  qed
  moreover have "heap_start t = heap_start s" "heap_end t = heap_end s" "heap_brk t = heap_brk s"
    "h_initialized t = h_initialized s" "hstats t = hstats s"
    by (simp_all add: t_def Let_def)
  then have "links_only B (set (xs @ b # ys)) s t"
    using p q hm B(3) by (auto simp: links_only_def nx pv keep)
  ultimately show ?thesis
    using rm in_B(1) by (simp add: nx pv)
qed

lemma free_around_path:
  assumes "linked (view s z) (p # xs @ ys @ [0])" "0 \<notin> set (xs @ ys)"
    "\<forall>x \<in> set xs. x < b" "\<forall>y \<in> set ys. \<not> y < b"
  shows "free_around s b p (hd (xs @ ys @ [0])) = Some (last (p # xs), hd (ys @ [0]))"
  using assms
proof (induction xs arbitrary: p)
  case Nil
  then show ?case
    by (cases ys) (auto simp: free_around.simps)
next
  case (Cons x xs)
  have "blk_next s x = hd (xs @ ys @ [0])"
    using Cons.prems(1,2) linked_Cons [of "view s z" x "xs @ ys @ [0]"] by (auto simp: view_def)
  then show ?case
    using Cons.IH [of x] Cons.prems by (subst free_around.simps) auto
qed

lemma free_around_ok:
  assumes "free_ring s (xs @ ys)" "\<forall>x \<in> set xs. x < b" "\<forall>y \<in> set ys. \<not> y < b"
  shows "free_around s b 0 (free_list s) = Some (last (0 # xs), hd (ys @ [0]))"
proof -
  note r = assms(1) [unfolded free_ring_def]
  have "free_list s = hd (xs @ ys @ [0])"
    using ring_next [OF r] by (simp add: view_def)
  moreover have "linked (view s (last (0 # xs @ ys))) (0 # xs @ ys @ [0])" "0 \<notin> set (xs @ ys)"
    using r by (simp_all add: ring_def)
  ultimately show ?thesis
    using free_around_path assms(2,3) by metis
qed

lemma insert_ok:
  assumes B: "separate B" "\<forall>b \<in> B. unat b + 48 \<le> 2 ^ 64" "0 \<notin> B"
    and r: "free_ring s (xs @ ys)" "set (xs @ ys) \<subseteq> B" "b \<in> B"
    and b: "\<not> blk_used s b" "blk_prev s b = 0" "blk_next s b = 0"
    and order: "\<forall>x \<in> set xs. x < b" "\<forall>y \<in> set ys. b < y"
  shows "\<exists>t. insert_to_free_list b s = Some t \<and> free_ring t (xs @ b # ys) \<and>
    links_only B (set (xs @ b # ys)) s t"
proof -
  define p q where "p = last (0 # xs)" and "q = hd (ys @ [0])"
  have d: "distinct (0 # xs @ b # ys)"
    using r(1,3) B(3) order by (auto simp: free_ring_def ring_def)
  have p: "p = 0 \<or> p \<in> set xs" and q: "q = 0 \<or> q \<in> set ys"
    by (auto simp: hd_append p_def q_def)
  have in_B: "b \<in> B" "p \<noteq> 0 \<Longrightarrow> p \<in> B" "q \<noteq> 0 \<Longrightarrow> q \<in> B"
    using r(2,3) p q by auto
  have ne: "p \<noteq> b" "q \<noteq> b" "b \<noteq> 0" "p = q \<Longrightarrow> q = 0"
    using d p q by auto
  define t where "t = (let t = set_bnext b q s; t = (if q \<noteq> 0 then set_bprev q b t else t);
      t = set_bprev b p t in if p \<noteq> 0 then set_bnext p b t else t\<lparr>free_list := b\<rparr>)"
  have "\<forall>y \<in> set ys. \<not> y < b"
    using order(2) by auto
  then have "free_around s b 0 (free_list s) = Some (p, q)"
    unfolding p_def q_def by (rule free_around_ok [OF r(1) order(1)])
  then have ins: "insert_to_free_list b s = Some t"
    using b by (simp add: insert_to_free_list_def t_def Let_def)
  have nx: "blk_next t c = (if c = b then q else if c = p then b else blk_next s c)"
    and pv: "blk_prev t c = (if c = b then p else if c = q then b else blk_prev s c)" if "c \<in> B" for c
    using that in_B ne B(3) by (auto simp: t_def Let_def fld [OF B(1)])
  have keep: "blk_size t c = blk_size s c" "blk_used t c = blk_used s c" "blk_magic t c = blk_magic s c" if "c \<in> B" for c
    using that in_B by (auto simp: t_def Let_def fld [OF B(1)])
  have fl: "free_list t = (if p = 0 then b else free_list s)"
    by (simp add: t_def Let_def)
  have hm: "hmem t x = hmem s x" if "\<forall>b \<in> B. unat x < unat b \<or> unat b + 48 \<le> unat x" for x
    using that in_B B(2) by (auto simp: t_def Let_def hmem_set)
  have out: "b \<notin> set (0 # xs @ ys)"
    using d by auto
  have "free_ring t (xs @ b # ys)"
    unfolding free_ring_def
  proof (rule ring_frame [OF ring_insert [OF r(1) [unfolded free_ring_def] out]], fold p_def q_def)
    fix x assume x: "x \<in> set (0 # xs @ b # ys)"
    have z: "q = 0 \<longleftrightarrow> ys = []" "last (0 # xs @ b # ys) = (if ys = [] then b else last (0 # xs @ ys))"
      using d by (cases ys; auto simp: q_def p_def)+
    have "x \<noteq> 0 \<Longrightarrow> x \<in> B"
      using x r(2,3) by auto
    then show "nxt (view t (last (0 # xs @ b # ys))) x = nxt (list_insert_between b p q (view s (last (0 # xs @ ys)))) x \<and>
      prv (view t (last (0 # xs @ b # ys))) x = prv (list_insert_between b p q (view s (last (0 # xs @ ys)))) x"
      unfolding z(2) using z(1) ne by (auto simp: view_def list_insert_between_def Let_def nx pv fl)
  qed
  moreover have "heap_start t = heap_start s" "heap_end t = heap_end s" "heap_brk t = heap_brk s"
    "h_initialized t = h_initialized s" "hstats t = hstats s"
    by (simp_all add: t_def Let_def)
  then have "links_only B (set (xs @ b # ys)) s t"
    using p q hm B(3) by (auto simp: links_only_def nx pv keep)
  ultimately show ?thesis
    using ins by simp
qed

text \<open>The search returns a smallest block that is large enough, and 0 only if there is none.\<close>

lemma best_fit_path:
  assumes "linked (view s z) (p # fs @ [0])" "0 \<notin> set fs" "best = 0 \<or> sz \<le> blk_size s best"
  shows "\<exists>r. best_fit s sz best (hd (fs @ [0])) = Some r \<and>
    (r = best \<or> r \<in> set fs \<and> sz \<le> blk_size s r) \<and> (best \<noteq> 0 \<longrightarrow> r \<noteq> 0 \<and> blk_size s r \<le> blk_size s best) \<and>
    (\<forall>x \<in> set fs. sz \<le> blk_size s x \<longrightarrow> r \<noteq> 0 \<and> blk_size s r \<le> blk_size s x)"
  using assms
proof (induction fs arbitrary: p best)
  case Nil
  then show ?case by (auto simp: best_fit.simps)
next
  case (Cons x fs)
  have nx: "blk_next s x = hd (fs @ [0])"
    using Cons.prems(1,2) linked_Cons [of "view s z" x "fs @ [0]"] by (auto simp: view_def)
  let ?better = "sz \<le> blk_size s x \<and> (best = 0 \<or> blk_size s x < blk_size s best)"
  have bf: "best_fit s sz best x = (if ?better then if blk_size s x = sz then Some x
      else best_fit s sz x (hd (fs @ [0])) else best_fit s sz best (hd (fs @ [0])))"
    using Cons.prems(2) nx by (subst best_fit.simps) auto
  have l: "linked (view s z) (x # fs @ [0])" "0 \<notin> set fs" "x \<noteq> 0"
    using Cons.prems(1,2) by auto
  show ?case
  proof (cases ?better)
    case True
    show ?thesis
    proof (cases "blk_size s x = sz")
      case True': True
      then show ?thesis
        using True l bf by (auto intro!: exI [of _ x])
    next
      case False
      then show ?thesis
        using True l bf Cons.IH [OF l(1,2), of x] by fastforce
    qed
  next
    case False
    then show ?thesis
      using l bf Cons.IH [OF l(1,2) Cons.prems(3)] by fastforce
  qed
qed

lemma find_best_fit_ok:
  assumes "free_ring s fs"
  shows "\<exists>r. find_best_fit sz s = Some r \<and>
    (if \<exists>x \<in> set fs. sz \<le> blk_size s x
     then r \<in> set fs \<and> sz \<le> blk_size s r \<and> (\<forall>x \<in> set fs. sz \<le> blk_size s x \<longrightarrow> blk_size s r \<le> blk_size s x)
     else r = 0)"
proof -
  note r = assms [unfolded free_ring_def]
  have "free_list s = hd (fs @ [0])"
    using ring_next [OF r] by (simp add: view_def)
  moreover have "linked (view s (last (0 # fs))) (0 # fs @ [0])" "0 \<notin> set fs"
    using r by (simp_all add: ring_def)
  note best_fit_path [OF this, of 0 sz]
  ultimately show ?thesis
    by (auto simp: find_best_fit_def)
qed

end
