(* ===== verification/Kheap_Props.thy ===== *)
theory Kheap_Props
  imports Kheap_Free
begin

text \<open>
  Correctness of the kernel heap.

  \<open>heap_inv s bs\<close> describes a heap by the list of its blocks in address order: they tile the heap
  from \<open>heap_start\<close> to \<open>heap_brk\<close>, their headers are in memory, the free ones form the doubly linked
  free list, and no two free blocks are neighbours. \<open>kmalloc\<close>, \<open>kfree\<close> and the expansion of the heap
  are shown to compute operations on this list.
\<close>

subsection \<open>The invariant during an operation\<close>

definition hdr_ok :: "heap_state \<Rightarrow> addr set \<Rightarrow> block \<Rightarrow> bool" where
  "hdr_ok s F = (\<lambda>(b, n, u). unat (blk_size s b) = n \<and> blk_used s b = u \<and> blk_magic s b = HEAP_BLOCK_MAGIC \<and>
     (b \<notin> F \<longrightarrow> blk_prev s b = 0 \<and> blk_next s b = 0))"

definition core :: "heap_state \<Rightarrow> block list \<Rightarrow> addr list \<Rightarrow> bool" where
  "core s bs fs \<longleftrightarrow> 0 < unat (heap_start s) \<and> unat (heap_start s) mod 16 = 0 \<and>
     tiles (unat (heap_start s)) bs (unat (heap_brk s)) \<and> heap_brk s \<le> heap_end s \<and>
     (\<forall>x \<in> set bs. hdr_ok s (set fs) x) \<and> free_ring s fs \<and> set fs \<subseteq> addrs bs \<and> sorted_wrt (<) fs"

text \<open>The bytes that the users of allocated blocks own, and the states that agree on them.\<close>

definition udata :: "block list \<Rightarrow> addr \<Rightarrow> bool" where
  "udata bs x \<longleftrightarrow> (\<exists>c k. (c, k, True) \<in> set bs \<and> unat c + 48 \<le> unat x \<and> unat x < unat c + k)"

definition pres :: "block list \<Rightarrow> heap_state \<Rightarrow> heap_state \<Rightarrow> bool" where
  "pres bs s t \<longleftrightarrow> heap_start t = heap_start s \<and> heap_end t = heap_end s \<and> heap_brk t = heap_brk s \<and>
     h_initialized t = h_initialized s \<and> hstats t = hstats s \<and> (\<forall>x. udata bs x \<longrightarrow> hmem t x = hmem s x)"

lemma core_blocks:
  assumes "core s bs fs"
  shows "separate (addrs bs)" "\<forall>b \<in> addrs bs. unat b + 48 \<le> 2 ^ 64" "0 \<notin> addrs bs"
proof -
  have t: "tiles (unat (heap_start s)) bs (unat (heap_brk s))" "0 < unat (heap_start s)"
    using assms by (simp_all add: core_def)
  then show "separate (addrs bs)"
    using separate_tiles unat_less_exp [of "heap_brk s"] by simp
  have "0 < unat b \<and> unat b + 48 \<le> 2 ^ 64" if "(b, n, u) \<in> set bs" for b n u
    using tiles_bounds [OF t(1) that] t(2) unat_less_exp [of "heap_brk s"] by simp
  then show "\<forall>b \<in> addrs bs. unat b + 48 \<le> 2 ^ 64" "0 \<notin> addrs bs"
    by fastforce+
qed

lemma tiles_disjoint:
  assumes "tiles a bs e" "e < 2 ^ 64" "(b, n, u) \<in> set bs" "(c, k, w) \<in> set bs" "b \<noteq> c"
  shows "unat b + n \<le> unat c \<or> unat c + k \<le> unat b"
proof -
  from assms(3) obtain xs ys where bs: "bs = xs @ (b, n, u) # ys"
    by (meson split_list)
  then consider "(c, k, w) \<in> set xs" | "(c, k, w) \<in> set ys"
    using assms(4,5) by auto
  then show ?thesis
    using tiles_split(1,2) [OF assms(1) [unfolded bs] assms(2)] by cases fastforce+
qed

lemma tiles_limit:
  assumes "tiles a bs e" "e < 2 ^ 64" "b \<in> addrs bs"
  shows "unat b + 48 \<le> 2 ^ 64"
proof -
  from assms(3) obtain n u where "(b, n, u) \<in> set bs" by auto
  then show ?thesis
    using tiles_bounds [OF assms(1)] assms(2) by fastforce
qed

lemma udata_header:
  assumes "tiles a bs e" "e < 2 ^ 64" "udata bs x" "b \<in> addrs bs"
  shows "unat x < unat b \<or> unat b + 48 \<le> unat x"
proof -
  from assms(3) obtain c k where c: "(c, k, True) \<in> set bs" "unat c + 48 \<le> unat x" "unat x < unat c + k"
    by (auto simp: udata_def)
  from assms(4) obtain n u where b: "(b, n, u) \<in> set bs" by auto
  have "48 \<le> n"
    using tiles_bounds [OF assms(1) b] by simp
  then show ?thesis
    using tiles_disjoint [OF assms(1,2) b c(1)] c(2,3) by (cases "b = c") auto
qed

lemma core_links:
  assumes "core s bs fs" "links_only (addrs bs) F s t" "free_ring t fs'" "set fs' \<subseteq> addrs bs" "sorted_wrt (<) fs'"
    and "F \<subseteq> addrs bs" "\<forall>b \<in> F \<union> set fs - set fs'. blk_prev t b = 0 \<and> blk_next t b = 0"
  shows "core t bs fs'" "pres bs s t"
proof -
  have t: "tiles (unat (heap_start s)) bs (unat (heap_brk s))" "unat (heap_brk s) < 2 ^ 64"
    using assms(1) unat_less_exp [of "heap_brk s"] by (simp_all add: core_def)
  have "hdr_ok t (set fs') x" if "x \<in> set bs" for x
  proof -
    obtain b n u where x: "x = (b, n, u)" by (cases x)
    then have "b \<in> addrs bs" "hdr_ok s (set fs) (b, n, u)"
      using that assms(1) by (force simp: core_def)+
    then show ?thesis
      using assms(2,7) by (cases "b \<in> F \<union> set fs - set fs'") (auto simp: x hdr_ok_def links_only_def)
  qed
  then show "core t bs fs'"
    using assms by (auto simp: core_def links_only_def)
  show "pres bs s t"
    using assms(2) udata_header [OF t] by (auto simp: pres_def links_only_def)
qed

lemma core_remove:
  assumes "core s bs (xs @ b # ys)" "\<not> blk_used s b"
  shows "\<exists>t. remove_from_free_list b s = Some t \<and> core t bs (xs @ ys) \<and> pres bs s t"
proof -
  note B = core_blocks [OF assms(1)]
  have f: "free_ring s (xs @ b # ys)" "set (xs @ b # ys) \<subseteq> addrs bs" "sorted_wrt (<) (xs @ b # ys)"
    using assms(1) by (simp_all add: core_def)
  obtain t where t: "remove_from_free_list b s = Some t" "free_ring t (xs @ ys)"
    "blk_prev t b = 0" "blk_next t b = 0" "links_only (addrs bs) (set (xs @ b # ys)) s t"
    using remove_ok [OF B f(1,2) assms(2)] by blast
  then show ?thesis
    using core_links [OF assms(1) t(5,2)] f(2,3) by (auto simp: sorted_wrt_append)
qed

lemma core_insert:
  assumes "core s bs (xs @ ys)" "b \<in> addrs bs" "\<not> blk_used s b" "\<forall>x \<in> set xs. x < b" "\<forall>y \<in> set ys. b < y"
  shows "\<exists>t. insert_to_free_list b s = Some t \<and> core t bs (xs @ b # ys) \<and> pres bs s t"
proof -
  note B = core_blocks [OF assms(1)]
  have f: "free_ring s (xs @ ys)" "set (xs @ ys) \<subseteq> addrs bs" "sorted_wrt (<) (xs @ ys)"
    using assms(1) by (simp_all add: core_def)
  from assms(2) obtain n u where "(b, n, u) \<in> set bs" by auto
  moreover have "b \<notin> set (xs @ ys)"
    using assms(4,5) by auto
  ultimately have z: "blk_prev s b = 0" "blk_next s b = 0"
    using assms(1) by (auto simp: core_def hdr_ok_def)
  obtain t where t: "insert_to_free_list b s = Some t" "free_ring t (xs @ b # ys)"
    "links_only (addrs bs) (set (xs @ b # ys)) s t"
    using insert_ok [OF B f(1,2) assms(2,3) z assms(4,5)] by blast
  then show ?thesis
    using core_links [OF assms(1) t(3,2)] f(2,3) assms(2,4,5) by (auto simp: sorted_wrt_append)
qed

text \<open>
  An operation that changes the tiling: the blocks \<open>bs'\<close> tile the same heap, and every block but
  those of \<open>new\<close> has kept its header.
\<close>

lemma core_retile:
  assumes "core s bs fs" and t: "tiles (unat (heap_start s)) bs' (unat (heap_brk s))"
    and glob: "heap_start t = heap_start s" "heap_brk t = heap_brk s" "heap_end t = heap_end s" "free_list t = free_list s"
    and fs: "set fs \<subseteq> addrs bs'"
    and links: "\<forall>c \<in> addrs bs \<inter> addrs bs'. blk_prev t c = blk_prev s c \<and> blk_next t c = blk_next s c"
    and hdr: "\<forall>x \<in> set bs'. hdr_ok t (set fs) x"
  shows "core t bs' fs"
  using assms by (auto simp: core_def intro!: free_ring_frame [of s fs t])

lemma core_set_used:
  assumes "core s (xs @ (b, n, u) # ys) fs"
  shows "core (set_used b v s) (xs @ (b, n, v) # ys) fs"
    "pres (xs @ (b, n, u) # ys) s (set_used b v s)" "pres (xs @ (b, n, v) # ys) s (set_used b v s)"
proof -
  let ?bs = "xs @ (b, n, u) # ys" and ?bs' = "xs @ (b, n, v) # ys"
  note B = core_blocks [OF assms]
  have t: "tiles (unat (heap_start s)) ?bs (unat (heap_brk s))" "unat (heap_brk s) < 2 ^ 64"
    using assms unat_less_exp [of "heap_brk s"] by (simp_all add: core_def)
  then have t': "tiles (unat (heap_start s)) ?bs' (unat (heap_brk s))"
    by (auto simp: tiles_append)
  note out = tiles_split(3,4) [OF t]
  show "core (set_used b v s) ?bs' fs"
  proof (rule core_retile [OF assms t'])
    show "\<forall>x \<in> set ?bs'. hdr_ok (set_used b v s) (set fs) x"
    proof
      fix x assume "x \<in> set ?bs'"
      moreover obtain c k w where x: "x = (c, k, w)" by (cases x)
      ultimately have c: "c \<in> addrs ?bs" "(c, k, w) \<in> set ?bs \<and> c \<noteq> b \<or> c = b \<and> k = n \<and> w = v"
        using out by force+
      have "hdr_ok s (set fs) (b, n, u)" "(c, k, w) \<in> set ?bs \<Longrightarrow> hdr_ok s (set fs) (c, k, w)"
        using assms by (auto simp: core_def)
      then show "hdr_ok (set_used b v s) (set fs) x"
        using c by (auto simp: x hdr_ok_def fld [OF B(1)])
    qed
  qed (use assms in \<open>auto simp: core_def fld [OF B(1)]\<close>)
  show "pres ?bs s (set_used b v s)" "pres ?bs' s (set_used b v s)"
    using udata_header [OF t] udata_header [OF t' t(2)] B(2) by (auto simp: pres_def hmem_set)
qed

lemma core_merge:
  assumes "core s (xs @ (b, n, u) # (c, k, False) # ys) fs" "c \<notin> set fs" "unat w = n + k"
  shows "core (set_size b w s) (xs @ (b, n + k, u) # ys) fs"
    "pres (xs @ (b, n, u) # (c, k, False) # ys) s (set_size b w s)"
proof -
  let ?bs = "xs @ (b, n, u) # (c, k, False) # ys" and ?bs' = "xs @ (b, n + k, u) # ys"
  note B = core_blocks [OF assms(1)]
  have t: "tiles (unat (heap_start s)) ?bs (unat (heap_brk s))" "unat (heap_brk s) < 2 ^ 64"
    using assms unat_less_exp [of "heap_brk s"] by (simp_all add: core_def)
  then have t': "tiles (unat (heap_start s)) ?bs' (unat (heap_brk s))"
    by (auto simp: tiles_append mod_add_eq add.assoc)
  note out = tiles_split(3,4) [OF t]
  show "core (set_size b w s) ?bs' fs"
  proof (rule core_retile [OF assms(1) t'])
    show "\<forall>x \<in> set ?bs'. hdr_ok (set_size b w s) (set fs) x"
    proof
      fix x assume "x \<in> set ?bs'"
      moreover obtain d m v where x: "x = (d, m, v)" by (cases x)
      ultimately have d: "d \<in> addrs ?bs" "(d, m, v) \<in> set ?bs \<and> d \<noteq> b \<or> d = b \<and> m = n + k \<and> v = u"
        using out by force+
      have "hdr_ok s (set fs) (b, n, u)" "(d, m, v) \<in> set ?bs \<Longrightarrow> hdr_ok s (set fs) (d, m, v)"
        using assms by (auto simp: core_def)
      then show "hdr_ok (set_size b w s) (set fs) x"
        using d assms(3) by (auto simp: x hdr_ok_def fld [OF B(1)])
    qed
  qed (use assms in \<open>auto simp: core_def fld [OF B(1)]\<close>)
  show "pres ?bs s (set_size b w s)"
    using udata_header [OF t] B(2) by (auto simp: pres_def hmem_set)
qed

lemma init_free_block_simps [simp]:
  "heap_start (init_free_block b w s) = heap_start s" "heap_end (init_free_block b w s) = heap_end s"
  "heap_brk (init_free_block b w s) = heap_brk s" "free_list (init_free_block b w s) = free_list s"
  "h_initialized (init_free_block b w s) = h_initialized s" "hstats (init_free_block b w s) = hstats s"
  by (simp_all add: init_free_block_def)

lemma init_free_block_fields:
  assumes "separate B" "b \<in> B" "c \<in> B"
  shows "blk_size (init_free_block b w s) c = (if c = b then w else blk_size s c)"
    "blk_used (init_free_block b w s) c = (if c = b then False else blk_used s c)"
    "blk_prev (init_free_block b w s) c = (if c = b then 0 else blk_prev s c)"
    "blk_next (init_free_block b w s) c = (if c = b then 0 else blk_next s c)"
    "blk_magic (init_free_block b w s) c = (if c = b then HEAP_BLOCK_MAGIC else blk_magic s c)"
  using assms by (simp_all add: init_free_block_def fld [OF assms(1)])

lemma core_split:
  assumes c: "core s (xs @ (b, n, u) # ys) fs" and n: "n = need + rem" "48 \<le> need" "48 \<le> rem" "need mod 16 = 0"
    and nb: "nb = b + wn" "unat wn = need" "unat wr = rem"
  defines "t \<equiv> set_size b wn (init_free_block nb wr s)"
  shows "core t (xs @ (b, need, u) # (nb, rem, False) # ys) fs"
    "pres (xs @ (b, need, u) # (nb, rem, False) # ys) s t" "nb \<notin> set fs"
proof -
  let ?bs = "xs @ (b, n, u) # ys" and ?bs' = "xs @ (b, need, u) # (nb, rem, False) # ys"
  have e: "tiles (unat (heap_start s)) ?bs (unat (heap_brk s))" "unat (heap_brk s) < 2 ^ 64"
    using c unat_less_exp [of "heap_brk s"] by (simp_all add: core_def)
  have b: "unat b + n \<le> unat (heap_brk s)" "n mod 16 = 0"
    using tiles_bounds [OF e(1), of b n u] by simp_all
  then have "unat nb = unat b + need"
    using n(1) nb e(2) by (simp add: unat_add_small)
  moreover have "rem mod 16 = 0"
    using b(2) n(1,4) by presburger
  ultimately have t': "tiles (unat (heap_start s)) ?bs' (unat (heap_brk s))"
    using e(1) n by (auto simp: tiles_append add.assoc)
  note B = separate_tiles [OF t' e(2)]
  note out = tiles_split(3,4) [OF t' e(2)]
  have nb_new: "nb \<notin> addrs ?bs"
    using tiles_split(3,4) [of _ "xs @ [(b, need, u)]" nb rem False ys] t' e(2) by force
  then show "nb \<notin> set fs"
    using c by (auto simp: core_def)
  have old_ne: "d \<noteq> b \<and> d \<noteq> nb" if "(d, m, v) \<in> set xs \<union> set ys" for d m v
  proof -
    have "d \<in> addrs xs \<union> addrs ys"
      using that by force
    then show ?thesis
      using tiles_split(3,4) [OF e] nb_new by auto
  qed
  have "nb \<noteq> b" using nb_new by auto
  have hb: "hdr_ok s (set fs) (b, n, u)"
    using c by (simp add: core_def)
  show "core t ?bs' fs"
  proof (rule core_retile [OF c t'])
    show "\<forall>x \<in> set ?bs'. hdr_ok t (set fs) x"
    proof
      fix x assume "x \<in> set ?bs'"
      moreover obtain d m v where x: "x = (d, m, v)" by (cases x)
      ultimately have d: "d \<in> addrs ?bs'"
        and "(d, m, v) \<in> set xs \<union> set ys \<or> d = b \<and> m = need \<and> v = u \<or> d = nb \<and> m = rem \<and> v = False"
        by force+
      then consider (old) "(d, m, v) \<in> set xs \<union> set ys" | (b) "d = b" "m = need" "v = u"
        | (nb) "d = nb" "m = rem" "v = False"
        by blast
      then show "hdr_ok t (set fs) x"
      proof cases
        case old
        then have "d \<noteq> b" "d \<noteq> nb" "hdr_ok s (set fs) (d, m, v)"
          using old_ne [OF old] c by (auto simp: core_def)
        then show ?thesis
          using d by (simp add: x t_def hdr_ok_def fld [OF B] init_free_block_fields [OF B])
      next
        case b
        then show ?thesis
          using d hb nb(2) \<open>nb \<noteq> b\<close> by (simp add: x t_def hdr_ok_def fld [OF B] init_free_block_fields [OF B])
      next
        case nb': nb
        then show ?thesis
          using d nb(3) \<open>nb \<noteq> b\<close> by (simp add: x t_def hdr_ok_def fld [OF B] init_free_block_fields [OF B])
      qed
    qed
    show "\<forall>c \<in> addrs ?bs \<inter> addrs ?bs'. blk_prev t c = blk_prev s c \<and> blk_next t c = blk_next s c"
      using nb_new by (auto simp: t_def fld [OF B] init_free_block_fields [OF B])
  qed (use c in \<open>auto simp: core_def t_def\<close>)
  have lim: "unat d + 48 \<le> 2 ^ 64" if "d \<in> addrs ?bs'" for d
    using tiles_limit [OF t' e(2) that] .
  show "pres ?bs' s t"
    using udata_header [OF t' e(2)] lim by (auto simp: pres_def t_def init_free_block_def hmem_set)
qed

subsection \<open>The invariant between operations\<close>

abbreviation busy :: "block \<Rightarrow> bool" where
  "busy x \<equiv> snd (snd x)"

definition heap_inv :: "heap_state \<Rightarrow> block list \<Rightarrow> bool" where
  "heap_inv s bs \<longleftrightarrow> h_initialized s \<and> core s bs (frees bs) \<and> successively (\<lambda>x y. busy x \<or> busy y) bs \<and>
     unat (heap_brk s) mod 4096 = 0"

lemma frees_append [simp]: "frees (xs @ ys) = frees xs @ frees ys"
  by (simp add: frees_def)

lemma frees_Cons [simp]: "frees ((b, n, u) # ys) = (if u then frees ys else b # frees ys)" "frees [] = []"
  by (simp_all add: frees_def)

lemma set_frees: "set (frees bs) = {b. \<exists>n. (b, n, False) \<in> set bs}"
  by (force simp: frees_def)

lemma core_stats [simp]: "core (upd_stats f s) bs fs \<longleftrightarrow> core s bs fs"
proof -
  have "view (upd_stats f s) z = view s z" for z
    by (simp add: view_def cong: if_cong)
  then show ?thesis
    by (simp add: core_def free_ring_def hdr_ok_def case_prod_beta)
qed

text \<open>The states agree on the limits of the heap and on the bytes in \<open>U\<close>.\<close>

definition keeps :: "(addr \<Rightarrow> bool) \<Rightarrow> heap_state \<Rightarrow> heap_state \<Rightarrow> bool" where
  "keeps U s t \<longleftrightarrow> heap_start t = heap_start s \<and> heap_end t = heap_end s \<and> heap_brk t = heap_brk s \<and>
     h_initialized t = h_initialized s \<and> (\<forall>x. U x \<longrightarrow> hmem t x = hmem s x)"

lemma keeps_trans: "keeps U s t \<Longrightarrow> keeps U t r \<Longrightarrow> keeps U s r"
  by (simp add: keeps_def)

lemma keeps_stats [simp]: "keeps U s (upd_stats f t) \<longleftrightarrow> keeps U s t" "keeps U (upd_stats f s) t \<longleftrightarrow> keeps U s t"
  by (simp_all add: keeps_def)

lemma pres_keeps: "pres bs s t \<Longrightarrow> (\<And>x. U x \<Longrightarrow> udata bs x) \<Longrightarrow> keeps U s t"
  by (simp add: pres_def keeps_def)

lemma udata_append [simp]: "udata (xs @ ys) x \<longleftrightarrow> udata xs x \<or> udata ys x"
  by (auto simp: udata_def)

lemma udata_Cons [simp]: "udata ((b, n, u) # ys) x \<longleftrightarrow> u \<and> unat b + 48 \<le> unat x \<and> unat x < unat b + n \<or> udata ys x"
  "\<not> udata [] x"
  by (auto simp: udata_def)

lemma core_header:
  assumes "core s bs fs" "(b, n, u) \<in> set bs"
  shows "unat (blk_size s b) = n" "blk_used s b = u" "blk_magic s b = HEAP_BLOCK_MAGIC"
  using assms by (auto simp: core_def hdr_ok_def)

lemma core_tiles: "core s bs fs \<Longrightarrow> tiles (unat (heap_start s)) bs (unat (heap_brk s))" "unat (heap_brk s) < 2 ^ 64"
  using unat_less_exp [of "heap_brk s"] by (simp_all add: core_def)

lemma frees_order:
  assumes "tiles a (xs @ (b, n, u) # ys) e" "e < 2 ^ 64"
  shows "\<forall>x \<in> set (frees xs). x < b" "\<forall>y \<in> set (frees ys). b < y"
proof -
  have n: "48 \<le> k" if "(c, k, v) \<in> set (xs @ (b, n, u) # ys)" for c k v
    using tiles_bounds [OF assms(1) that] by simp
  show "\<forall>x \<in> set (frees xs). x < b"
  proof
    fix x assume "x \<in> set (frees xs)"
    then obtain k where "(x, k, False) \<in> set xs" by (auto simp: set_frees)
    then show "x < b"
      using tiles_split(1) [OF assms, of "(x, k, False)"] n [of x k False] by (simp add: word_less_nat_alt)
  qed
  show "\<forall>y \<in> set (frees ys). b < y"
  proof
    fix y assume "y \<in> set (frees ys)"
    then obtain k where "(y, k, False) \<in> set ys" by (auto simp: set_frees)
    then show "b < y"
      using tiles_split(2) [OF assms, of "(y, k, False)"] n [of b n u] by (simp add: word_less_nat_alt)
  qed
qed

subsection \<open>Allocation\<close>

text \<open>The blocks after the free block \<open>b\<close> of \<open>n\<close> bytes was taken for \<open>need\<close> bytes.\<close>

definition taken :: "addr \<Rightarrow> nat \<Rightarrow> nat \<Rightarrow> block list" where
  "taken b n need =
     (if n - need < 48 then [(b, n, True)] else [(b, need, True), (b + of_nat need, n - need, False)])"

lemma split_block_ok:
  assumes c: "core s (xs @ (b, n, False) # ys) (frees xs @ frees ys)" and need: "unat wn = need"
    and n: "need \<le> n" "48 \<le> need" "need mod 16 = 0" "n - need < 32 \<or> 48 \<le> n - need"
  defines "bs' \<equiv> xs @ (if n - need < 48 then [(b, n, False)] else [(b, need, False), (b + wn, n - need, False)]) @ ys"
  shows "\<exists>t. split_block b wn s = Some t \<and>
    core t bs' (frees xs @ (if n - need < 48 then [] else [b + wn]) @ frees ys) \<and>
    keeps (udata (xs @ ys)) s t"
proof -
  have sz: "unat (blk_size s b) = n"
    using core_header [OF c, of b n False] by simp
  then have rem: "unat (blk_size s b - wn) = n - need"
    using n(1) need by (simp add: unat_sub_le word_le_nat_alt)
  show ?thesis
  proof (cases "n - need < 48")
    case True
    then have "\<not> blk_size s b - wn \<ge> HEAP_MIN_BLOCK"
      using rem n(4) by (simp add: word_le_nat_alt HEAP_MIN_BLOCK_def)
    then show ?thesis
      using True c by (simp add: split_block_def bs'_def keeps_def)
  next
    case False
    let ?nb = "b + wn" and ?t = "set_size b wn (init_free_block (b + wn) (blk_size s b - wn) s)"
    let ?bs = "xs @ (b, need, False) # (?nb, n - need, False) # ys"
    have t: "core ?t ?bs (frees xs @ frees ys)" "pres ?bs s ?t"
      using core_split [OF c _ n(2) _ n(3) refl need rem] n False by simp_all
    note tl = core_tiles(1) [OF t(1)] core_tiles(2) [of ?t]
    have "\<forall>x \<in> set (frees xs). x < ?nb" "\<forall>y \<in> set (frees ys). ?nb < y"
      using frees_order [of _ "xs @ [(b, need, False)]" ?nb "n - need" False ys] tl by auto
    moreover have "\<not> blk_used ?t ?nb"
      using core_header [OF t(1), of ?nb "n - need" False] by simp
    ultimately obtain r where r: "insert_to_free_list ?nb ?t = Some r"
      "core r ?bs (frees xs @ ?nb # frees ys)" "pres ?bs ?t r"
      using core_insert [OF t(1), of ?nb] by auto
    have "keeps (udata (xs @ ys)) s r"
      by (rule keeps_trans [of _ _ ?t]) (use t(2) r(3) in \<open>auto elim!: pres_keeps\<close>)
    moreover have "blk_size s b - wn \<ge> HEAP_MIN_BLOCK"
      using rem False by (simp add: word_le_nat_alt HEAP_MIN_BLOCK_def)
    ultimately show ?thesis
      using r False by (simp add: split_block_def bs'_def Let_def)
  qed
qed

lemma take_block_ok:
  assumes inv: "heap_inv s (xs @ (b, n, False) # ys)" and need: "unat wn = need"
    and n: "need \<le> n" "48 \<le> need" "need mod 16 = 0" "n - need < 32 \<or> 48 \<le> n - need"
  shows "\<exists>t. take_block b wn s = Some (b + 48, t) \<and> heap_inv t (xs @ taken b n need @ ys) \<and>
    keeps (udata (xs @ ys)) s t"
proof -
  let ?bs = "xs @ (b, n, False) # ys"
  have c: "core s ?bs (frees xs @ b # frees ys)"
    using inv by (simp add: heap_inv_def)
  have "\<not> blk_used s b"
    using core_header [OF c, of b n False] by simp
  then obtain s1 where s1: "remove_from_free_list b s = Some s1" "core s1 ?bs (frees xs @ frees ys)" "pres ?bs s s1"
    using core_remove [OF c] by auto
  obtain s2 where s2: "split_block b wn s1 = Some s2"
    "core s2 (xs @ (if n - need < 48 then [(b, n, False)] else [(b, need, False), (b + wn, n - need, False)]) @ ys)
      (frees xs @ (if n - need < 48 then [] else [b + wn]) @ frees ys)"
    "keeps (udata (xs @ ys)) s1 s2"
    using split_block_ok [OF s1(2) need n] by blast
  have wn: "of_nat need = wn"
    by (simp flip: need)
  let ?k = "if n - need < 48 then n else need"
  let ?zs = "if n - need < 48 then ys else (b + wn, n - need, False) # ys"
  have s2': "core s2 (xs @ (b, ?k, False) # ?zs) (frees xs @ frees ?zs)"
    using s2(2) by (simp split: if_splits)
  note s3 = core_set_used [OF s2', of True]
  have bl: "xs @ taken b n need @ ys = xs @ (b, ?k, True) # ?zs"
    by (simp add: taken_def wn)
  have k: "keeps (udata (xs @ ys)) s (set_used b True s2)"
    by (rule keeps_trans [OF keeps_trans [OF pres_keeps [OF s1(3)] s2(3)] pres_keeps [OF s3(2)]]) auto
  moreover have "successively (\<lambda>x y. busy x \<or> busy y) (xs @ taken b n need @ ys)"
    using inv by (auto simp: heap_inv_def taken_def successively_append_iff successively_Cons)
  ultimately have "heap_inv (set_used b True s2) (xs @ taken b n need @ ys)"
    using s3(1) inv unfolding bl by (auto simp: heap_inv_def keeps_def)
  then show ?thesis
    using k s1(1) s2(1) by (simp add: take_block_def Let_def block_to_ptr_def HEADER_def heap_inv_def)
qed

lemma total_size_ok:
  assumes "unat sz + 63 < 2 ^ 64"
  shows "unat (total_block_size sz) = (unat sz + 15) div 16 * 16 + 48"
proof -
  have "unat (sz + 15) = unat sz + 15"
    using assms by (subst unat_add_small) simp_all
  moreover have "(15 :: u64) = mask 4"
    by (simp add: mask_eq_exp_minus_1)
  ultimately have "unat (align_size sz) = (unat sz + 15) div 16 * 16"
    unfolding align_size_def HEAP_ALIGN_def using unat_and_not_mask [of "sz + 15" 4] by (simp add: add.commute)
  moreover have "(unat sz + 15) div 16 * 16 \<le> unat sz + 15"
    by simp
  ultimately show ?thesis
    using assms unfolding total_block_size_def HEADER_def by (subst unat_add_small) simp_all
qed

lemma total_size_mod: "unat sz + 63 < 2 ^ 64 \<Longrightarrow> unat (total_block_size sz) mod 16 = 0"
  "unat sz + 63 < 2 ^ 64 \<Longrightarrow> unat sz + 48 \<le> unat (total_block_size sz)"
  by (simp_all add: total_size_ok mod_add_eq)

text \<open>No free block leaves a remainder of 32 bytes, which is too short for the header it would get.\<close>

definition no_sliver :: "nat \<Rightarrow> block list \<Rightarrow> bool" where
  "no_sliver need bs \<longleftrightarrow> (\<forall>b n. (b, n, False) \<in> set bs \<longrightarrow> n \<noteq> need + 32)"

definition best_block :: "nat \<Rightarrow> block list \<Rightarrow> addr \<Rightarrow> nat \<Rightarrow> bool" where
  "best_block need bs b n \<longleftrightarrow> (b, n, False) \<in> set bs \<and> need \<le> n \<and>
     (\<forall>c k. (c, k, False) \<in> set bs \<and> need \<le> k \<longrightarrow> n \<le> k)"

definition fits :: "nat \<Rightarrow> block list \<Rightarrow> bool" where
  "fits need bs \<longleftrightarrow> (\<exists>b n. (b, n, False) \<in> set bs \<and> need \<le> n)"

lemma find_best_block:
  assumes "core s bs (frees bs)"
  shows "\<exists>b. find_best_fit wn s = Some b \<and>
    (if fits (unat wn) bs then b \<noteq> 0 \<and> (\<exists>n. best_block (unat wn) bs b n) else b = 0)"
proof -
  have f: "free_ring s (frees bs)" "0 \<notin> addrs bs"
    using assms core_blocks [OF assms] by (simp_all add: core_def)
  have fit: "wn \<le> blk_size s b \<longleftrightarrow> unat wn \<le> n" if "(b, n, False) \<in> set bs" for b n
    using core_header(1) [OF assms that] by (simp add: word_le_nat_alt)
  have cmp: "n \<le> k" if "(b, n, False) \<in> set bs" "(c, k, False) \<in> set bs" "blk_size s b \<le> blk_size s c" for b n c k
    using core_header(1) [OF assms that(1)] core_header(1) [OF assms that(2)] that(3) by (simp add: word_le_nat_alt)
  obtain r where r: "find_best_fit wn s = Some r"
    "if \<exists>x \<in> set (frees bs). wn \<le> blk_size s x
     then r \<in> set (frees bs) \<and> wn \<le> blk_size s r \<and> (\<forall>x \<in> set (frees bs). wn \<le> blk_size s x \<longrightarrow> blk_size s r \<le> blk_size s x)
     else r = 0"
    using find_best_fit_ok [OF f(1)] by blast
  have ex: "(\<exists>x \<in> set (frees bs). wn \<le> blk_size s x) \<longleftrightarrow> fits (unat wn) bs"
    using fit by (auto simp: fits_def set_frees)
  show ?thesis
  proof (cases "fits (unat wn) bs")
    case True
    with r(2) ex have b: "r \<in> set (frees bs)" "wn \<le> blk_size s r"
      "\<forall>x \<in> set (frees bs). wn \<le> blk_size s x \<longrightarrow> blk_size s r \<le> blk_size s x"
      by simp_all
    then obtain n where n: "(r, n, False) \<in> set bs" by (auto simp: set_frees)
    have "n \<le> k" if "(c, k, False) \<in> set bs" "unat wn \<le> k" for c k
    proof -
      have "c \<in> set (frees bs)" using that(1) by (auto simp: set_frees)
      then show ?thesis using cmp [OF n that(1)] b(3) fit [OF that(1)] that(2) by blast
    qed
    then have "best_block (unat wn) bs r n"
      using n fit [OF n] b(2) unfolding best_block_def by blast
    moreover have "r \<noteq> 0" using n f(2) by force
    ultimately show ?thesis
      using r(1) True by auto
  qed (use r ex in simp)
qed

lemma find_take_ok:
  assumes inv: "heap_inv s bs" and sz: "unat sz + 63 < 2 ^ 64"
  defines "need \<equiv> unat (total_block_size sz)"
  assumes f: "fits need bs" "no_sliver need bs"
  shows "\<exists>xs b n ys t. bs = xs @ (b, n, False) # ys \<and> best_block need bs b n \<and>
    find_best_fit (total_block_size sz) s = Some b \<and> b \<noteq> 0 \<and>
    take_block b (total_block_size sz) s = Some (b + 48, t) \<and> heap_inv t (xs @ taken b n need @ ys) \<and> keeps (udata bs) s t"
proof -
  have c: "core s bs (frees bs)"
    using inv by (simp add: heap_inv_def)
  obtain b n where b: "find_best_fit (total_block_size sz) s = Some b" "b \<noteq> 0" "best_block need bs b n"
    using find_best_block [OF c, of "total_block_size sz"] f(1) unfolding need_def by auto
  then obtain xs ys where bs: "bs = xs @ (b, n, False) # ys"
    by (meson best_block_def split_list)
  have "n mod 16 = 0"
    using tiles_bounds [OF core_tiles(1) [OF c], of b n False] by (simp add: bs)
  moreover have "need mod 16 = 0" "48 \<le> need" "need \<le> n"
    using total_size_mod [OF sz] b(3) by (simp_all add: need_def best_block_def)
  moreover have "n \<noteq> need + 32"
    using f(2) b(3) by (auto simp: no_sliver_def best_block_def)
  ultimately have "n - need < 32 \<or> 48 \<le> n - need"
    by presburger
  then obtain t where "take_block b (total_block_size sz) s = Some (b + 48, t)"
    "heap_inv t (xs @ taken b n need @ ys)" "keeps (udata (xs @ ys)) s t"
    using take_block_ok [OF inv [unfolded bs] _ \<open>need \<le> n\<close> \<open>48 \<le> need\<close> \<open>need mod 16 = 0\<close>] need_def by blast
  moreover have "udata bs = udata (xs @ ys)"
    by (simp add: bs fun_eq_iff)
  ultimately show ?thesis
    using b bs by (intro exI [of _ xs] exI [of _ b] exI [of _ n] exI [of _ ys] exI [of _ t]) auto
qed

subsection \<open>Release\<close>

lemma validate_ok:
  assumes "core s bs fs" "(b, n, u) \<in> set bs"
  shows "validate_block b s"
proof -
  note t = core_tiles(1) [OF assms(1)]
  have "unat b mod 16 = 0"
    using tiles_aligned [OF t _ assms(2)] assms(1) by (simp add: core_def)
  then have "unat (b AND mask 4) = 0"
    by (simp add: unat_and_mask)
  then have al: "b AND 15 = 0"
    by (simp add: mask_eq_exp_minus_1 unat_eq_0)
  have b: "unat (heap_start s) \<le> unat b" "unat b + n \<le> unat (heap_end s)" "48 \<le> n" "b \<noteq> 0"
    using tiles_bounds [OF t assms(2)] assms(1) core_blocks(3) [OF assms(1)] assms(2)
    by (force simp: core_def word_le_nat_alt)+
  then have "unat (b + blk_size s b) = unat b + n"
    using core_header(1) [OF assms] unat_less_exp [of "heap_end s"] by (simp add: unat_add_small)
  then show ?thesis
    using b al core_header [OF assms]
    by (simp add: validate_block_def HEAP_ALIGN_def HEADER_def word_le_nat_alt word_less_nat_alt)
qed

text \<open>The blocks behind and in front of a block that absorb it or are absorbed by it.\<close>

definition eat_next :: "nat \<Rightarrow> block list \<Rightarrow> nat \<times> block list" where
  "eat_next n ys = (case ys of (c, k, False) # ys' \<Rightarrow> (n + k, ys') | _ \<Rightarrow> (n, ys))"

lemma coalesce_next_ok:
  assumes c: "core s (xs @ (b, n, False) # ys) (frees (xs @ (b, n, False) # ys))"
  shows "\<exists>t. coalesce_next b s = Some t \<and>
    (let (m, zs) = eat_next n ys in core t (xs @ (b, m, False) # zs) (frees (xs @ (b, m, False) # zs))) \<and>
    keeps (udata (xs @ ys)) s t"
proof -
  note t = core_tiles(1) [OF c] core_tiles(2) [of s]
  have b: "unat b + n \<le> unat (heap_brk s)" "unat (blk_size s b) = n"
    using tiles_bounds [OF t(1), of b n False] core_header [OF c, of b n False] by simp_all
  then have nb: "unat (next_block b s) = unat b + n"
    using t(2) by (simp add: next_block_def unat_add_small)
  have tl: "tiles (unat b + n) ys (unat (heap_brk s))"
    using t(1) by (auto simp: tiles_append)
  have brk: "unat (heap_brk s) \<le> unat (heap_end s)"
    using c by (simp add: core_def word_le_nat_alt)
  show ?thesis
  proof (cases ys)
    case Nil
    then have "is_last_block b s"
      using tl nb by (simp add: is_last_block_def word_le_nat_alt)
    then show ?thesis
      using c Nil by (simp add: coalesce_next_def eat_next_def keeps_def)
  next
    case (Cons y zs)
    then obtain d k u where y: "y = (d, k, u)" "ys = (d, k, u) # zs" by (cases y) auto
    have d: "unat d = unat b + n" "unat d + k \<le> unat (heap_brk s)" "48 \<le> k"
      using tl y tiles_le by auto
    then have nd: "next_block b s = d" "\<not> is_last_block b s"
      using nb brk by (auto simp: is_last_block_def word_unat_eq_iff word_le_nat_alt)
    note hd = core_header [OF c, of d k u] validate_ok [OF c, of d k u]
    show ?thesis
    proof (cases u)
      case True
      then show ?thesis
        using c nd hd y by (simp add: coalesce_next_def eat_next_def keeps_def)
    next
      case False
      have c': "core s (xs @ (b, n, False) # (d, k, False) # zs) ((frees xs @ [b]) @ d # frees zs)"
        using c y False by simp
      obtain r where r: "remove_from_free_list d s = Some r"
        "core r (xs @ (b, n, False) # (d, k, False) # zs) ((frees xs @ [b]) @ frees zs)"
        "pres (xs @ (b, n, False) # (d, k, False) # zs) s r"
        using core_remove [OF c'] hd y False by auto
      have h2: "unat (blk_size r b) = n" "unat (blk_size r d) = k"
        using core_header(1) [OF r(2), of b n False] core_header(1) [OF r(2), of d k False] by simp_all
      then have w: "unat (blk_size r b + blk_size r d) = n + k"
        using d t(2) by (subst unat_add_small) simp_all
      have out: "d \<notin> set ((frees xs @ [b]) @ frees zs)"
        using c' by (auto simp: core_def free_ring_def ring_def)
      note m = core_merge [OF r(2) out w]
      have "keeps (udata (xs @ ys)) s (set_size b (blk_size r b + blk_size r d) r)"
        by (rule keeps_trans [OF pres_keeps [OF r(3)] pres_keeps [OF m(2)]]) (auto simp: y False)
      then show ?thesis
        using nd hd r(1) m(1) y False
        by (simp add: coalesce_next_def eat_next_def merged_stats_def)
    qed
  qed
qed

text \<open>The size of the block in front grows before the block behind leaves the free list.\<close>

lemma core_merge_prev:
  assumes c: "core s (xs @ (p, m, False) # (b, n, False) # ys) (as @ b # cs)" and w: "unat w = m + n"
  shows "\<exists>t. remove_from_free_list b (set_size p w s) = Some t \<and> core t (xs @ (p, m + n, False) # ys) (as @ cs) \<and>
    pres (xs @ (p, m, False) # (b, n, False) # ys) s t"
proof -
  let ?bs = "xs @ (p, m, False) # (b, n, False) # ys" and ?bs' = "xs @ (p, m + n, False) # ys" and ?s = "set_size p w s"
  note B = core_blocks [OF c] and t = core_tiles(1) [OF c] core_tiles(2) [of s]
  have t': "tiles (unat (heap_start s)) ?bs' (unat (heap_brk s))"
    using t(1) by (auto simp: tiles_append mod_add_eq add.assoc)
  have f: "free_ring s (as @ b # cs)" "set (as @ b # cs) \<subseteq> addrs ?bs" "sorted_wrt (<) (as @ b # cs)"
    using c by (simp_all add: core_def)
  have fr: "free_ring ?s (as @ b # cs)"
  proof (rule free_ring_frame [OF f(1)])
    fix x assume "x \<in> set (as @ b # cs)"
    then have "x \<in> addrs ?bs" using f(2) by blast
    then show "blk_next ?s x = blk_next s x \<and> blk_prev ?s x = blk_prev s x"
      by (simp add: fld [OF B(1)])
  qed simp
  have "\<not> blk_used ?s b"
    using core_header(2) [OF c, of b n False] by (simp add: fld [OF B(1)])
  then obtain r where r: "remove_from_free_list b ?s = Some r" "free_ring r (as @ cs)"
    "blk_prev r b = 0" "blk_next r b = 0" "links_only (addrs ?bs) (set (as @ b # cs)) ?s r"
    using remove_ok [OF B fr f(2)] by blast
  have out: "p \<notin> addrs xs" "p \<notin> addrs ys" "p \<noteq> b" "b \<notin> addrs xs" "b \<notin> addrs ys"
    using tiles_split(3,4) [OF t] tiles_split(3,4) [of _ "xs @ [(p, m, False)]" b n False ys] t by auto
  have lo: "blk_size r d = blk_size ?s d" "blk_used r d = blk_used ?s d" "blk_magic r d = blk_magic ?s d"
    "d \<notin> set (as @ b # cs) \<Longrightarrow> blk_prev r d = blk_prev ?s d \<and> blk_next r d = blk_next ?s d" if "d \<in> addrs ?bs" for d
    using r(5) that unfolding links_only_def by blast+
  have "hdr_ok r (set (as @ cs)) x" if "x \<in> set ?bs'" for x
  proof -
    obtain d k v where x: "x = (d, k, v)" by (cases x)
    have d: "d \<in> addrs ?bs" "d \<noteq> b" "(d, k, v) \<in> set ?bs \<and> d \<noteq> p \<or> d = p \<and> k = m + n \<and> v = False"
      using that out unfolding x by force+
    have "hdr_ok s (set (as @ b # cs)) (p, m, False)" "(d, k, v) \<in> set ?bs \<Longrightarrow> hdr_ok s (set (as @ b # cs)) (d, k, v)"
      using c by (auto simp: core_def)
    moreover have "blk_size r d = (if d = p then w else blk_size s d)" "blk_used r d = blk_used s d"
      "blk_magic r d = blk_magic s d"
      "d \<notin> set (as @ b # cs) \<Longrightarrow> blk_prev r d = blk_prev s d \<and> blk_next r d = blk_next s d"
      using lo [OF d(1)] d(1) by (simp_all add: fld [OF B(1)])
    ultimately show ?thesis
      using d(2,3) w unfolding x hdr_ok_def by (auto simp del: One_nat_def)
  qed
  moreover have "b \<notin> set (as @ cs)"
    using f(1) by (simp add: free_ring_def ring_def)
  then have "set (as @ cs) \<subseteq> addrs ?bs'"
    using f(2) by auto
  ultimately have "core r ?bs' (as @ cs)"
    using c r t' f(3) by (auto simp: core_def links_only_def sorted_wrt_append)
  moreover have "hmem r x = hmem s x" if "udata ?bs x" for x
  proof -
    have "hmem r x = hmem ?s x"
      using r(5) udata_header [OF t that] by (auto simp: links_only_def)
    also have "\<dots> = hmem s x"
      using hmem_set(1) [of p x w s] udata_header [OF t that, of p] B(2) by auto
    finally show ?thesis .
  qed
  ultimately show ?thesis
    using r(1,5) by (auto simp: pres_def links_only_def)
qed

definition eat_prev :: "block list \<Rightarrow> addr \<Rightarrow> nat \<Rightarrow> block list \<times> addr \<times> nat" where
  "eat_prev xs b n = (if xs \<noteq> [] \<and> \<not> busy (last xs) then (butlast xs, fst (last xs), fst (snd (last xs)) + n)
     else (xs, b, n))"

lemma last_free:
  assumes "frees xs \<noteq> []"
  obtains as m cs where "xs = as @ (last (frees xs), m, False) # cs" "frees cs = []" "frees xs = frees as @ [last (frees xs)]"
proof -
  have "\<exists>x \<in> set xs. \<not> busy x"
    using assms by (auto simp: frees_def filter_empty_conv case_prod_beta)
  then obtain as x cs where x: "xs = as @ x # cs" "\<not> busy x" "\<forall>z \<in> set cs. \<not> \<not> busy z"
    by (rule split_list_last_propE)
  then have "frees cs = []"
    by (auto simp: frees_def filter_empty_conv case_prod_beta)
  then show thesis
    using x(1,2) by (cases x) (auto intro: that)
qed

lemma coalesce_prev_ok:
  assumes c: "core s (xs @ (b, n, False) # ys) (frees (xs @ (b, n, False) # ys))"
  shows "\<exists>t. coalesce_prev b s = Some t \<and>
    (let (zs, p, m) = eat_prev xs b n in core t (zs @ (p, m, False) # ys) (frees (zs @ (p, m, False) # ys))) \<and>
    keeps (udata (xs @ ys)) s t"
proof -
  note t = core_tiles(1) [OF c] core_tiles(2) [of s]
  have "\<forall>y \<in> set (b # frees ys). \<not> y < b"
    using frees_order(2) [OF t] by auto
  moreover have "free_ring s (frees xs @ b # frees ys)"
    using c by (simp add: core_def)
  ultimately have fa: "free_around s b 0 (free_list s) = Some (last (0 # frees xs), b)"
    using free_around_ok [of s "frees xs" "b # frees ys" b] frees_order(1) [OF t] by simp
  show ?thesis
  proof (cases "frees xs = []")
    case True
    then have "eat_prev xs b n = (xs, b, n)"
      by (auto simp: eat_prev_def frees_def filter_empty_conv case_prod_beta)
    then show ?thesis
      using fa True c by (simp add: coalesce_prev_def keeps_def)
  next
    case False
    define p where "p = last (frees xs)"
    obtain as m cs where xs: "xs = as @ (p, m, False) # cs" "frees cs = []" "frees xs = frees as @ [p]"
      using last_free [OF False] unfolding p_def by blast
    have p: "unat (blk_size s p) = m" "unat (p + blk_size s p) = unat p + m" "p \<noteq> 0"
    proof -
      show sz: "unat (blk_size s p) = m"
        using core_header(1) [OF c, of p m False] xs(1) by simp
      have "unat p + m \<le> unat (heap_brk s)"
        using tiles_bounds [OF t(1), of p m False] xs(1) by simp
      then show "unat (p + blk_size s p) = unat p + m"
        using sz t(2) by (simp add: unat_add_small)
      show "p \<noteq> 0"
        using core_blocks(3) [OF c] xs(1) by force
    qed
    have tl: "tiles (unat p + m) cs (unat b)"
      using t(1) unfolding xs(1) by (auto simp: tiles_append)
    show ?thesis
    proof (cases "cs = []")
      case True
      then have b: "p + blk_size s p = b" "xs = as @ [(p, m, False)]" "eat_prev xs b n = (as, p, m + n)"
        using tl p(2) xs(1) by (auto simp: word_unat_eq_iff eat_prev_def)
      have "unat b + n \<le> unat (heap_brk s)" "unat (blk_size s b) = n"
        using tiles_bounds [OF t(1), of b n False] core_header(1) [OF c, of b n False] by simp_all
      then have "unat (blk_size s p + blk_size s b) = m + n"
        using p(1) t(2) tl True by (subst unat_add_small) simp_all
      moreover have "core s (as @ (p, m, False) # (b, n, False) # ys) ((frees as @ [p]) @ b # frees ys)"
        using c b(2) by simp
      ultimately obtain r where r: "remove_from_free_list b (set_size p (blk_size s p + blk_size s b) s) = Some r"
        "core r (as @ (p, m + n, False) # ys) ((frees as @ [p]) @ frees ys)"
        "pres (as @ (p, m, False) # (b, n, False) # ys) s r"
        using core_merge_prev by blast
      then have "keeps (udata (xs @ ys)) s r"
        using b(2) by (auto elim!: pres_keeps)
      then show ?thesis
        using fa False r b p(3) by (simp add: coalesce_prev_def merged_stats_def flip: p_def)
    next
      case cs: False
      then obtain d k u cs' where "cs = (d, k, u) # cs'" by (cases cs) auto
      then have "unat p + m < unat b"
        using tl tiles_le [of "unat p + m + k" cs' "unat b"] by auto
      then have "p + blk_size s p \<noteq> b"
        using p(2) by auto
      moreover have "busy (last xs)"
        using xs(1,2) cs by (auto simp: frees_def filter_empty_conv case_prod_beta)
      then have "eat_prev xs b n = (xs, b, n)"
        by (simp add: eat_prev_def)
      ultimately show ?thesis
        using fa False c by (simp add: coalesce_prev_def keeps_def flip: p_def)
    qed
  qed
qed

lemma coalesce_block_ok:
  assumes c: "core s (xs @ (b, n, False) # ys) (frees (xs @ (b, n, False) # ys))"
  shows "\<exists>t. coalesce_block b s = Some t \<and>
    (let (m, ys') = eat_next n ys; (xs', p, k) = eat_prev xs b m
     in core t (xs' @ (p, k, False) # ys') (frees (xs' @ (p, k, False) # ys'))) \<and>
    keeps (udata (xs @ ys)) s t"
proof -
  obtain m ys' where m: "eat_next n ys = (m, ys')" by fastforce
  obtain r where r: "coalesce_next b s = Some r" "core r (xs @ (b, m, False) # ys') (frees (xs @ (b, m, False) # ys'))"
    "keeps (udata (xs @ ys)) s r"
    using coalesce_next_ok [OF c] by (auto simp: m)
  obtain t where t: "coalesce_prev b r = Some t"
    "let (xs', p, k) = eat_prev xs b m in core t (xs' @ (p, k, False) # ys') (frees (xs' @ (p, k, False) # ys'))"
    "keeps (udata (xs @ ys')) r t"
    using coalesce_prev_ok [OF r(2)] by blast
  have "udata ys = udata ys'"
    using m by (auto simp: eat_next_def fun_eq_iff split: list.splits prod.splits bool.splits)
  then have "udata (xs @ ys) = udata (xs @ ys')"
    by (simp add: fun_eq_iff)
  then have "keeps (udata (xs @ ys)) s t"
    using keeps_trans [OF r(3)] t(3) by metis
  then show ?thesis
    using r(1) t core_header(2) [OF c, of b n False] by (simp add: coalesce_block_def m)
qed

text \<open>
  The blocks after the release of a block between \<open>xs\<close> and \<open>ys\<close>: it is joined with its free
  neighbours.
\<close>

definition released :: "block list \<Rightarrow> addr \<Rightarrow> nat \<Rightarrow> block list \<Rightarrow> block list" where
  "released xs b n ys = (let (m, ys') = eat_next n ys; (xs', p, k) = eat_prev xs b m in xs' @ (p, k, False) # ys')"

lemma released_apart:
  assumes "successively (\<lambda>x y. busy x \<or> busy y) xs" "successively (\<lambda>x y. busy x \<or> busy y) ys"
  shows "successively (\<lambda>x y. busy x \<or> busy y) (released xs b n ys)"
proof -
  obtain m ys' where m: "eat_next n ys = (m, ys')" by fastforce
  have y: "successively (\<lambda>x y. busy x \<or> busy y) ys'" "ys' \<noteq> [] \<longrightarrow> busy (hd ys')"
    using m assms(2) by (auto simp: eat_next_def successively_Cons split: list.splits prod.splits bool.splits)
  have join: "successively (\<lambda>x y. busy x \<or> busy y) (zs @ z # ys')"
    if "successively (\<lambda>x y. busy x \<or> busy y) zs" "zs = [] \<or> busy (last zs)" for zs z
    using that y by (cases "zs = []"; cases "ys' = []") (simp_all add: successively_append_iff successively_Cons)
  show ?thesis
  proof (cases xs rule: rev_cases)
    case Nil
    then show ?thesis
      using join [of "[]"] by (simp add: released_def m eat_prev_def)
  next
    case (snoc zs z)
    then have "successively (\<lambda>x y. busy x \<or> busy y) zs" "zs = [] \<or> busy (last zs) \<or> busy z"
      using assms(1) by (auto simp: successively_append_iff)
    then show ?thesis
      using join [of zs] join [of xs] assms(1) snoc by (cases "busy z") (simp_all add: released_def m eat_prev_def)
  qed
qed

lemma udata_released: "udata (released xs b n ys) x \<longleftrightarrow> udata (xs @ ys) x"
proof -
  have "udata ys x \<longleftrightarrow> udata (snd (eat_next n ys)) x"
    by (auto simp: eat_next_def split: list.splits prod.splits bool.splits)
  moreover have "udata xs x \<longleftrightarrow> udata (fst (eat_prev xs b m)) x" for m
    by (cases xs rule: rev_cases) (auto simp: eat_prev_def)
  ultimately show ?thesis
    by (auto simp: released_def case_prod_beta Let_def)
qed

lemma kfree_insert_ok:
  assumes c: "core s (xs @ (b, n, False) # ys) (frees (xs @ ys))" and init: "h_initialized s" "unat (heap_brk s) mod 4096 = 0"
    and adj: "successively (\<lambda>x y. busy x \<or> busy y) xs" "successively (\<lambda>x y. busy x \<or> busy y) ys"
  shows "\<exists>t. kfree_insert b s = Some t \<and> heap_inv t (released xs b n ys) \<and> keeps (udata (xs @ ys)) s t"
proof -
  let ?bs = "xs @ (b, n, False) # ys"
  note t = core_tiles(1) [OF c] core_tiles(2) [of s]
  obtain r where r: "insert_to_free_list b s = Some r" "core r ?bs (frees ?bs)" "pres ?bs s r"
    using core_insert [of s ?bs "frees xs" "frees ys" b] c frees_order [OF t] core_header(2) [OF c, of b n False]
    by auto
  obtain u where u: "coalesce_block b r = Some u" "core u (released xs b n ys) (frees (released xs b n ys))"
    "keeps (udata (xs @ ys)) r u"
    using coalesce_block_ok [OF r(2)] by (auto simp: released_def case_prod_beta Let_def)
  have k: "keeps (udata (xs @ ys)) s u"
    by (rule keeps_trans [OF pres_keeps [OF r(3)] u(3)]) auto
  then show ?thesis
    using r(1) u init released_apart [OF adj] by (auto simp: kfree_insert_def heap_inv_def keeps_def)
qed

lemma kfree_ok:
  assumes inv: "heap_inv s (xs @ (b, n, True) # ys)" and ptr: "ptr \<noteq> 0" "ptr_to_block ptr s = b"
  shows "\<exists>t. kfree ptr s = Some t \<and> heap_inv t (released xs b n ys) \<and> keeps (udata (xs @ ys)) s t"
proof -
  let ?bs = "xs @ (b, n, True) # ys"
  have c: "core s ?bs (frees (xs @ ys))" and i: "h_initialized s" "unat (heap_brk s) mod 4096 = 0"
    and adj: "successively (\<lambda>x y. busy x \<or> busy y) ?bs"
    using inv by (simp_all add: heap_inv_def)
  have ok: "validate_block b s" "blk_used s b"
    using validate_ok [OF c, of b n True] core_header(2) [OF c, of b n True] by simp_all
  note u = core_set_used [OF c, of False]
  obtain s1 where s1: "kfree_mark ptr s = (Some b, s1)" "core s1 (xs @ (b, n, False) # ys) (frees (xs @ ys))"
    "keeps (udata (xs @ ys)) s s1" "h_initialized s1" "unat (heap_brk s1) mod 4096 = 0"
    using i ptr ok u(1) pres_keeps [OF u(3), of "udata (xs @ ys)"]
    by (simp add: kfree_mark_def Let_def)
  have "successively (\<lambda>x y. busy x \<or> busy y) xs" "successively (\<lambda>x y. busy x \<or> busy y) ys"
    using adj by (auto simp: successively_append_iff successively_Cons)
  then obtain t where "kfree_insert b s1 = Some t" "heap_inv t (released xs b n ys)" "keeps (udata (xs @ ys)) s1 t"
    using kfree_insert_ok [OF s1(2,4,5)] by blast
  then show ?thesis
    using s1(1) keeps_trans [OF s1(3)] by (auto simp: kfree_def)
qed

subsection \<open>Growing the heap\<close>

lemma overwrite_apart: "apart a n c k \<Longrightarrow> mload k (overwrite a n g m) c = mload k m c"
  by (intro mload_cong) (auto simp: overwrite_def not_less dest: apart_byte [of a n c k])

lemma blk_overwrite:
  assumes "apart a n c 48" "0 < n" "n \<le> 2 ^ 64"
  shows "blk_size (s\<lparr>hmem := overwrite a n g (hmem s)\<rparr>) c = blk_size s c"
    "blk_used (s\<lparr>hmem := overwrite a n g (hmem s)\<rparr>) c = blk_used s c"
    "blk_prev (s\<lparr>hmem := overwrite a n g (hmem s)\<rparr>) c = blk_prev s c"
    "blk_next (s\<lparr>hmem := overwrite a n g (hmem s)\<rparr>) c = blk_next s c"
    "blk_magic (s\<lparr>hmem := overwrite a n g (hmem s)\<rparr>) c = blk_magic s c"
proof -
  have p: "apart a n (c + of_nat j) k" if "j + k \<le> 48" "0 < k" for j k
    using apart_parts [OF assms(1), of 0 n j k] assms(2,3) that by simp
  show "blk_size (s\<lparr>hmem := overwrite a n g (hmem s)\<rparr>) c = blk_size s c"
    "blk_used (s\<lparr>hmem := overwrite a n g (hmem s)\<rparr>) c = blk_used s c"
    "blk_prev (s\<lparr>hmem := overwrite a n g (hmem s)\<rparr>) c = blk_prev s c"
    "blk_next (s\<lparr>hmem := overwrite a n g (hmem s)\<rparr>) c = blk_next s c"
    "blk_magic (s\<lparr>hmem := overwrite a n g (hmem s)\<rparr>) c = blk_magic s c"
    using p [of 0 8] p [of 8 1] p [of 16 8] p [of 24 8] p [of 32 4]
    by (simp_all add: field_defs overwrite_apart)
qed

lemma core_append:
  fixes g :: "addr \<Rightarrow> u8"
  assumes c: "core (s\<lparr>heap_brk := a\<rparr>) bs fs"
    and k: "unat wk = k" "48 < k" "k mod 16 = 0" "unat a + k \<le> unat (heap_end s)"
  defines "u \<equiv> init_free_block a wk s"
  defines "t \<equiv> u\<lparr>hmem := overwrite (a + 48) (k - 48) g (hmem u)\<rparr>"
  shows "core (t\<lparr>heap_brk := a + wk\<rparr>) (bs @ [(a, k, False)]) fs"
    "udata bs x \<Longrightarrow> hmem t x = hmem s x" "a \<notin> addrs bs" "hstats t = hstats s" "h_initialized t = h_initialized s"
proof -
  let ?bs = "bs @ [(a, k, False)]"
  have e: "unat a + k < 2 ^ 64"
    using k(4) unat_less_exp [of "heap_end s"] by simp
  have tl: "tiles (unat (heap_start s)) bs (unat a)" "0 < unat (heap_start s)" "unat (heap_start s) mod 16 = 0"
    using c by (simp_all add: core_def)
  then have t': "tiles (unat (heap_start s)) ?bs (unat a + k)"
    using k by (auto simp: tiles_append)
  note B = separate_tiles [OF t' e]
  have below: "unat d + 48 \<le> unat a" if "d \<in> addrs bs" for d
    using that tiles_bounds [OF tl(1)] by fastforce
  then show new: "a \<notin> addrs bs"
    by fastforce
  have a48: "unat (a + 48) = unat a + 48"
    using k(2) e by (subst unat_add_small) simp_all
  have fl: "blk_size t d = blk_size u d" "blk_used t d = blk_used u d" "blk_prev t d = blk_prev u d"
    "blk_next t d = blk_next u d" "blk_magic t d = blk_magic u d" if "d \<in> addrs ?bs" for d
  proof -
    have "unat d + 48 \<le> unat (a + 48)"
      using that below by (force simp: a48)
    then have "apart (a + 48) (k - 48) d 48"
      using outside_area [of "a + 48" "k - 48" d] outside_area [of d 48 "a + 48"] e k(2) a48
      by (simp add: apart_def)
    then show "blk_size t d = blk_size u d" "blk_used t d = blk_used u d" "blk_prev t d = blk_prev u d"
      "blk_next t d = blk_next u d" "blk_magic t d = blk_magic u d"
      unfolding t_def using blk_overwrite k(2) e by simp_all
  qed
  note fields = fl [unfolded u_def] init_free_block_fields [OF B]
  have "hdr_ok t (set fs) y" if "y \<in> set ?bs" for y
  proof -
    obtain d m v where y: "y = (d, m, v)" by (cases y)
    have d: "d \<in> addrs ?bs" "(d, m, v) \<in> set bs \<and> d \<noteq> a \<or> d = a \<and> m = k \<and> v = False"
      using that new unfolding y by force+
    have "hdr_ok s (set fs) (d, m, v)" if "(d, m, v) \<in> set bs"
      using c that by (auto simp: core_def hdr_ok_def)
    then show ?thesis
      using d k(1) by (auto simp: y hdr_ok_def fields)
  qed
  moreover have "free_ring t fs"
  proof (rule free_ring_frame [of s])
    have "free_ring (s\<lparr>heap_brk := a\<rparr>) fs"
      using c by (simp add: core_def)
    then show "free_ring s fs"
      by (rule free_ring_frame) simp_all
    fix d assume "d \<in> set fs"
    then have "d \<in> addrs bs" using c by (auto simp: core_def)
    then show "blk_next t d = blk_next s d \<and> blk_prev t d = blk_prev s d"
      using new by (auto simp: fields)
  qed (simp add: t_def u_def)
  then have "free_ring (t\<lparr>heap_brk := a + wk\<rparr>) fs"
    by (rule free_ring_frame) simp_all
  ultimately show "core (t\<lparr>heap_brk := a + wk\<rparr>) ?bs fs"
    using c t' tl k e unfolding core_def
    by (auto simp: t_def u_def unat_add_small word_le_nat_alt hdr_ok_def)
  show "hmem t x = hmem s x" if "udata bs x"
  proof -
    have "unat x < unat a"
      using that tiles_bounds [OF tl(1)] by (fastforce simp: udata_def)
    then have "k - 48 \<le> unat (x - (a + 48))" "48 \<le> unat (x - a)"
      using outside_area [of "a + 48" "k - 48" x] outside_area [of a 48 x] e k(2) a48 by simp_all
    then show ?thesis
      using \<open>unat x < unat a\<close> e k(2) by (simp add: t_def u_def overwrite_def init_free_block_def hmem_set)
  qed
qed (simp_all add: t_def u_def)

lemma links_only_brk: "links_only B F s t \<Longrightarrow> links_only B F (s\<lparr>heap_brk := e\<rparr>) (t\<lparr>heap_brk := e\<rparr>)"
  by (simp add: links_only_def)

lemma core_append_insert:
  assumes "core (t\<lparr>heap_brk := e\<rparr>) (bs @ [(a, k, False)]) (frees bs)" "a \<notin> addrs bs"
  shows "\<exists>r. insert_to_free_list a t = Some r \<and> blk_size r a = blk_size t a \<and>
    core (r\<lparr>heap_brk := e\<rparr>) (bs @ [(a, k, False)]) (frees (bs @ [(a, k, False)])) \<and>
    pres (bs @ [(a, k, False)]) (t\<lparr>heap_brk := e\<rparr>) (r\<lparr>heap_brk := e\<rparr>)"
proof -
  let ?bs = "bs @ [(a, k, False)]" and ?t = "t\<lparr>heap_brk := e\<rparr>"
  note B = core_blocks [OF assms(1)] and tl = core_tiles(1) [OF assms(1)] core_tiles(2) [of ?t]
  have f: "free_ring ?t (frees bs)" "sorted_wrt (<) (frees bs)"
    using assms(1) by (simp_all add: core_def)
  have sub: "set (frees bs @ []) \<subseteq> addrs ?bs"
    by (force simp: set_frees)
  have ring: "free_ring t (frees bs @ [])"
    using free_ring_frame [OF f(1), of t] by simp
  have lt: "\<forall>x \<in> set (frees bs). x < a"
    using frees_order(1) [of _ bs a k False "[]"] tl by simp
  have "a \<notin> set (frees bs)"
    using lt by auto
  then have hdr: "\<not> blk_used t a" "blk_prev t a = 0" "blk_next t a = 0"
    using assms(1) by (simp_all add: core_def hdr_ok_def)
  have aB: "a \<in> addrs ?bs" by simp
  obtain r where r: "insert_to_free_list a t = Some r" "free_ring r (frees bs @ [a])"
    "links_only (addrs ?bs) (set (frees bs @ [a])) t r"
    using insert_ok [OF B ring sub aB hdr lt] by auto
  have "free_ring (r\<lparr>heap_brk := e\<rparr>) (frees bs @ [a])"
    by (rule free_ring_frame [OF r(2)]) simp_all
  note cl = core_links [OF assms(1) links_only_brk [OF r(3)] this]
  have "core (r\<lparr>heap_brk := e\<rparr>) ?bs (frees bs @ [a])" "pres ?bs ?t (r\<lparr>heap_brk := e\<rparr>)"
    using cl sub f(2) lt by (auto simp: sorted_wrt_append)
  moreover have "blk_size r a = blk_size t a"
    using r(3) by (simp add: links_only_def)
  ultimately show ?thesis
    using r(1) by simp
qed

definition page_need :: "u64 \<Rightarrow> nat" where
  "page_need min_needed = max 4 ((unat min_needed + 4095) div 4096)"

lemma page_count_ok:
  assumes "unat mn + 4095 < 2 ^ 64"
  shows "(if (mn + 4096 - 1) div 4096 < 4 then 4 else (mn + 4096 - 1) div 4096) = (of_nat (page_need mn) :: u64)"
    "unat (of_nat (page_need mn) :: u64) = page_need mn"
proof -
  have "unat (mn + 4095) = unat mn + 4095"
    using assms by (subst unat_add_small) simp_all
  then have u: "unat ((mn + 4095) div 4096) = (unat mn + 4095) div 4096"
    by (simp add: unat_div_distrib)
  have "page_need mn < 2 ^ 64"
    using assms by (simp add: page_need_def)
  then show n: "unat (of_nat (page_need mn) :: u64) = page_need mn"
    by (simp add: unat_of_nat_small)
  show "(if (mn + 4096 - 1) div 4096 < 4 then 4 else (mn + 4096 - 1) div 4096) = (of_nat (page_need mn) :: u64)"
  proof -
    have m: "mn + 4096 - 1 = mn + 4095"
      by simp
    have "(mn + 4095) div 4096 < 4 \<longleftrightarrow> (unat mn + 4095) div 4096 < 4"
      using u by (simp add: word_less_nat_alt)
    then show ?thesis
      unfolding m using u n by (cases "(unat mn + 4095) div 4096 < 4") (simp_all add: word_unat_eq_iff page_need_def)
  qed
qed

lemma expand_ok:
  assumes c: "core (s\<lparr>heap_brk := a\<rparr>) bs (frees bs)" and adj: "successively (\<lambda>x y. busy x \<or> busy y) bs"
    and a: "a = (if heap_brk s = 0 then KERNEL_HEAP_BASE else heap_brk s)" "unat a mod 4096 = 0"
    and mn: "unat mn + 4095 < 2 ^ 64" "unat a + page_need mn * 4096 \<le> unat (heap_end s)"
    and vmm: "vmm a (of_nat (page_need mn))"
  shows "\<exists>t. expand_heap_locked vmm mn s = Some (HEAP_OK, t) \<and>
    core t (released bs a (page_need mn * 4096) []) (frees (released bs a (page_need mn * 4096) [])) \<and>
    unat (heap_brk t) = unat a + page_need mn * 4096 \<and> heap_start t = heap_start s \<and> heap_end t = heap_end s \<and>
    h_initialized t = h_initialized s \<and> (\<forall>x. udata bs x \<longrightarrow> hmem t x = hmem s x)"
proof -
  let ?k = "page_need mn * 4096"
  define wk :: u64 where "wk = of_nat (page_need mn) * 4096"
  have e: "unat a + ?k < 2 ^ 64" "16384 \<le> ?k"
    using mn(2) unat_less_exp [of "heap_end s"] by (simp_all add: page_need_def)
  have wk: "unat wk = ?k"
    using e(1) page_count_ok(2) [OF mn(1)] by (simp add: wk_def unat_word_ariths)
  have "unat (a + 4095) = unat a + 4095"
    using e by (subst unat_add_small) simp_all
  moreover obtain q where q: "unat a = 4096 * q"
    using a(2) by (auto simp: mod_eq_0_iff_dvd)
  then have "(unat a + 4095) div 4096 * 4096 = unat a"
    by simp
  ultimately have "unat ((a + 4095) AND NOT (mask 12)) = unat a"
    using unat_and_not_mask [of "a + 4095" 12] by simp
  then have al: "(a + 4096 - 1) AND NOT (4096 - 1) = a"
    by (simp add: word_unat_eq_iff mask_eq_exp_minus_1 add.commute)
  define u where "u = init_free_block a wk s"
  define t1 where "t1 = u\<lparr>hmem := overwrite (a + 48) (?k - 48) (\<lambda>_. ucast (0 :: u32)) (hmem u)\<rparr>"
  have k: "48 < ?k" "?k mod 16 = 0"
    using e(2) by (simp_all add: mod_eq_0_iff_dvd)
  note ap = core_append(1,2,5) [OF c wk k mn(2), where g = "\<lambda>_. ucast (0 :: u32)", folded u_def, folded t1_def]
  obtain r where r: "insert_to_free_list a t1 = Some r" "blk_size r a = blk_size t1 a"
    "core (r\<lparr>heap_brk := a + wk\<rparr>) (bs @ [(a, ?k, False)]) (frees (bs @ [(a, ?k, False)]))"
    "pres (bs @ [(a, ?k, False)]) (t1\<lparr>heap_brk := a + wk\<rparr>) (r\<lparr>heap_brk := a + wk\<rparr>)"
    using core_append_insert [OF ap(1) core_append(3) [OF c wk k mn(2)]] by blast
  have sz: "blk_size u a = wk" "blk_size r a = wk"
    using core_header(1) [OF r(3), of a ?k False] wk
    by (simp_all add: u_def init_free_block_def word_unat_eq_iff)
  let ?f = "\<lambda>t. t\<lparr>hs_total_bytes := hs_total_bytes t + wk, hs_free_bytes := hs_free_bytes t + wk,
    hs_total_blocks := hs_total_blocks t + 1, hs_free_blocks := hs_free_blocks t + 1, hs_expand_count := hs_expand_count t + 1\<rparr>"
  obtain t where t: "coalesce_block a (upd_stats ?f (r\<lparr>heap_brk := a + wk\<rparr>)) = Some t"
    "core t (released bs a ?k []) (frees (released bs a ?k []))"
    "keeps (udata bs) (upd_stats ?f (r\<lparr>heap_brk := a + wk\<rparr>)) t"
    using coalesce_block_ok [of "upd_stats ?f (r\<lparr>heap_brk := a + wk\<rparr>)" bs a ?k "[]"] r(3)
    by (auto simp: released_def case_prod_beta Let_def)
  have "a + 48 \<noteq> 0"
    using e k(1) unat_add_small [of a 48] by auto
  moreover have "unat (wk - 48) = ?k - 48"
    using wk k(1) by (subst unat_sub_le) (simp_all add: word_le_nat_alt)
  ultimately have ms: "memset (a + 48) 0 (wk - 48) (hmem u) = Some (a + 48, hmem t1)"
    by (simp add: memset_ok t1_def)
  have "expand_heap_locked vmm mn s = Some (HEAP_OK, t)"
    unfolding expand_heap_locked_def Let_def page_count_ok(1) [OF mn(1)] a(1) [symmetric] al wk_def [symmetric] u_def [symmetric]
    using vmm ms sz r(1) t(1) by (simp add: HEADER_def t1_def)
  moreover have "hmem t x = hmem s x" if "udata bs x" for x
    using t(3) r(4) ap(2) [OF that] that by (simp add: keeps_def pres_def)
  ultimately show ?thesis
    using t r(4) ap(3) e(1) wk by (auto simp: keeps_def pres_def t1_def u_def unat_add_small)
qed

end
