(* ===== verification/Kheap_Main.thy ===== *)
theory Kheap_Main
  imports Kheap_Props
begin

text \<open>
  The properties of the heap's interface, stated over the allocations that are live: the user
  pointers with the number of bytes their blocks hold.
\<close>

definition live :: "block list \<Rightarrow> (addr \<times> nat) set" where
  "live bs = {(b + 48, n - 48) | b n. (b, n, True) \<in> set bs}"

definition area :: "addr \<times> nat \<Rightarrow> addr set" where
  "area = (\<lambda>(p, n). {x. unat p \<le> unat x \<and> unat x < unat p + n})"

lemma live_append [simp]: "live (xs @ ys) = live xs \<union> live ys"
  by (auto simp: live_def)

lemma live_Cons [simp]: "live ((b, n, u) # ys) = (if u then insert (b + 48, n - 48) (live ys) else live ys)" "live [] = {}"
  by (auto simp: live_def)

lemma live_taken: "live (taken b n need) = {(b + 48, (if n - need < 48 then n else need) - 48)}"
  by (simp add: taken_def)

lemma live_released: "live (released xs b n ys) = live xs \<union> live ys"
proof -
  have "live ys = live (snd (eat_next n ys))"
    by (auto simp: eat_next_def split: list.splits prod.splits bool.splits)
  moreover have "live xs = live (fst (eat_prev xs b m))" for m
    by (cases xs rule: rev_cases) (auto simp: eat_prev_def)
  ultimately show ?thesis
    by (auto simp: released_def case_prod_beta Let_def)
qed

lemma block_ptr:
  assumes "heap_inv s bs" "(b, n, u) \<in> set bs"
  shows "unat (b + 48) = unat b + 48" "48 \<le> n" "unat b + n \<le> unat (heap_brk s)" "unat (b + 48) mod 16 = 0" "b + 48 \<noteq> 0"
proof -
  have c: "core s bs (frees bs)"
    using assms(1) by (simp add: heap_inv_def)
  note b = tiles_bounds [OF core_tiles(1) [OF c] assms(2)]
  show u: "unat (b + 48) = unat b + 48"
    using b core_tiles(2) [of s] by (subst unat_add_small) simp_all
  show "48 \<le> n" "unat b + n \<le> unat (heap_brk s)"
    using b by simp_all
  have "unat b mod 16 = 0"
    using tiles_aligned [OF core_tiles(1) [OF c] _ assms(2)] c by (simp add: core_def)
  then show "unat (b + 48) mod 16 = 0"
    unfolding u by presburger
  show "b + 48 \<noteq> 0"
    using u by auto
qed

lemma udata_live:
  assumes "heap_inv s bs"
  shows "udata bs x \<longleftrightarrow> (\<exists>a \<in> live bs. x \<in> area a)"
proof
  assume "udata bs x"
  then obtain b n where b: "(b, n, True) \<in> set bs" "unat b + 48 \<le> unat x" "unat x < unat b + n"
    by (auto simp: udata_def)
  then have "(b + 48, n - 48) \<in> live bs" "x \<in> area (b + 48, n - 48)"
    using block_ptr(1,2) [OF assms b(1)] by (auto simp: live_def area_def)
  then show "\<exists>a \<in> live bs. x \<in> area a" by blast
next
  assume "\<exists>a \<in> live bs. x \<in> area a"
  then obtain b n where b: "(b, n, True) \<in> set bs" "x \<in> area (b + 48, n - 48)"
    by (auto simp: live_def)
  then show "udata bs x"
    using block_ptr(1,2) [OF assms b(1)] by (auto simp: udata_def area_def)
qed

text \<open>Live areas are disjoint, aligned and inside the heap.\<close>

lemma live_ok:
  assumes "heap_inv s bs" "a \<in> live bs"
  shows "unat (fst a) mod 16 = 0" "fst a \<noteq> 0" "area a \<subseteq> {x. unat (heap_start s) \<le> unat x \<and> unat x < unat (heap_brk s)}"
    and "c \<in> live bs \<Longrightarrow> c \<noteq> a \<Longrightarrow> area c \<inter> area a = {}"
proof -
  have c: "core s bs (frees bs)"
    using assms(1) by (simp add: heap_inv_def)
  note t = core_tiles(1) [OF c] core_tiles(2) [of s]
  obtain b n where b: "(b, n, True) \<in> set bs" "a = (b + 48, n - 48)"
    using assms(2) by (auto simp: live_def)
  note bp = block_ptr [OF assms(1) b(1)]
  show "unat (fst a) mod 16 = 0" "fst a \<noteq> 0"
    using bp b(2) by simp_all
  show "area a \<subseteq> {x. unat (heap_start s) \<le> unat x \<and> unat x < unat (heap_brk s)}"
    using bp b tiles_bounds [OF t(1) b(1)] by (auto simp: area_def)
  show "area c \<inter> area a = {}" if cl: "c \<in> live bs" "c \<noteq> a"
  proof -
    obtain d k where d: "(d, k, True) \<in> set bs" "c = (d + 48, k - 48)"
      using cl(1) by (auto simp: live_def)
    have "d \<noteq> b"
    proof
      assume "d = b"
      then have "n = k"
        using core_header(1) [OF c b(1)] core_header(1) [OF c d(1)] by simp
      then show False using cl(2) b(2) d(2) \<open>d = b\<close> by simp
    qed
    then show ?thesis
      using tiles_disjoint [OF t d(1) b(1)] bp block_ptr [OF assms(1) d(1)] b(2) d(2) by (auto simp: area_def)
  qed
qed

lemma kmalloc_fit:
  assumes inv: "heap_inv s bs" and sz: "sz \<noteq> 0" "unat sz + 63 < 2 ^ 64"
    and f: "fits (unat (total_block_size sz)) bs" "no_sliver (unat (total_block_size sz)) bs"
  shows "\<exists>xs b n ys t. bs = xs @ (b, n, False) # ys \<and> best_block (unat (total_block_size sz)) bs b n \<and>
    kmalloc vmm sz s = Some (b + 48, t) \<and> heap_inv t (xs @ taken b n (unat (total_block_size sz)) @ ys) \<and>
    keeps (udata bs) s t"
proof -
  have "h_initialized s" using inv by (simp add: heap_inv_def)
  then have "kmalloc vmm sz s = Some (b + 48, t)"
    if "find_best_fit (total_block_size sz) s = Some b" "b \<noteq> 0" "take_block b (total_block_size sz) s = Some (b + 48, t)" for b t
    using that sz(1) by (simp add: kmalloc_def Let_def)
  then show ?thesis
    using find_take_ok [OF inv sz(2) f] by metis
qed

text \<open>The heap after an expansion by \<open>k\<close> bytes.\<close>

definition grown :: "heap_state \<Rightarrow> block list \<Rightarrow> u64 \<Rightarrow> block list" where
  "grown s bs sz = released bs (heap_brk s) (page_need (total_block_size sz) * 4096) []"

definition can_grow :: "(addr \<Rightarrow> u64 \<Rightarrow> bool) \<Rightarrow> heap_state \<Rightarrow> u64 \<Rightarrow> bool" where
  "can_grow vmm s sz \<longleftrightarrow> vmm (heap_brk s) (of_nat (page_need (total_block_size sz))) \<and>
     unat (heap_brk s) + page_need (total_block_size sz) * 4096 \<le> unat (heap_end s)"

lemma brk_page: 
  assumes "heap_inv s bs"
  shows "4096 \<le> unat (heap_brk s)" "heap_brk s \<noteq> 0"
proof -
  have "0 < unat (heap_start s)" "unat (heap_start s) \<le> unat (heap_brk s)"
    using assms tiles_le core_tiles(1) by (auto simp: heap_inv_def core_def)
  moreover obtain q where "unat (heap_brk s) = 4096 * q"
    using assms by (auto simp: heap_inv_def mod_eq_0_iff_dvd)
  ultimately show "4096 \<le> unat (heap_brk s)" "heap_brk s \<noteq> 0"
    by auto
qed

lemma grown_fits: "fits (unat (total_block_size sz)) (grown s bs sz)"
proof -
  let ?k = "page_need (total_block_size sz) * 4096"
  have "unat (total_block_size sz) \<le> (unat (total_block_size sz) + 4095) div 4096 * 4096"
    by simp
  then have "unat (total_block_size sz) \<le> ?k"
    by (simp add: page_need_def max_def)
  moreover have "\<exists>b n. (b, n, False) \<in> set (released bs a k []) \<and> k \<le> n" for a k
    by (auto simp: released_def eat_next_def eat_prev_def Let_def)
      (rule exI [of _ "fst (last bs)"], rule exI [of _ "fst (snd (last bs)) + k"], simp)
  ultimately show ?thesis
    unfolding fits_def grown_def by (meson le_trans)
qed

lemma grow_ok:
  assumes inv: "heap_inv s bs" and g: "can_grow vmm s sz"
  shows "\<exists>t. expand_heap_locked vmm (total_block_size sz) s = Some (HEAP_OK, t) \<and> heap_inv t (grown s bs sz) \<and>
    (\<forall>x. udata bs x \<longrightarrow> hmem t x = hmem s x)"
proof -
  let ?mn = "total_block_size sz" and ?k = "page_need (total_block_size sz) * 4096"
  have i: "core s bs (frees bs)" "successively (\<lambda>x y. busy x \<or> busy y) bs" "unat (heap_brk s) mod 4096 = 0" "h_initialized s"
    using inv by (simp_all add: heap_inv_def)
  have g': "vmm (heap_brk s) (of_nat (page_need ?mn))" "unat (heap_brk s) + ?k \<le> unat (heap_end s)"
    using g by (simp_all add: can_grow_def)
  have "unat ?mn \<le> ?k"
    unfolding page_need_def using div_mult_mod_eq [of "unat ?mn + 4095" 4096] mod_less_divisor [of 4096 "unat ?mn + 4095"]
    by (simp add: max_def) linarith
  then have mn: "unat ?mn + 4095 < 2 ^ 64"
    using g'(2) brk_page(1) [OF inv] unat_less_exp [of "heap_end s"] by simp
  have a: "heap_brk s = (if heap_brk s = 0 then KERNEL_HEAP_BASE else heap_brk s)"
    using brk_page(2) [OF inv] by simp
  have c: "core (s\<lparr>heap_brk := heap_brk s\<rparr>) bs (frees bs)"
    using i(1) by simp
  obtain t where t: "expand_heap_locked vmm ?mn s = Some (HEAP_OK, t)"
    "core t (grown s bs sz) (frees (grown s bs sz))"
    "unat (heap_brk t) = unat (heap_brk s) + ?k" "h_initialized t = h_initialized s"
    "\<forall>x. udata bs x \<longrightarrow> hmem t x = hmem s x"
    using expand_ok [where vmm = vmm, OF c i(2) a i(3) mn g'(2,1)] unfolding grown_def by blast
  have "unat (heap_brk t) mod 4096 = 0"
    using t(3) i(3) by (simp add: mod_add_eq)
  moreover have "successively (\<lambda>x y. busy x \<or> busy y) (grown s bs sz)"
    unfolding grown_def by (rule released_apart) (use i(2) in simp_all)
  ultimately show ?thesis
    using t i(4) by (auto simp: heap_inv_def)
qed

lemma live_grown: "live (grown s bs sz) = live bs"
  by (simp add: grown_def live_released)

lemma heap_init_ok:
  assumes "\<not> h_initialized s" "vmm KERNEL_HEAP_BASE 16"
  shows "\<exists>t. heap_init vmm s = Some (HEAP_OK, t) \<and> heap_inv t [(KERNEL_HEAP_BASE, 65536, False)]"
proof -
  define s0 where "s0 = \<lparr>heap_start = KERNEL_HEAP_BASE, heap_end = KERNEL_HEAP_MAX, heap_brk = 0,
    free_list = 0, hstats = zero_stats, h_initialized = False, hmem = hmem s\<rparr>"
  note lims = KERNEL_HEAP_BASE_def KERNEL_HEAP_MAX_def
  have "free_ring (s0\<lparr>heap_brk := KERNEL_HEAP_BASE\<rparr>) []"
    by (simp add: free_ring_def ring_def view_def s0_def)
  then have c: "core (s0\<lparr>heap_brk := KERNEL_HEAP_BASE\<rparr>) [] (frees [])"
    by (simp add: core_def s0_def lims)
  have pn: "page_need 0x10000 = 16"
    by (simp add: page_need_def)
  have a: "KERNEL_HEAP_BASE = (if heap_brk s0 = 0 then KERNEL_HEAP_BASE else heap_brk s0)"
    by (simp add: s0_def)
  have "released [] KERNEL_HEAP_BASE (page_need 0x10000 * 4096) [] = [(KERNEL_HEAP_BASE, 65536, False)]"
    by (simp add: released_def eat_next_def eat_prev_def pn)
  then obtain t where t: "expand_heap_locked vmm 0x10000 s0 = Some (HEAP_OK, t)"
    "core t [(KERNEL_HEAP_BASE, 65536, False)] (frees [(KERNEL_HEAP_BASE, 65536, False)])"
    "unat (heap_brk t) = unat KERNEL_HEAP_BASE + 65536" "heap_start t = KERNEL_HEAP_BASE"
    using expand_ok [where vmm = vmm and mn = "0x10000", OF c _ a] assms(2) by (auto simp: pn s0_def lims)
  have fl: "free_list t = KERNEL_HEAP_BASE"
    using free_ring_ends(4) [of t "[]" KERNEL_HEAP_BASE "[]"] t(2) by (simp add: core_def)
  have "core (t\<lparr>h_initialized := True\<rparr>) [(KERNEL_HEAP_BASE, 65536, False)] [KERNEL_HEAP_BASE]"
    using t(2) free_ring_frame [of t _ "t\<lparr>h_initialized := True\<rparr>"] by (auto simp: core_def hdr_ok_def)
  then have "heap_inv (t\<lparr>h_initialized := True\<rparr>) [(KERNEL_HEAP_BASE, 65536, False)]"
    using t(3) by (simp add: heap_inv_def lims)
  moreover have "t\<lparr>heap_start := free_list t, h_initialized := True\<rparr> = t\<lparr>h_initialized := True\<rparr>"
    using fl t(4) by (metis heap_state.surjective heap_state.update_convs(1))
  ultimately show ?thesis
    using assms(1) t(1) by (simp add: heap_init_def HEAP_INIT_PAGES_def flip: s0_def)
qed

definition blank_heap :: heap_state where
  "blank_heap = \<lparr>heap_start = 0, heap_end = 0, heap_brk = 0, free_list = 0, hstats = zero_stats,
     h_initialized = False, hmem = (\<lambda>_. 0)\<rparr>"

lemma demo_heap:
  obtains t where "heap_init (\<lambda>_ _. True) blank_heap = Some (HEAP_OK, t)" "heap_inv t [(KERNEL_HEAP_BASE, 65536, False)]"
  using heap_init_ok [of blank_heap "\<lambda>_ _. True"] by (auto simp: blank_heap_def)

subsection \<open>The properties\<close>

lemma kmalloc_total:
  assumes inv: "heap_inv s bs" and sz: "sz \<noteq> 0" "unat sz + 63 < 2 ^ 64"
    and ok: "if fits (unat (total_block_size sz)) bs then no_sliver (unat (total_block_size sz)) bs
      else can_grow vmm s sz \<and> no_sliver (unat (total_block_size sz)) (grown s bs sz)"
  shows "\<exists>xs b n ys t. kmalloc vmm sz s = Some (b + 48, t) \<and> unat (total_block_size sz) \<le> n \<and>
    heap_inv t (xs @ taken b n (unat (total_block_size sz)) @ ys) \<and> live (xs @ ys) = live bs \<and>
    (\<forall>x. udata bs x \<longrightarrow> hmem t x = hmem s x)"
proof (cases "fits (unat (total_block_size sz)) bs")
  case True
  then obtain xs b n ys t where t: "bs = xs @ (b, n, False) # ys" "best_block (unat (total_block_size sz)) bs b n"
    "kmalloc vmm sz s = Some (b + 48, t)" "heap_inv t (xs @ taken b n (unat (total_block_size sz)) @ ys)" "keeps (udata bs) s t"
    using kmalloc_fit [OF inv sz, of vmm] ok by auto
  moreover have "live (xs @ ys) = live bs"
    by (simp add: t(1))
  ultimately show ?thesis
    unfolding keeps_def best_block_def by blast
next
  case False
  then have g: "can_grow vmm s sz" "no_sliver (unat (total_block_size sz)) (grown s bs sz)"
    using ok by auto
  obtain r where r: "expand_heap_locked vmm (total_block_size sz) s = Some (HEAP_OK, r)" "heap_inv r (grown s bs sz)"
    "\<forall>x. udata bs x \<longrightarrow> hmem r x = hmem s x"
    using grow_ok [OF inv g(1)] by blast
  obtain xs b n ys t where t: "grown s bs sz = xs @ (b, n, False) # ys" "best_block (unat (total_block_size sz)) (grown s bs sz) b n"
    "find_best_fit (total_block_size sz) r = Some b" "b \<noteq> 0" "take_block b (total_block_size sz) r = Some (b + 48, t)"
    "heap_inv t (xs @ taken b n (unat (total_block_size sz)) @ ys)" "keeps (udata (grown s bs sz)) r t"
    using find_take_ok [OF r(2) sz(2) grown_fits g(2)] by blast
  have "find_best_fit (total_block_size sz) s = Some 0"
    using find_best_block [of s bs "total_block_size sz"] inv False by (auto simp: heap_inv_def)
  then have "kmalloc vmm sz s = Some (b + 48, t)"
    using inv sz(1) r(1) t(3-5) by (simp add: kmalloc_def heap_inv_def Let_def)
  moreover have "live (xs @ ys) = live bs"
    using live_grown [of s bs sz] by (simp add: t(1))
  moreover have "udata (grown s bs sz) x \<longleftrightarrow> udata bs x" for x
    by (simp add: grown_def udata_released)
  then have "\<forall>x. udata bs x \<longrightarrow> hmem t x = hmem s x"
    using t(7) r(3) by (simp add: keeps_def)
  ultimately show ?thesis
    using t(2,6) unfolding best_block_def by blast
qed

lemma taken_new:
  assumes "heap_inv t (xs @ taken b n need @ ys)"
  shows "(b + 48, k) \<notin> live (xs @ ys)"
proof
  assume "(b + 48, k) \<in> live (xs @ ys)"
  then have "b \<in> addrs xs \<union> addrs ys"
    by (force simp: live_def)
  moreover obtain m zs where z: "xs @ taken b n need @ ys = xs @ (b, m, True) # zs @ ys"
    by (cases "n - need < 48") (simp_all add: taken_def)
  have c: "core t (xs @ (b, m, True) # zs @ ys) (frees (xs @ (b, m, True) # zs @ ys))"
    using assms by (simp add: heap_inv_def z)
  note tiles_split(3,4) [OF core_tiles(1) [OF c] core_tiles(2)]
  ultimately show False
    by auto
qed

text \<open>
  C4: \<^verbatim>\<open>kmalloc\<close> is safe. On a well-formed heap it returns, for every size below the wrap-around, a
  fresh block: 16-byte aligned, at least as large as requested, disjoint from every live allocation,
  whose contents it leaves alone, and the heap stays well formed. It grows the heap when no free block is
  large enough. The hypotheses are that the memory for growing is there and that no free block is
  larger than needed by exactly 32 bytes.
\<close>

theorem kmalloc_fresh:
  assumes "heap_inv s bs" "sz \<noteq> 0" "unat sz + 63 < 2 ^ 64"
    and "if fits (unat (total_block_size sz)) bs then no_sliver (unat (total_block_size sz)) bs
      else can_grow vmm s sz \<and> no_sliver (unat (total_block_size sz)) (grown s bs sz)"
  shows "\<exists>p n t bs'. kmalloc vmm sz s = Some (p, t) \<and> heap_inv t bs' \<and> live bs' = insert (p, n) (live bs) \<and>
    p \<noteq> 0 \<and> unat p mod 16 = 0 \<and> unat sz \<le> n \<and>
    (\<forall>a \<in> live bs. area a \<inter> area (p, n) = {} \<and> (\<forall>x \<in> area a. hmem t x = hmem s x))"
proof -
  let ?need = "unat (total_block_size sz)"
  obtain xs b n ys t where t: "kmalloc vmm sz s = Some (b + 48, t)" "?need \<le> n"
    "heap_inv t (xs @ taken b n ?need @ ys)" "live (xs @ ys) = live bs" "\<forall>x. udata bs x \<longrightarrow> hmem t x = hmem s x"
    using kmalloc_total [OF assms] by blast
  define k where "k = (if n - ?need < 48 then n else ?need) - 48"
  have lv: "live (xs @ taken b n ?need @ ys) = insert (b + 48, k) (live bs)"
    using t(4) live_taken [of b n ?need] by (auto simp: k_def)
  note ok = live_ok [OF t(3), of "(b + 48, k)"]
  have k: "unat sz \<le> k"
    using t(2) total_size_mod(2) [OF assms(3)] by (auto simp: k_def)
  have "(b + 48, k) \<notin> live bs"
    using taken_new [OF t(3), of k] unfolding t(4) .
  then have sep: "area a \<inter> area (b + 48, k) = {} \<and> (\<forall>x \<in> area a. hmem t x = hmem s x)" if "a \<in> live bs" for a
    using ok(4) [of a] lv that t(5) udata_live [OF assms(1)] by auto
  have p: "b + 48 \<noteq> 0" "unat (b + 48) mod 16 = 0"
    using ok(1,2) lv by auto
  show ?thesis
    by (rule exI [of _ "b + 48"], rule exI [of _ k], rule exI [of _ t], rule exI [of _ "xs @ taken b n ?need @ ys"])
      (use t(1,3) lv k p sep in blast)
qed

theorem kmalloc_fresh_witness:
  "\<exists>t p u. heap_init (\<lambda>_ _. True) blank_heap = Some (HEAP_OK, t) \<and> kmalloc (\<lambda>_ _. True) 100 t = Some (p, u) \<and> p \<noteq> 0"
proof -
  obtain t where t: "heap_init (\<lambda>_ _. True) blank_heap = Some (HEAP_OK, t)" "heap_inv t [(KERNEL_HEAP_BASE, 65536, False)]"
    by (rule demo_heap)
  have "unat (total_block_size 100) = 160"
    by (simp add: total_size_ok)
  then have "fits (unat (total_block_size 100)) [(KERNEL_HEAP_BASE, 65536, False)]"
    "no_sliver (unat (total_block_size 100)) [(KERNEL_HEAP_BASE, 65536, False)]"
    by (simp_all add: fits_def no_sliver_def)
  then show ?thesis
    using kmalloc_fresh [OF t(2), of 100 "\<lambda>_ _. True"] t(1) by auto
qed

text \<open>
  The word in front of a user pointer, the end of the header's padding, does not look like the
  pointer that \<open>kmalloc_aligned\<close> leaves there.
\<close>

definition plain_ptr :: "heap_state \<Rightarrow> addr \<Rightarrow> bool" where
  "plain_ptr s p \<longleftrightarrow> (let w = mload 8 (hmem s) (p - 8) in \<not> (heap_start s \<le> w \<and> w < heap_brk s))"

lemma plain_ptr_block: "plain_ptr s (b + 48) \<Longrightarrow> ptr_to_block (b + 48) s = b"
  by (auto simp: plain_ptr_def ptr_to_block_def Let_def HEADER_def)

lemma live_block:
  assumes "heap_inv s bs" "(p, n) \<in> live bs"
  obtains xs b ys where "bs = xs @ (b, n + 48, True) # ys" "p = b + 48" "(p, n) \<notin> live (xs @ ys)"
proof -
  obtain b k where b: "(b, k, True) \<in> set bs" "p = b + 48" "n = k - 48"
    using assms(2) by (auto simp: live_def)
  moreover have "48 \<le> k"
    by (rule block_ptr(2) [OF assms(1) b(1)])
  ultimately have "(b, n + 48, True) \<in> set bs" by simp
  then obtain xs ys where bs: "bs = xs @ (b, n + 48, True) # ys"
    by (meson split_list)
  have c: "core s bs (frees bs)"
    using assms(1) by (simp add: heap_inv_def)
  have "b \<notin> addrs xs" "b \<notin> addrs ys"
    using tiles_split(3,4) [OF core_tiles(1) [OF c, unfolded bs] core_tiles(2)] .
  then have "(p, n) \<notin> live (xs @ ys)"
    using b(2) by (force simp: live_def)
  then show thesis
    using that bs b(2) by blast
qed

lemma kfree_live:
  assumes "heap_inv s bs" "(p, n) \<in> live bs" "\<And>b. p = b + 48 \<Longrightarrow> ptr_to_block q s = b" "q \<noteq> 0"
  shows "\<exists>t bs'. kfree q s = Some t \<and> heap_inv t bs' \<and> live bs' = live bs - {(p, n)} \<and>
    (\<forall>a \<in> live bs - {(p, n)}. \<forall>x \<in> area a. hmem t x = hmem s x)"
proof -
  obtain xs b ys where b: "bs = xs @ (b, n + 48, True) # ys" "p = b + 48" "(p, n) \<notin> live (xs @ ys)"
    by (rule live_block [OF assms(1,2)])
  obtain t where t: "kfree q s = Some t" "heap_inv t (released xs b (n + 48) ys)" "keeps (udata (xs @ ys)) s t"
    using kfree_ok [OF assms(1) [unfolded b(1)] assms(4)] assms(3) [OF b(2)] by blast
  have lv: "live (released xs b (n + 48) ys) = live bs - {(p, n)}"
    using b by (auto simp: live_released)
  have "hmem t x = hmem s x" if "a \<in> live bs - {(p, n)}" "x \<in> area a" for a x
  proof -
    have "udata (released xs b (n + 48) ys) x"
      using udata_live [OF t(2)] lv that by blast
    then show ?thesis
      using t(3) by (auto simp: udata_released keeps_def)
  qed
  then show ?thesis
    using t(1,2) lv by blast
qed

text \<open>Two heaps of one block of 4096 bytes, free and allocated, for the witnesses.\<close>

definition demo_base :: heap_state where
  "demo_base = \<lparr>heap_start = 0x1000, heap_end = 0x10000, heap_brk = 0x2000, free_list = 0, hstats = zero_stats,
     h_initialized = True, hmem = (\<lambda>_. 0)\<rparr>"

definition demo_used :: heap_state where
  "demo_used = set_magic 0x1000 HEAP_BLOCK_MAGIC (set_used 0x1000 True (set_size 0x1000 4096 demo_base))"

definition demo_free :: heap_state where
  "demo_free = (init_free_block 0x1000 4096 demo_base)\<lparr>free_list := 0x1000\<rparr>"

lemma load_zero: "mload n (\<lambda>_. 0) a = 0"
  by (rule bit_eqI) (simp add: mload_def bit_load_le)

lemma demo_blocks: "heap_inv demo_used [(0x1000, 4096, True)]" "heap_inv demo_free [(0x1000, 4096, False)]"
proof -
  have "free_ring demo_used []"
    by (simp add: free_ring_def ring_def view_def demo_used_def demo_base_def)
  then show "heap_inv demo_used [(0x1000, 4096, True)]"
    by (simp add: heap_inv_def core_def hdr_ok_def demo_used_def)
      (simp add: demo_base_def blk_prev_def blk_next_def load_zero)
  have "free_ring demo_free [0x1000]"
    by (simp add: free_ring_def ring_def view_def demo_free_def init_free_block_def)
  then show "heap_inv demo_free [(0x1000, 4096, False)]"
    by (simp add: heap_inv_def core_def hdr_ok_def demo_free_def init_free_block_def)
      (simp add: demo_base_def)
qed

lemma demo_plain: "plain_ptr demo_used 0x1030"
proof -
  have "mload 8 (hmem demo_used) 0x1028 = (0 :: u64)"
    using apart_fields [of 0 8 40 8 "0x1000"] apart_fields [of 8 1 40 8 "0x1000"] apart_fields [of 32 4 40 8 "0x1000"]
    by (simp add: demo_used_def set_magic_def set_used_def set_size_def demo_base_def mload_mstore_apart load_zero)
  then show ?thesis
    by (simp add: plain_ptr_def demo_used_def demo_base_def)
qed



lemma released_taken:
  assumes "successively (\<lambda>x y. busy x \<or> busy y) (xs @ (b, n, False) # ys)" "need \<le> n"
  obtains m zs where "xs @ taken b n need @ ys = xs @ (b, m, True) # zs" "released xs b m zs = xs @ (b, n, False) # ys"
proof -
  have y: "ys = [] \<or> busy (hd ys)" and x: "xs = [] \<or> busy (last xs)"
    using assms(1) by (auto simp: successively_append_iff successively_Cons)
  have "eat_next n ys = (n, ys)"
    using y by (cases ys) (auto simp: eat_next_def split: prod.splits bool.splits)
  moreover have "eat_prev xs b m = (xs, b, m)" for m
    using x by (auto simp: eat_prev_def)
  ultimately show thesis
    using that [of n ys] that [of need "(b + of_nat need, n - need, False) # ys"] assms(2)
    by (cases "n - need < 48") (simp_all add: taken_def released_def eat_next_def)
qed



subsection \<open>Where the heap goes wrong\<close>

lemma load_low: "ucast (mload 8 m a :: u64) = (mload 4 m a :: u32)"
  by (rule bit_eqI) (auto simp: bit_simps mload_def bit_load_le)

lemma sliver_split:
  assumes c: "core s bs []" "bs = xs @ (b, n, False) # (c, k, u) # ys" "n = unat wn + 32" "48 \<le> unat wn"
  shows "\<exists>t. split_block b wn s = Some t \<and> blk_magic (set_used b True t) (b + wn) = HEAP_BLOCK_MAGIC \<and> b + wn + 32 = c"
proof -
  note t = core_tiles(1) [OF c(1), unfolded c(2)] core_tiles(2) [of s]
  have b: "unat b + n = unat c" "unat c + 48 \<le> 2 ^ 64" "unat (blk_size s b) = n"
    using t core_header(1) [OF c(1), of b n False] tiles_le tiles_bounds [OF t(1), of c k u]
    by (auto simp: tiles_append c(2))
  have nb: "unat (b + wn) = unat b + unat wn"
    using b(1) c(3) unat_less_exp [of c] by (simp add: unat_add_small)
  have "hapart b (b + wn)"
    by (rule hapart_nat) (use nb b c(3,4) in simp_all)
  then have B: "separate {b, b + wn}"
    by (simp add: separate_def apart_commute)
  have "b + wn \<noteq> 0" "b \<noteq> b + wn"
    using nb c(4) by auto
  have rem: "blk_size s b - wn = 32"
    using b(3) c(3) by (simp add: word_unat_eq_iff unat_sub_le word_le_nat_alt)
  have fl: "free_list s = 0"
    using c(1) by (simp add: core_def free_ring_def ring_def view_def)
  define r where "r = set_size b wn (init_free_block (b + wn) 32 s)"
  define r2 where "r2 = (set_bprev (b + wn) 0 (set_bnext (b + wn) 0 r))\<lparr>free_list := b + wn\<rparr>"
  have "\<not> blk_used r (b + wn)" "blk_prev r (b + wn) = 0" "blk_next r (b + wn) = 0" "free_list r = 0"
    by (simp_all add: r_def fld [OF B] init_free_block_fields [OF B] fl)
  then have "insert_to_free_list (b + wn) r = Some r2"
    by (simp add: insert_to_free_list_def free_around.simps r2_def)
  then have "\<exists>f. split_block b wn s = Some (upd_stats f r2)"
    unfolding split_block_def rem r_def [symmetric] Let_def by (auto simp: HEAP_MIN_BLOCK_def)
  moreover have "blk_magic (set_used b True (upd_stats f r2)) (b + wn) = HEAP_BLOCK_MAGIC" for f
    by (simp add: r2_def r_def fld [OF B] init_free_block_fields [OF B])
  moreover have "b + wn + 32 = c"
    using b(1) nb c(3) unat_less_exp [of c] by (subst word_unat_eq_iff, subst unat_add_small) simp_all
  ultimately show ?thesis
    by auto
qed

text \<open>
  A remainder of 32 bytes corrupts the heap. \<^verbatim>\<open>HEAP_MIN_BLOCK\<close> is 32 although a header has 48
  bytes, so when the only free block is larger than needed by 32, \<^verbatim>\<open>split_block\<close> writes a header whose
  magic number overwrites the low half of the size of the block behind it, which may be in use.
\<close>

theorem kmalloc_sliver_corrupts:
  assumes "heap_inv s (xs @ (b, unat (total_block_size sz) + 32, False) # (c, k, u) # ys)"
    and "frees (xs @ (c, k, u) # ys) = []" "sz \<noteq> 0" "unat sz + 63 < 2 ^ 64"
  shows "\<exists>t. kmalloc vmm sz s = Some (b + 48, t) \<and> ucast (blk_size t c) = HEAP_BLOCK_MAGIC \<and> unat (blk_size t c) \<noteq> k"
proof -
  let ?w = "total_block_size sz"
  let ?bs = "xs @ (b, unat ?w + 32, False) # (c, k, u) # ys"
  have co: "core s ?bs ([] @ b # [])" and i: "h_initialized s"
    using assms(1,2) by (auto simp: heap_inv_def)
  have fr: "frees ?bs = [b]"
    using assms(2) by auto
  have "fits (unat ?w) ?bs"
    unfolding fits_def by (rule exI [of _ b], rule exI [of _ "unat ?w + 32"]) simp
  then obtain r n where r: "find_best_fit ?w s = Some r" "r \<noteq> 0" "best_block (unat ?w) ?bs r n"
    using find_best_block [of s ?bs ?w] assms(1) by (auto simp: heap_inv_def)
  then have "r \<in> set (frees ?bs)"
    unfolding set_frees best_block_def by blast
  then have rb: "r = b"
    unfolding fr by simp
  have "\<not> blk_used s b"
    using core_header(2) [OF co, of b "unat ?w + 32" False] by simp
  then obtain s1 where s1: "remove_from_free_list b s = Some s1" "core s1 ?bs []"
    using core_remove [OF co] by auto
  have "48 \<le> unat ?w"
    using total_size_mod(2) [OF assms(4)] by simp
  then obtain t where t: "split_block b ?w s1 = Some t" "blk_magic (set_used b True t) (b + ?w) = HEAP_BLOCK_MAGIC"
    "b + ?w + 32 = c"
    using sliver_split [OF s1(2) refl refl] by blast
  then have m: "ucast (blk_size (set_used b True t) c) = HEAP_BLOCK_MAGIC"
    by (simp add: blk_size_def load_low blk_magic_def)
  obtain f where km: "kmalloc vmm sz s = Some (b + 48, upd_stats f (set_used b True t))"
    using i assms(3) r(1,2) s1(1) t(1) unfolding rb
    by (simp add: kmalloc_def take_block_def block_to_ptr_def HEADER_def Let_def)
  have k: "k mod 16 = 0"
    using tiles_bounds [OF core_tiles(1) [OF co], of c k u] by simp
  have "unat (blk_size (set_used b True t) c) mod 2 ^ 32 = 0x114514"
    using m by (simp add: HEAP_BLOCK_MAGIC_def word_unat_eq_iff unsigned_ucast_eq take_bit_eq_mod [where 'a = nat])
  moreover have "k mod 2 ^ 32 mod 16 = 0"
    using k by (simp add: mod_mod_cancel)
  ultimately have "unat (blk_size (set_used b True t) c) \<noteq> k"
    by auto
  then show ?thesis
    using km m by auto
qed

definition demo_sliver :: heap_state where
  "demo_sliver = (set_magic 0x1060 HEAP_BLOCK_MAGIC (set_used 0x1060 True (set_size 0x1060 4000
     (init_free_block 0x1000 96 demo_base))))\<lparr>free_list := 0x1000\<rparr>"

lemma demo_sliver_inv: "heap_inv demo_sliver [(0x1000, 96, False), (0x1060, 4000, True)]"
proof -
  have "hapart 0x1000 0x1060"
    by (rule hapart_nat) simp_all
  then have B: "separate {0x1000, 0x1060}"
    by (simp add: separate_def apart_commute)
  have f: "blk_size demo_sliver 0x1000 = 96" "\<not> blk_used demo_sliver 0x1000" "blk_prev demo_sliver 0x1000 = 0"
    "blk_next demo_sliver 0x1000 = 0" "blk_magic demo_sliver 0x1000 = HEAP_BLOCK_MAGIC"
    "blk_size demo_sliver 0x1060 = 4000" "blk_used demo_sliver 0x1060" "blk_magic demo_sliver 0x1060 = HEAP_BLOCK_MAGIC"
    by (simp_all add: demo_sliver_def fld [OF B] init_free_block_fields [OF B])
  have z: "blk_prev demo_sliver 0x1060 = 0" "blk_next demo_sliver 0x1060 = 0"
    by (simp_all add: demo_sliver_def fld [OF B] init_free_block_fields [OF B])
      (simp_all add: demo_base_def blk_prev_def blk_next_def load_zero)
  have g: "heap_start demo_sliver = 0x1000" "heap_end demo_sliver = 0x10000" "heap_brk demo_sliver = 0x2000"
    "free_list demo_sliver = 0x1000" "h_initialized demo_sliver"
    by (simp_all add: demo_sliver_def) (simp_all add: demo_base_def)
  have "free_ring demo_sliver [0x1000]"
    by (simp add: free_ring_def ring_def view_def f g)
  then show ?thesis
    by (simp add: heap_inv_def core_def hdr_ok_def f z g)
qed

theorem kmalloc_sliver_corrupts_witness:
  "\<exists>t. kmalloc (\<lambda>_ _. True) 16 demo_sliver = Some (0x1030, t) \<and> unat (blk_size t 0x1060) \<noteq> 4000"
proof -
  have "unat (total_block_size 16) = 64"
    by (simp add: total_size_ok)
  then show ?thesis
    using kmalloc_sliver_corrupts [of demo_sliver "[]" "0x1000" 16 "0x1060" 4000 True "[]" "\<lambda>_ _. True"] demo_sliver_inv
    by auto
qed

end
