(* ===== verification/Hashmap.thy ===== *)
theory Hashmap
  imports Memory Bits "HOL-Library.Multiset"
begin

text \<open>
  The chained hash map (\<open>kernel/base/hashmap.c\<close>).

  The chain of a bucket is the list of its entries in the order of the \<open>next\<close> pointers. \<open>NULL\<close> is 0, a
  map pointer is an \<open>option\<close>. The results of the calls of \<open>kmalloc\<close> are arguments, and the operations
  that release memory return the list of the addresses they pass to \<open>kfree\<close>, in order. An access outside
  the bucket array is \<open>None\<close>.

  The locale \<open>key_ops\<close> is the contract between the map and its hash and equality functions; it is
  interpreted for the two pairs of functions that \<open>hashmap.c\<close> provides.
\<close>

subsection \<open>Definitions\<close>

record hash_entry =
  e_at :: addr
  e_key :: addr
  e_val :: addr

record hashmap =
  map_at :: addr
  buckets_at :: addr
  buckets :: "hash_entry list list"
  num_buckets :: u64
  hm_size :: u64
  hash_func :: "addr \<Rightarrow> u64"
  eq_func :: "addr \<Rightarrow> addr \<Rightarrow> bool"

definition bucket_index :: "hashmap \<Rightarrow> addr \<Rightarrow> u64" where
  "bucket_index hm key = hash_func hm key AND (num_buckets hm - 1)"

definition entry_create :: "addr \<Rightarrow> addr \<Rightarrow> addr \<Rightarrow> hash_entry option" where
  "entry_create p key val = (if p = 0 then None else Some \<lparr>e_at = p, e_key = key, e_val = val\<rparr>)"

text \<open>\<open>map->buckets[idx]\<close> and its assignment.\<close>

definition bucket_at :: "hashmap \<Rightarrow> u64 \<Rightarrow> hash_entry list option" where
  "bucket_at hm idx = (if unat idx < length (buckets hm) then Some (buckets hm ! unat idx) else None)"

definition set_bucket :: "u64 \<Rightarrow> hash_entry list \<Rightarrow> hashmap \<Rightarrow> hashmap" where
  "set_bucket idx es hm = hm\<lparr>buckets := (buckets hm)[unat idx := es]\<rparr>"

definition round_buckets :: "u64 \<Rightarrow> u64" where
  "round_buckets n =
     (if n AND (n - 1) \<noteq> 0 then
        let b = n - 1;
            b = b OR drop_bit 1 b;
            b = b OR drop_bit 2 b;
            b = b OR drop_bit 4 b;
            b = b OR drop_bit 8 b;
            b = b OR drop_bit 16 b
        in b + 1
      else n)"

text \<open>
  \<open>p1\<close> and \<open>p2\<close> are the results of the two calls of \<open>kmalloc\<close>. The second gets the size \<open>8 * b\<close> modulo
  \<open>2 ^ 64\<close>; when that wraps, the loop writes past the allocation and the model stops.
\<close>

definition hashmap_create ::
  "addr \<Rightarrow> addr \<Rightarrow> u64 \<Rightarrow> (addr \<Rightarrow> u64) option \<Rightarrow> (addr \<Rightarrow> addr \<Rightarrow> bool) option
    \<Rightarrow> (hashmap option \<times> addr list) option" where
  "hashmap_create p1 p2 n hash_fn eq_fn =
     (case (hash_fn, eq_fn) of
        (Some hash, Some eq) \<Rightarrow>
          if n = 0 then Some (None, [])
          else
            let b = round_buckets n in
            if p1 = 0 then Some (None, [])
            else if p2 = 0 then Some (None, [p1])
            else if 2 ^ 64 \<le> 8 * unat b then None
            else Some (Some \<lparr>map_at = p1, buckets_at = p2, buckets = replicate (unat b) [], num_buckets = b,
              hm_size = 0, hash_func = hash, eq_func = eq\<rparr>, [])
      | _ \<Rightarrow> Some (None, []))"

definition hashmap_destroy :: "hashmap option \<Rightarrow> addr list option" where
  "hashmap_destroy mp =
     (case mp of None \<Rightarrow> Some []
      | Some hm \<Rightarrow>
        if unat (num_buckets hm) \<le> length (buckets hm)
        then Some (concat (map (map e_at) (take (unat (num_buckets hm)) (buckets hm))) @ [buckets_at hm, map_at hm])
        else None)"

fun chain_get :: "(addr \<Rightarrow> addr \<Rightarrow> bool) \<Rightarrow> addr \<Rightarrow> hash_entry list \<Rightarrow> addr option" where
  "chain_get eq key [] = None"
| "chain_get eq key (e # es) = (if eq (e_key e) key then Some (e_val e) else chain_get eq key es)"

fun chain_set :: "(addr \<Rightarrow> addr \<Rightarrow> bool) \<Rightarrow> addr \<Rightarrow> addr \<Rightarrow> hash_entry list \<Rightarrow> hash_entry list option" where
  "chain_set eq key val [] = None"
| "chain_set eq key val (e # es) =
     (if eq (e_key e) key then Some (e\<lparr>e_val := val\<rparr> # es) else map_option ((#) e) (chain_set eq key val es))"

fun chain_del :: "(addr \<Rightarrow> addr \<Rightarrow> bool) \<Rightarrow> addr \<Rightarrow> hash_entry list \<Rightarrow> (hash_entry \<times> hash_entry list) option" where
  "chain_del eq key [] = None"
| "chain_del eq key (e # es) =
     (if eq (e_key e) key then Some (e, es) else map_option (\<lambda>(r, es). (r, e # es)) (chain_del eq key es))"

definition hashmap_put ::
  "addr \<Rightarrow> hashmap option \<Rightarrow> addr \<Rightarrow> addr \<Rightarrow> (int \<times> hashmap option) option" where
  "hashmap_put p mp key val =
     (case mp of None \<Rightarrow> Some (- 1, mp)
      | Some hm \<Rightarrow>
        if key = 0 then Some (- 1, mp)
        else do {
          let idx = bucket_index hm key;
          chain \<leftarrow> bucket_at hm idx;
          case chain_set (eq_func hm) key val chain of
            Some chain \<Rightarrow> Some (0, Some (set_bucket idx chain hm))
          | None \<Rightarrow>
              (case entry_create p key val of
                 None \<Rightarrow> Some (- 2, mp)
               | Some e \<Rightarrow> Some (0, Some (set_bucket idx (e # chain) (hm\<lparr>hm_size := hm_size hm + 1\<rparr>))))
        })"

definition hashmap_get :: "hashmap option \<Rightarrow> addr \<Rightarrow> addr option" where
  "hashmap_get mp key =
     (case mp of None \<Rightarrow> Some 0
      | Some hm \<Rightarrow>
        if key = 0 then Some 0
        else do {
          chain \<leftarrow> bucket_at hm (bucket_index hm key);
          Some (case chain_get (eq_func hm) key chain of None \<Rightarrow> 0 | Some v \<Rightarrow> v)
        })"

definition hashmap_remove :: "hashmap option \<Rightarrow> addr \<Rightarrow> (addr \<times> hashmap option \<times> addr list) option" where
  "hashmap_remove mp key =
     (case mp of None \<Rightarrow> Some (0, mp, [])
      | Some hm \<Rightarrow>
        if key = 0 then Some (0, mp, [])
        else do {
          let idx = bucket_index hm key;
          chain \<leftarrow> bucket_at hm idx;
          case chain_del (eq_func hm) key chain of
            None \<Rightarrow> Some (0, mp, [])
          | Some (e, chain) \<Rightarrow>
              Some (e_val e, Some (set_bucket idx chain (hm\<lparr>hm_size := hm_size hm - 1\<rparr>)), [e_at e])
        })"

definition hashmap_size :: "hashmap option \<Rightarrow> u64" where
  "hashmap_size mp = (case mp of None \<Rightarrow> 0 | Some hm \<Rightarrow> hm_size hm)"

definition hashmap_contains :: "hashmap option \<Rightarrow> addr \<Rightarrow> bool option" where
  "hashmap_contains mp key = map_option (\<lambda>v. v \<noteq> 0) (hashmap_get mp key)"

definition hashmap_clear :: "hashmap option \<Rightarrow> (hashmap option \<times> addr list) option" where
  "hashmap_clear mp =
     (case mp of None \<Rightarrow> Some (None, [])
      | Some hm \<Rightarrow> do {
          (bs, freed) \<leftarrow> fold_opt (\<lambda>i (bs, freed).
              if i < length bs then Some (bs[i := []], freed @ map e_at (bs ! i)) else None)
            [0..<unat (num_buckets hm)] (buckets hm, []);
          Some (Some (hm\<lparr>buckets := bs, hm_size := 0\<rparr>), freed)
        })"

text \<open>The iterator gets and returns its context; its result says whether to go on.\<close>

fun iterate :: "(addr \<Rightarrow> addr \<Rightarrow> 'c \<Rightarrow> bool \<times> 'c) \<Rightarrow> hash_entry list \<Rightarrow> u64 \<Rightarrow> 'c \<Rightarrow> u64 \<times> 'c" where
  "iterate f [] cnt c = (cnt, c)"
| "iterate f (e # es) cnt c =
     (let cnt = cnt + 1 in
      case f (e_key e) (e_val e) c of (b, c) \<Rightarrow> if \<not> b then (cnt, c) else iterate f es cnt c)"

definition hashmap_foreach ::
  "hashmap option \<Rightarrow> (addr \<Rightarrow> addr \<Rightarrow> 'c \<Rightarrow> bool \<times> 'c) option \<Rightarrow> 'c \<Rightarrow> (u64 \<times> 'c) option" where
  "hashmap_foreach mp iter_fn c =
     (case (mp, iter_fn) of
        (Some hm, Some f) \<Rightarrow>
          if unat (num_buckets hm) \<le> length (buckets hm)
          then Some (iterate f (concat (take (unat (num_buckets hm)) (buckets hm))) 0 c)
          else None
      | _ \<Rightarrow> Some (0, c))"

definition hash_uint64 :: "mem \<Rightarrow> addr \<Rightarrow> u64" where
  "hash_uint64 m key =
     (let val = mload 8 m key :: u64;
          hash = 14695981039346656037;
          hash = hash XOR (drop_bit 32 val AND 0xFFFFFFFF);
          hash = hash * 1099511628211;
          hash = hash XOR (val AND 0xFFFFFFFF)
      in hash * 1099511628211)"

definition hash_ptr :: "addr \<Rightarrow> u64" where
  "hash_ptr key = drop_bit 3 key XOR push_bit (8 * 8 - 3) key"

definition eq_uint64 :: "mem \<Rightarrow> addr \<Rightarrow> addr \<Rightarrow> bool" where
  "eq_uint64 m a b \<longleftrightarrow> (mload 8 m a :: u64) = mload 8 m b"

definition eq_ptr :: "addr \<Rightarrow> addr \<Rightarrow> bool" where
  "eq_ptr a b \<longleftrightarrow> a = b"

subsection \<open>Chains\<close>

text \<open>The keys of a chain are pairwise different for the equality function.\<close>

abbreviation distinct_keys :: "(addr \<Rightarrow> addr \<Rightarrow> bool) \<Rightarrow> hash_entry list \<Rightarrow> bool" where
  "distinct_keys eq \<equiv> sorted_wrt (\<lambda>d e. \<not> eq (e_key d) (e_key e))"

lemma chain_get_None: "chain_get eq k es = None \<longleftrightarrow> (\<forall>e \<in> set es. \<not> eq (e_key e) k)"
  by (induction es) auto

lemma chain_set_None: "chain_set eq k v es = None \<longleftrightarrow> chain_get eq k es = None"
  by (induction es) auto

lemma chain_del_None: "chain_del eq k es = None \<longleftrightarrow> chain_get eq k es = None"
  by (induction es) auto

lemma chain_set_keys: "chain_set eq k v es = Some es' \<Longrightarrow> map e_key es' = map e_key es \<and> map e_at es' = map e_at es"
  by (induction es arbitrary: es') (auto split: if_splits)

lemma distinct_keys_map: "distinct_keys eq es = sorted_wrt (\<lambda>a b. \<not> eq a b) (map e_key es)"
  by (simp add: sorted_wrt_map)

lemma chain_del_split:
  assumes "chain_del eq k es = Some (e, es')"
  obtains xs ys where "es = xs @ e # ys" and "es' = xs @ ys" and "eq (e_key e) k"
    and "chain_get eq k es = Some (e_val e)"
  using assms
proof (induction es arbitrary: es' thesis)
  case (Cons d es)
  show ?case
  proof (cases "eq (e_key d) k")
    case True
    with Cons.prems show ?thesis by (intro Cons.prems(1) [of "[]" es]) auto
  next
    case False
    with Cons.prems obtain es2 where d: "chain_del eq k es = Some (e, es2)" "es' = d # es2" by auto
    obtain xs ys where "es = xs @ e # ys" "es2 = xs @ ys" "eq (e_key e) k" "chain_get eq k es = Some (e_val e)"
      using Cons.IH [OF _ d(1)] by blast
    with d False show ?thesis by (intro Cons.prems(1) [of "d # xs" ys]) auto
  qed
qed simp

text \<open>What a hash function and an equality function promise the map.\<close>

locale key_ops =
  fixes hash :: "addr \<Rightarrow> u64" and eq :: "addr \<Rightarrow> addr \<Rightarrow> bool"
  assumes eq_refl: "eq a a"
    and eq_sym: "eq a b \<Longrightarrow> eq b a"
    and eq_trans: "eq a b \<Longrightarrow> eq b c \<Longrightarrow> eq a c"
    and hash_eq: "eq a b \<Longrightarrow> hash a = hash b"
begin

lemma eq_left: "eq a b \<Longrightarrow> eq a c = eq b c"
  using eq_trans [of a b c] eq_trans [of b a c] eq_sym [of a b] by argo

lemma eq_right: "eq b c \<Longrightarrow> eq a b = eq a c"
  using eq_trans [of a b c] eq_trans [of a c b] eq_sym [of b c] by argo

lemma get_set:
  "chain_set eq k v es = Some es' \<Longrightarrow> chain_get eq k' es' = (if eq k k' then Some v else chain_get eq k' es)"
proof (induction es arbitrary: es')
  case (Cons e es)
  show ?case
  proof (cases "eq (e_key e) k")
    case True
    with Cons.prems eq_left [OF True, of k'] show ?thesis by auto
  next
    case False
    with Cons.prems obtain es2 where "chain_set eq k v es = Some es2" "es' = e # es2" by auto
    moreover have "\<not> eq (e_key e) k'" if "eq k k'"
      using False eq_right [OF that] by simp
    ultimately show ?thesis
      using Cons.IH by auto
  qed
qed simp

lemma get_del:
  assumes "chain_del eq k es = Some (e, es')" and "distinct_keys eq es"
  shows "chain_get eq k' es' = (if eq k k' then None else chain_get eq k' es)"
  using assms
proof (induction es arbitrary: es')
  case (Cons d es)
  show ?case
  proof (cases "eq (e_key d) k")
    case True
    with Cons.prems have es: "es' = es" "\<And>e. e \<in> set es \<Longrightarrow> \<not> eq (e_key d) (e_key e)" by auto
    have "\<not> eq (e_key e) k'" if "eq k k'" "e \<in> set es" for e
      using es(2) [OF that(2)] eq_trans [OF True that(1)] eq_right [of "e_key e" k' "e_key d"] by blast
    then show ?thesis
      using es(1) eq_left [OF True, of k'] by (auto simp: chain_get_None)
  next
    case False
    with Cons.prems obtain es2 where "chain_del eq k es = Some (e, es2)" "es' = d # es2" by auto
    moreover have "\<not> eq (e_key d) k'" if "eq k k'"
      using False eq_right [OF that] by simp
    ultimately show ?thesis
      using Cons.IH Cons.prems(2) by auto
  qed
qed simp

end

subsection \<open>The invariant and the abstract map\<close>

definition entries :: "hashmap \<Rightarrow> hash_entry list" where
  "entries hm = concat (buckets hm)"

text \<open>An entry of bucket \<open>i\<close> has a key of hash \<open>i\<close>.\<close>

definition chain_ok :: "hashmap \<Rightarrow> nat \<Rightarrow> hash_entry list \<Rightarrow> bool" where
  "chain_ok hm i es \<longleftrightarrow>
     (\<forall>e \<in> set es. e_key e \<noteq> 0 \<and> unat (bucket_index hm (e_key e)) = i) \<and> distinct_keys (eq_func hm) es"

definition hm_inv :: "hashmap \<Rightarrow> bool" where
  "hm_inv hm \<longleftrightarrow>
     is_power_of_2 (num_buckets hm) \<and> length (buckets hm) = unat (num_buckets hm) \<and>
     (\<forall>i < length (buckets hm). chain_ok hm i (buckets hm ! i)) \<and>
     hm_size hm = of_nat (length (entries hm))"

definition lookup :: "hashmap \<Rightarrow> addr \<Rightarrow> addr option" where
  "lookup hm key = chain_get (eq_func hm) key (buckets hm ! unat (bucket_index hm key))"

lemma bucket_index_less:
  assumes "is_power_of_2 (num_buckets hm)"
  shows "unat (bucket_index hm key) < unat (num_buckets hm)"
proof -
  obtain k where k: "k < 64" "num_buckets hm = 2 ^ k"
    using assms by (auto simp: is_power_of_2_iff)
  then show ?thesis
    by (simp add: bucket_index_def exp_minus_1_mask unat_and_mask unat_power_2)
qed

lemma bucket_at_index: "hm_inv hm \<Longrightarrow> bucket_at hm (bucket_index hm key) = Some (buckets hm ! unat (bucket_index hm key))"
  using bucket_index_less [of hm key] by (simp add: bucket_at_def hm_inv_def)

lemma set_bucket_simps [simp]:
  "num_buckets (set_bucket idx es hm) = num_buckets hm" "hash_func (set_bucket idx es hm) = hash_func hm"
  "eq_func (set_bucket idx es hm) = eq_func hm" "hm_size (set_bucket idx es hm) = hm_size hm"
  "bucket_index (set_bucket idx es hm) = bucket_index hm" "chain_ok (set_bucket idx es hm) = chain_ok hm"
  "length (buckets (set_bucket idx es hm)) = length (buckets hm)"
  by (auto simp: set_bucket_def bucket_index_def chain_ok_def fun_eq_iff)

lemma size_update_simps [simp]:
  "bucket_index (hm\<lparr>hm_size := n\<rparr>) = bucket_index hm" "chain_ok (hm\<lparr>hm_size := n\<rparr>) = chain_ok hm"
  "lookup (hm\<lparr>hm_size := n\<rparr>) = lookup hm" "entries (hm\<lparr>hm_size := n\<rparr>) = entries hm"
  by (auto simp: bucket_index_def chain_ok_def lookup_def entries_def fun_eq_iff)

lemma mset_concat_update:
  "i < length xss \<Longrightarrow> mset (concat (xss[i := xs])) + mset (xss ! i) = mset (concat xss) + mset xs"
  by (induction xss arbitrary: i) (auto split: nat.splits simp: ac_simps)

lemma entries_set_bucket:
  "unat i < length (buckets hm) \<Longrightarrow>
    mset (entries (set_bucket i es hm)) + mset (buckets hm ! unat i) = mset (entries hm) + mset es"
  by (simp add: entries_def set_bucket_def mset_concat_update)

lemma set_bucket_inv:
  assumes inv: "hm_inv hm" and i: "unat i < length (buckets hm)" and ok: "chain_ok hm (unat i) es"
    and n: "n + of_nat (length (buckets hm ! unat i)) = hm_size hm + of_nat (length es)"
  shows "hm_inv (set_bucket i es (hm\<lparr>hm_size := n\<rparr>))"
proof -
  let ?hm = "set_bucket i es hm"
  have "length (entries ?hm) + length (buckets hm ! unat i) = length (entries hm) + length es"
    using arg_cong [OF entries_set_bucket [OF i, of es], of size] by simp
  then have "of_nat (length (entries ?hm)) + of_nat (length (buckets hm ! unat i)) = (of_nat (length (entries hm)) + of_nat (length es) :: u64)"
    by (metis of_nat_add)
  then have "n = of_nat (length (entries ?hm))"
    using inv n by (simp add: hm_inv_def) (metis add_right_cancel)
  moreover have "set_bucket i es (hm\<lparr>hm_size := n\<rparr>) = ?hm\<lparr>hm_size := n\<rparr>"
    by (simp add: set_bucket_def)
  moreover have "chain_ok hm j (buckets ?hm ! j)" if "j < length (buckets hm)" for j
    using inv ok i that by (cases "j = unat i") (auto simp: hm_inv_def set_bucket_def)
  ultimately show ?thesis
    using inv by (simp add: hm_inv_def)
qed

lemma lookup_set_bucket:
  assumes "unat i < length (buckets hm)"
  shows "lookup (set_bucket i es hm) k = (if bucket_index hm k = i then chain_get (eq_func hm) k es else lookup hm k)"
  using assms by (auto simp: lookup_def set_bucket_def bucket_index_def word_unat_eq_iff)

subsection \<open>The operations\<close>

lemma chain_put_ok:
  assumes ok: "chain_ok hm (unat (bucket_index hm key)) es" and "key \<noteq> 0"
  shows "chain_set (eq_func hm) key val es = Some es' \<Longrightarrow> chain_ok hm (unat (bucket_index hm key)) es'"
    and "chain_get (eq_func hm) key es = None \<Longrightarrow> key_ops (hash_func hm) (eq_func hm) \<Longrightarrow>
      chain_ok hm (unat (bucket_index hm key)) (\<lparr>e_at = p, e_key = key, e_val = val\<rparr> # es)"
proof -
  assume "chain_set (eq_func hm) key val es = Some es'"
  then have k: "map e_key es' = map e_key es"
    by (simp add: chain_set_keys)
  then have "e_key ` set es' = e_key ` set es"
    by (metis set_map)
  with ok show "chain_ok hm (unat (bucket_index hm key)) es'"
    unfolding chain_ok_def distinct_keys_map k by (metis (no_types, lifting) image_iff)
next
  assume n: "chain_get (eq_func hm) key es = None" and "key_ops (hash_func hm) (eq_func hm)"
  then have "\<not> eq_func hm key (e_key e)" if "e \<in> set es" for e
    using key_ops.eq_sym that unfolding chain_get_None by metis
  with ok assms(2) show "chain_ok hm (unat (bucket_index hm key)) (\<lparr>e_at = p, e_key = key, e_val = val\<rparr> # es)"
    by (auto simp: chain_ok_def)
qed

lemma chain_del_ok:
  "chain_ok hm i es \<Longrightarrow> chain_del (eq_func hm) key es = Some (e, es') \<Longrightarrow> chain_ok hm i es'"
  by (erule chain_del_split) (auto simp: chain_ok_def sorted_wrt_append)

context key_ops
begin

lemma same_bucket: "hash_func hm = hash \<Longrightarrow> eq a b \<Longrightarrow> bucket_index hm a = bucket_index hm b"
  using hash_eq [of a b] by (simp add: bucket_index_def)

lemma map_put_ok:
  assumes inv: "hm_inv hm" and f: "hash_func hm = hash" "eq_func hm = eq" and key: "key \<noteq> 0"
    and p: "p \<noteq> 0 \<or> lookup hm key \<noteq> None"
  obtains hm' where "hashmap_put p (Some hm) key val = Some (0, Some hm')" and "hm_inv hm'"
    and "hash_func hm' = hash" and "eq_func hm' = eq"
    and "\<And>k. lookup hm' k = (if eq key k then Some val else lookup hm k)"
    and "mset (map e_at (entries hm')) = mset (map e_at (entries hm)) + (if lookup hm key = None then {#p#} else {#})"
proof -
  let ?i = "bucket_index hm key"
  let ?c = "buckets hm ! unat ?i"
  have i: "unat ?i < length (buckets hm)"
    using inv bucket_index_less by (simp add: hm_inv_def)
  have ok: "chain_ok hm (unat ?i) ?c"
    using inv i by (simp add: hm_inv_def)
  have look: "lookup hm key = chain_get eq key ?c"
    by (simp add: lookup_def f)
  have other: "\<not> eq key k" if "bucket_index hm k \<noteq> ?i" for k
    using same_bucket [OF f(1), of key k] that by metis
  have ent: "mset (map e_at (entries (set_bucket ?i es hm))) + mset (map e_at ?c)
      = mset (map e_at (entries hm)) + mset (map e_at es)" for es
    using arg_cong [OF entries_set_bucket [OF i, of es], of "image_mset e_at"] by simp
  show thesis
  proof (cases "chain_set eq key val ?c")
    case (Some c)
    let ?h = "set_bucket ?i c hm"
    have at: "map e_at c = map e_at ?c"
      using chain_set_keys [OF Some] by simp
    have "hm_inv (set_bucket ?i c (hm\<lparr>hm_size := hm_size hm\<rparr>))"
      using chain_put_ok(1) [OF ok key, of val c] Some map_eq_imp_length_eq [OF at]
      by (intro set_bucket_inv [OF inv i]) (simp_all add: f)
    moreover have "lookup ?h k = (if eq key k then Some val else lookup hm k)" for k
      using other [of k] get_set [OF Some, of k] by (auto simp: lookup_set_bucket [OF i] f) (simp add: lookup_def f)
    moreover have "lookup hm key \<noteq> None"
      using Some chain_set_None [of eq key val ?c] by (auto simp: look)
    ultimately show ?thesis
      using Some ent [of c] at
      by (intro that [of ?h]) (simp_all add: hashmap_put_def key bucket_at_index [OF inv] f)
  next
    case None
    let ?e = "\<lparr>e_at = p, e_key = key, e_val = val\<rparr>"
    let ?h = "set_bucket ?i (?e # ?c) (hm\<lparr>hm_size := hm_size hm + 1\<rparr>)"
    have n: "chain_get eq key ?c = None" and p: "p \<noteq> 0"
      using None p by (simp_all add: chain_set_None look)
    have "hm_inv ?h"
      using chain_put_ok(2) [OF ok key, of p val] n key_ops_axioms
      by (intro set_bucket_inv [OF inv i]) (simp_all add: f)
    moreover have "lookup ?h k = (if eq key k then Some val else lookup hm k)" for k
      using other [of k] lookup_set_bucket [of ?i "hm\<lparr>hm_size := hm_size hm + 1\<rparr>" "?e # ?c" k] i
      by (auto simp: f) (simp add: lookup_def f)
    moreover have "entries ?h = entries (set_bucket ?i (?e # ?c) hm)"
      by (simp add: entries_def set_bucket_def)
    ultimately show ?thesis
      using None n ent [of "?e # ?c"]
      by (intro that [of ?h]) (simp_all add: hashmap_put_def key bucket_at_index [OF inv] f entry_create_def p look Let_def)
  qed
qed

lemma map_remove_ok:
  assumes inv: "hm_inv hm" and f: "hash_func hm = hash" "eq_func hm = eq" and key: "key \<noteq> 0"
  obtains hm' freed where
    "hashmap_remove (Some hm) key = Some (case lookup hm key of None \<Rightarrow> 0 | Some v \<Rightarrow> v, Some hm', freed)"
    and "hm_inv hm'" and "hash_func hm' = hash" and "eq_func hm' = eq"
    and "\<And>k. lookup hm' k = (if eq key k then None else lookup hm k)"
    and "mset (map e_at (entries hm)) = mset (map e_at (entries hm')) + mset freed"
    and "length freed = (if lookup hm key = None then 0 else 1)"
proof -
  let ?i = "bucket_index hm key"
  let ?c = "buckets hm ! unat ?i"
  have i: "unat ?i < length (buckets hm)"
    using inv bucket_index_less by (simp add: hm_inv_def)
  have ok: "chain_ok hm (unat ?i) ?c"
    using inv i by (simp add: hm_inv_def)
  have look: "lookup hm key = chain_get eq key ?c"
    by (simp add: lookup_def f)
  have other: "\<not> eq key k" if "bucket_index hm k \<noteq> ?i" for k
    using same_bucket [OF f(1), of key k] that by metis
  show thesis
  proof (cases "chain_del eq key ?c")
    case None
    then have n: "chain_get eq key ?c = None"
      by (simp add: chain_del_None)
    have "lookup hm k = None" if "eq key k" for k
      using n same_bucket [OF f(1) that] eq_right [OF that] by (simp add: lookup_def f chain_get_None)
    then show ?thesis
      using None n inv by (intro that [of hm "[]"]) (simp_all add: hashmap_remove_def key bucket_at_index f look Let_def)
  next
    case (Some r)
    then obtain e c where d: "chain_del eq key ?c = Some (e, c)" by (cases r) auto
    then obtain xs ys where c: "?c = xs @ e # ys" "c = xs @ ys" and n: "chain_get eq key ?c = Some (e_val e)"
      by (rule chain_del_split)
    let ?h = "set_bucket ?i c (hm\<lparr>hm_size := hm_size hm - 1\<rparr>)"
    have "hm_inv ?h"
      using chain_del_ok [OF ok, of key e c] d by (intro set_bucket_inv [OF inv i]) (simp_all add: f c)
    moreover have "lookup ?h k = (if eq key k then None else lookup hm k)" for k
      using other [of k] lookup_set_bucket [of ?i "hm\<lparr>hm_size := hm_size hm - 1\<rparr>" c k] i
        get_del [OF d, of k] ok
      by (auto simp: f chain_ok_def) (simp add: lookup_def f)
    moreover have "entries ?h = entries (set_bucket ?i c hm)"
      by (simp add: entries_def set_bucket_def)
    moreover have "mset (map e_at (entries (set_bucket ?i c hm))) + mset (map e_at ?c)
        = mset (map e_at (entries hm)) + mset (map e_at c)"
      using arg_cong [OF entries_set_bucket [OF i, of c], of "image_mset e_at"] by simp
    ultimately show ?thesis
      using d n by (intro that [of ?h "[e_at e]"]) (simp_all add: hashmap_remove_def key bucket_at_index [OF inv] f look c Let_def)
  qed
qed

end

text \<open>The entries are the bindings of the abstract map.\<close>

lemma chain_get_Some: "chain_get eq k es = Some v \<Longrightarrow> \<exists>e \<in> set es. eq (e_key e) k \<and> e_val e = v"
  by (induction es) (auto split: if_splits)

lemma lookup_entry:
  assumes "hm_inv hm" and "lookup hm k = Some v"
  shows "\<exists>e \<in> set (entries hm). eq_func hm (e_key e) k \<and> e_val e = v"
proof -
  have "buckets hm ! unat (bucket_index hm k) \<in> set (buckets hm)"
    using assms(1) bucket_index_less [of hm k] by (simp add: hm_inv_def)
  then show ?thesis
    using chain_get_Some [OF assms(2) [unfolded lookup_def]] by (auto simp: entries_def)
qed

lemma chain_get_member:
  "distinct_keys eq es \<Longrightarrow> (\<And>a. eq a a) \<Longrightarrow> e \<in> set es \<Longrightarrow> chain_get eq (e_key e) es = Some (e_val e)"
  by (induction es) auto

lemma entry_lookup:
  assumes "hm_inv hm" and "\<And>a. eq_func hm a a" and "e \<in> set (entries hm)"
  shows "lookup hm (e_key e) = Some (e_val e)" and "e_key e \<noteq> 0"
proof -
  obtain i where i: "i < length (buckets hm)" "e \<in> set (buckets hm ! i)"
    using assms(3) by (auto simp: entries_def) (metis in_set_conv_nth)
  then have ok: "chain_ok hm i (buckets hm ! i)"
    using assms(1) by (simp add: hm_inv_def)
  then have "unat (bucket_index hm (e_key e)) = i" and "e_key e \<noteq> 0"
    using i(2) by (auto simp: chain_ok_def)
  then show "lookup hm (e_key e) = Some (e_val e)" and "e_key e \<noteq> 0"
    using chain_get_member [of "eq_func hm" "buckets hm ! i" e] ok assms(2) i(2) by (simp_all add: lookup_def chain_ok_def)
qed

interpretation ptr_keys: key_ops hash_ptr eq_ptr
  by unfold_locales (simp_all add: eq_ptr_def)

interpretation uint64_keys: key_ops "hash_uint64 m" "eq_uint64 m" for m
  by unfold_locales (simp_all add: eq_uint64_def hash_uint64_def)

text \<open>Emptying the buckets one after the other.\<close>

lemma clear_buckets:
  "n \<le> length bs \<Longrightarrow>
    fold_opt (\<lambda>i (bs, freed). if i < length bs then Some (bs[i := []], freed @ map e_at (bs ! i)) else None)
      [0..<n] (bs, []) = Some (replicate n [] @ drop n bs, map e_at (concat (take n bs)))"
proof (induction n)
  case (Suc n)
  then have n: "n < length bs" by simp
  have "(replicate n [] @ drop n bs)[n := []] = replicate (Suc n) [] @ drop (Suc n) bs"
    using n by (simp add: list_update_append Cons_nth_drop_Suc [symmetric] replicate_append_same [symmetric])
  moreover have "(replicate n [] @ drop n bs) ! n = bs ! n"
    using n by (simp add: nth_append)
  ultimately show ?case
    using Suc by (simp add: fold_opt_append take_Suc_conv_app_nth n)
qed simp

lemma clear_ok:
  assumes inv: "hm_inv hm"
  obtains hm' where "hashmap_clear (Some hm) = Some (Some hm', map e_at (entries hm))" and "hm_inv hm'"
    and "hash_func hm' = hash_func hm" and "eq_func hm' = eq_func hm" and "\<And>k. lookup hm' k = None" and "entries hm' = []"
proof -
  let ?n = "unat (num_buckets hm)"
  let ?h = "hm\<lparr>buckets := replicate ?n [], hm_size := 0\<rparr>"
  have n: "length (buckets hm) = ?n"
    using inv by (simp add: hm_inv_def)
  have "hashmap_clear (Some hm) = Some (Some ?h, map e_at (entries hm))"
    using clear_buckets [of ?n "buckets hm"] n by (simp add: hashmap_clear_def entries_def)
  moreover have "lookup ?h k = None" for k
    using inv bucket_index_less [of ?h k] by (simp add: lookup_def hm_inv_def)
  moreover have "hm_inv ?h"
    using inv by (simp add: hm_inv_def chain_ok_def entries_def)
  ultimately show thesis
    by (intro that [of ?h]) (simp_all add: entries_def)
qed

text \<open>
  C15: the hash map implements a finite map, for every hash and equality function with the contract
  \<open>key_ops\<close>. With a key that is not \<open>NULL\<close>, \<open>hashmap_put\<close> binds the key to the value and changes no other
  key, \<open>hashmap_remove\<close> returns the value and removes just that key, \<open>hashmap_get\<close> returns the value or
  \<open>NULL\<close>; all keep the invariant, so the entry count is exact. Without memory \<open>hashmap_put\<close> still updates
  a present key and otherwise returns -2 and changes nothing. \<open>hashmap_contains\<close> says whether the key has
  a value that is not \<open>NULL\<close>.
\<close>

theorem hashmap_refines_map:
  assumes "key_ops (hash_func hm) (eq_func hm)" and "hm_inv hm" and "key \<noteq> 0"
  shows "(if p = 0 \<and> lookup hm key = None then hashmap_put p (Some hm) key val = Some (- 2, Some hm)
      else \<exists>hm'. hashmap_put p (Some hm) key val = Some (0, Some hm') \<and> hm_inv hm' \<and>
        hash_func hm' = hash_func hm \<and> eq_func hm' = eq_func hm \<and>
        (\<forall>k. lookup hm' k = (if eq_func hm key k then Some val else lookup hm k))) \<and>
    hashmap_get (Some hm) key = Some (case lookup hm key of None \<Rightarrow> 0 | Some v \<Rightarrow> v) \<and>
    hashmap_contains (Some hm) key = Some (\<exists>v. lookup hm key = Some v \<and> v \<noteq> 0) \<and>
    (\<exists>hm' freed. hashmap_remove (Some hm) key = Some (case lookup hm key of None \<Rightarrow> 0 | Some v \<Rightarrow> v, Some hm', freed) \<and>
      hm_inv hm' \<and> hash_func hm' = hash_func hm \<and> eq_func hm' = eq_func hm \<and>
      (\<forall>k. lookup hm' k = (if eq_func hm key k then None else lookup hm k)))"
    (is "?put \<and> ?get \<and> ?contains \<and> ?remove")
proof (intro conjI)
  show get: ?get
    using assms by (simp add: hashmap_get_def bucket_at_index lookup_def)
  show ?contains
    using get by (auto simp: hashmap_contains_def split: option.splits)
  show ?put
  proof (cases "p = 0 \<and> lookup hm key = None")
    case True
    then have "chain_set (eq_func hm) key val (buckets hm ! unat (bucket_index hm key)) = None"
      by (simp add: chain_set_None lookup_def)
    then show ?thesis
      using True assms by (simp add: hashmap_put_def bucket_at_index lookup_def entry_create_def Let_def)
  next
    case False
    then have p: "p \<noteq> 0 \<or> lookup hm key \<noteq> None" by blast
    have "\<exists>hm'. hashmap_put p (Some hm) key val = Some (0, Some hm') \<and> hm_inv hm' \<and>
        hash_func hm' = hash_func hm \<and> eq_func hm' = eq_func hm \<and>
        (\<forall>k. lookup hm' k = (if eq_func hm key k then Some val else lookup hm k))"
      by (rule key_ops.map_put_ok [OF assms(1,2) refl refl assms(3) p, where val = val]) blast
    with False show ?thesis by auto
  qed
  show ?remove
    by (rule key_ops.map_remove_ok [OF assms(1,2) refl refl assms(3)]) blast
qed

text \<open>A demonstration map with eight buckets, in which the keys 8 and 72 share a bucket.\<close>

definition demo_map :: hashmap where
  "demo_map = \<lparr>map_at = 4096, buckets_at = 8192, buckets = replicate 8 [], num_buckets = 8, hm_size = 0,
     hash_func = hash_ptr, eq_func = eq_ptr\<rparr>"

lemma demo_map_inv: "hm_inv demo_map"
  by (simp add: hm_inv_def demo_map_def is_power_of_2_def chain_ok_def entries_def)

lemma demo_map_empty: "lookup demo_map k = None"
  using bucket_index_less [of demo_map k] by (simp add: lookup_def demo_map_def is_power_of_2_def)

theorem hashmap_refines_map_witness:
  "key_ops (hash_func demo_map) (eq_func demo_map) \<and> hm_inv demo_map \<and> (72 :: addr) \<noteq> 0 \<and>
   (\<exists>hm'. hashmap_put 512 (Some demo_map) 72 7 = Some (0, Some hm') \<and> lookup hm' 72 = Some 7 \<and> lookup hm' 8 = None)"
proof -
  have f: "hash_func demo_map = hash_ptr" "eq_func demo_map = eq_ptr"
    by (simp_all add: demo_map_def)
  then have k: "key_ops (hash_func demo_map) (eq_func demo_map)"
    using ptr_keys.key_ops_axioms by simp
  show ?thesis
    using hashmap_refines_map [OF k demo_map_inv, of 72 512 7] k demo_map_inv
    by (auto simp: demo_map_empty f eq_ptr_def)
qed

subsection \<open>Memory\<close>

datatype map_op = Put addr addr addr | Remove addr | Clear

text \<open>
  One operation on a map, with the blocks it takes from \<open>kmalloc\<close> and gives back by \<open>kfree\<close>. \<open>Put\<close> names
  the address that \<open>kmalloc\<close> returns if it is called; it is called when the key is not present.
\<close>

definition map_step :: "map_op \<Rightarrow> hashmap \<times> addr list \<times> addr list \<Rightarrow> (hashmap \<times> addr list \<times> addr list) option" where
  "map_step c = (\<lambda>(hm, taken, freed).
     case c of
       Put p key val \<Rightarrow>
         (case hashmap_put p (Some hm) key val of
            Some (r, Some hm') \<Rightarrow> Some (hm', if r = 0 \<and> hm_size hm' \<noteq> hm_size hm then p # taken else taken, freed)
          | _ \<Rightarrow> None)
     | Remove key \<Rightarrow>
         (case hashmap_remove (Some hm) key of Some (r, Some hm', fs) \<Rightarrow> Some (hm', taken, fs @ freed) | _ \<Rightarrow> None)
     | Clear \<Rightarrow>
         (case hashmap_clear (Some hm) of Some (Some hm', fs) \<Rightarrow> Some (hm', taken, fs @ freed) | _ \<Rightarrow> None))"

definition balanced :: "(addr \<Rightarrow> u64) \<Rightarrow> (addr \<Rightarrow> addr \<Rightarrow> bool) \<Rightarrow> hashmap \<times> addr list \<times> addr list \<Rightarrow> bool" where
  "balanced hash eq = (\<lambda>(hm, taken, freed).
     hm_inv hm \<and> hash_func hm = hash \<and> eq_func hm = eq \<and>
     mset taken = mset (map e_at (entries hm)) + mset freed)"

lemma put_size:
  assumes "hashmap_put p (Some hm) key val = Some (r, Some hm')" and "hm_inv hm"
  shows "hm_size hm' \<noteq> hm_size hm \<longleftrightarrow> r = 0 \<and> key \<noteq> 0 \<and> lookup hm key = None"
  using assms chain_set_None [of "eq_func hm" key val "buckets hm ! unat (bucket_index hm key)"]
  by (auto simp: hashmap_put_def bucket_at_index lookup_def Let_def split: if_splits option.splits)

lemma map_step_balanced:
  assumes "key_ops hash eq" and "balanced hash eq s"
  shows "\<exists>s'. map_step c s = Some s' \<and> balanced hash eq s'"
proof -
  obtain hm taken freed where s: "s = (hm, taken, freed)" by (cases s)
  with assms have inv: "hm_inv hm" and f: "hash_func hm = hash" "eq_func hm = eq"
    and b: "mset taken = mset (map e_at (entries hm)) + mset freed"
    by (auto simp: balanced_def)
  show ?thesis
  proof (cases c)
    case (Put p key val)
    consider "key = 0" | "key \<noteq> 0" "p = 0" "lookup hm key = None" | "key \<noteq> 0" "p \<noteq> 0 \<or> lookup hm key \<noteq> None"
      by blast
    then show ?thesis
    proof cases
      case 1
      then show ?thesis
        using inv f b by (simp add: Put s map_step_def hashmap_put_def balanced_def)
    next
      case 2
      then have "chain_set (eq_func hm) key val (buckets hm ! unat (bucket_index hm key)) = None"
        by (simp add: chain_set_None lookup_def)
      then show ?thesis
        using 2 inv f b
        by (simp add: Put s map_step_def hashmap_put_def balanced_def bucket_at_index entry_create_def Let_def)
    next
      case 3
      obtain hm' where h: "hashmap_put p (Some hm) key val = Some (0, Some hm')" "hm_inv hm'"
          "hash_func hm' = hash" "eq_func hm' = eq"
          "mset (map e_at (entries hm')) = mset (map e_at (entries hm)) + (if lookup hm key = None then {#p#} else {#})"
        by (rule key_ops.map_put_ok [OF assms(1) inv f 3])
      then show ?thesis
        using b put_size [OF h(1) inv] 3(1) by (simp add: Put s map_step_def balanced_def)
    qed
  next
    case (Remove key)
    show ?thesis
    proof (cases "key = 0")
      case True
      then show ?thesis
        using inv f b by (simp add: Remove s map_step_def hashmap_remove_def balanced_def)
    next
      case False
      obtain hm' fs v where "hashmap_remove (Some hm) key = Some (v, Some hm', fs)" "hm_inv hm'"
          "hash_func hm' = hash" "eq_func hm' = eq" "mset (map e_at (entries hm)) = mset (map e_at (entries hm')) + mset fs"
        by (rule key_ops.map_remove_ok [OF assms(1) inv f False])
      then show ?thesis
        using b by (simp add: Remove s map_step_def balanced_def)
    qed
  next
    case Clear
    obtain hm' where "hashmap_clear (Some hm) = Some (Some hm', map e_at (entries hm))" "hm_inv hm'"
        "hash_func hm' = hash" "eq_func hm' = eq" "entries hm' = []"
      using clear_ok [OF inv, of thesis for thesis] f by metis
    then show ?thesis
      using b by (simp add: Clear s map_step_def balanced_def)
  qed
qed

text \<open>
  C16: the hash map neither leaks nor double-frees. From an empty map, every sequence of
  insertions, removals and clears runs without an access outside the buckets, and when \<open>hashmap_destroy\<close>
  follows, the blocks passed to \<open>kfree\<close> in total are exactly the entries taken from \<open>kmalloc\<close>, each once,
  and the two blocks of the map itself.
\<close>

theorem hashmap_memory_balanced:
  assumes "key_ops (hash_func hm) (eq_func hm)" and "hm_inv hm" and "entries hm = []"
  shows "\<exists>hm' taken freed last. fold_opt map_step cs (hm, [], []) = Some (hm', taken, freed) \<and>
    hashmap_destroy (Some hm') = Some last \<and>
    mset (last @ freed) = mset taken + {#buckets_at hm', map_at hm'#}"
proof -
  have "\<exists>s. fold_opt map_step cs (hm, [], []) = Some s \<and> balanced (hash_func hm) (eq_func hm) s"
    using assms map_step_balanced [OF assms(1)] by (intro fold_opt_rule) (auto simp: balanced_def)
  then obtain hm' taken freed where r: "fold_opt map_step cs (hm, [], []) = Some (hm', taken, freed)"
    and inv: "hm_inv hm'" and b: "mset taken = mset (map e_at (entries hm')) + mset freed"
    by (auto simp: balanced_def)
  have "hashmap_destroy (Some hm') = Some (map e_at (entries hm') @ [buckets_at hm', map_at hm'])"
    using inv by (simp add: hashmap_destroy_def hm_inv_def entries_def map_concat)
  with r b show ?thesis by simp
qed

theorem hashmap_memory_balanced_witness:
  "key_ops (hash_func demo_map) (eq_func demo_map) \<and> hm_inv demo_map \<and> entries demo_map = [] \<and>
   (\<exists>hm' taken freed. fold_opt map_step [Put 512 8 1, Put 544 72 2, Remove 8, Put 576 8 3, Clear] (demo_map, [], []) =
     Some (hm', taken, freed))"
proof -
  have "key_ops (hash_func demo_map) (eq_func demo_map)" "hm_inv demo_map" "entries demo_map = []"
    using demo_map_inv ptr_keys.key_ops_axioms by (simp_all add: demo_map_def entries_def)
  with hashmap_memory_balanced [OF this, of "[Put 512 8 1, Put 544 72 2, Remove 8, Put 576 8 3, Clear]"]
  show ?thesis by blast
qed

subsection \<open>The number of buckets\<close>

lemma small_smear_all:
  assumes "unat m < 2 ^ 32"
  shows "smear 16 (smear 8 (smear 4 (smear 2 (smear 1 m)))) = smear_all m"
proof -
  let ?w = "smear 16 (smear 8 (smear 4 (smear 2 (smear 1 m))))"
  have "drop_bit 32 (smear s n) = 0" if "drop_bit 32 n = (0 :: u64)" for s n
  proof -
    have "drop_bit 32 (drop_bit s n) = drop_bit s (drop_bit 32 n)"
      by (simp add: add.commute)
    with that show ?thesis by (simp add: smear_def)
  qed
  moreover have "drop_bit 32 m = 0"
    using assms by (simp add: word_unat_eq_iff unat_drop_bit)
  ultimately have "drop_bit 32 ?w = 0" by blast
  then show ?thesis
    by (simp add: smear_all_def smear_def [of 32])
qed

text \<open>
  Up to \<open>2 ^ 32\<close> buckets, the rounding inlined in \<open>hashmap_create\<close> computes
  \<open>round_up_to_power_of_2\<close>, although it lacks the shift by 32 and leaves powers of two alone; so the
  bucket mask is always a valid index.
\<close>

theorem round_buckets_eq:
  assumes "n \<noteq> 0" and "n \<le> 2 ^ 32"
  shows "round_buckets n = round_up_to_power_of_2 n \<and> is_power_of_2 (round_buckets n)"
proof (cases "n = 1")
  case True
  then show ?thesis
    by (simp add: round_buckets_def round_up_to_power_of_2_def is_power_of_2_def)
next
  case False
  then have n: "1 < n" "n - 1 \<noteq> 0"
    using assms(1) by (simp add: word_less_nat_alt word_unat_eq_iff, simp)
  then obtain k where k: "top_bit (n - 1) k"
    using top_bit_exists by blast
  have u: "unat (n - 1) = unat n - 1" "unat n \<le> 2 ^ 32"
    using assms by (simp_all add: unat_minus_one word_le_nat_alt)
  then have lt: "unat (n - 1) < 2 ^ 32" by simp
  have "(2 :: nat) ^ k < 2 ^ 32"
    using top_bit_bounds(1) [OF k] lt by linarith
  then have "k < 32"
    by (rule power_less_imp_less_exp [rotated]) simp
  note r = round_up_eq [OF n(1) k]
  have pow: "is_power_of_2 (round_up_to_power_of_2 n)"
    unfolding r is_power_of_2_iff using \<open>k < 32\<close> by (intro exI [of _ "Suc k"]) simp
  have "round_buckets n = round_up_to_power_of_2 n"
  proof (cases "n AND (n - 1) = 0")
    case True
    then obtain j where j: "j < 64" "n = 2 ^ j"
      using assms(1) is_power_of_2_iff [of n] by (auto simp: is_power_of_2_def)
    have "unat n = 2 ^ j"
      unfolding j(2) by (rule unat_power_2 [OF j(1)])
    then have "(2 :: nat) ^ k < 2 ^ j" "(2 :: nat) ^ j \<le> 2 ^ Suc k"
      using top_bit_bounds [OF k] u(1) n(1) [unfolded word_less_nat_alt unat_1] by linarith+
    then have "j = Suc k"
      by (simp del: power_Suc)
    then show ?thesis
      using True j(2) r by (simp add: round_buckets_def)
  next
    case False
    then have "round_buckets n = smear 16 (smear 8 (smear 4 (smear 2 (smear 1 (n - 1))))) + 1"
      by (simp add: round_buckets_def smear_def Let_def)
    also have "\<dots> = 2 ^ Suc k"
      unfolding small_smear_all [OF lt] smear_all_top [OF k] by (simp add: mask_eq_exp_minus_1)
    finally show ?thesis using r by simp
  qed
  with pow show ?thesis by simp
qed

theorem round_buckets_eq_witness:
  "(100 :: u64) \<noteq> 0 \<and> (100 :: u64) \<le> 2 ^ 32 \<and> round_buckets 100 = round_up_to_power_of_2 100"
  using round_buckets_eq [of 100] by simp

text \<open>Above that bound the result need not be a power of two.\<close>

lemma round_buckets_large: "round_buckets (2 ^ 32 + 1) = 2 ^ 33 - 1 \<and> \<not> is_power_of_2 (round_buckets (2 ^ 32 + 1))"
  by (simp add: round_buckets_def is_power_of_2_def)

lemma hashmap_create_inv:
  assumes "hashmap_create p1 p2 n (Some hash) (Some eq) = Some (Some hm, freed)"
    and rb: "is_power_of_2 (round_buckets n)"
  shows "hm_inv hm \<and> entries hm = [] \<and> hash_func hm = hash \<and> eq_func hm = eq"
  using assms
  by (auto simp: hashmap_create_def Let_def hm_inv_def entries_def chain_ok_def split: if_splits)

end
