(* ===== verification/Page.thy ===== *)
theory Page
  imports Memory Pframe
begin

text \<open>
  The page tables (\<open>kernel/mm/vmm/page.c\<close>, \<open>page.h\<close>, \<open>vmm_constants.h\<close>).

  The state holds the static variables of \<open>page.c\<close>, the frame allocator, the physical memory and the
  register CR3. Physical memory is seen through the direct map: \<open>dmem\<close> maps a kernel virtual address to
  the byte at the physical address below \<open>DIRECT_MAP_BASE\<close>. The map is a shift of the address space, so
  every physical byte has exactly one place in \<open>dmem\<close>, and an access through the identity mapping of the
  boot loader at address \<open>p\<close> is the access at \<open>phys_to_virt p\<close>. \<open>tlb_flushes\<close> lists the addresses given to
  \<open>invlpg\<close>, the latest first. The page lock is held for the whole of \<open>page_map_page\<close> and \<open>page_unmap_page\<close>,
  so each is one transition. The 40-bit field \<open>frame\<close> of an entry is shifted as a \<open>uint64_t\<close>.
\<close>

subsection \<open>Constants and entries\<close>

type_synonym physical_addr = u64
type_synonym virtual_addr = u64

datatype page_result =
  PAGE_OK | PAGE_ERR_NOT_INIT | PAGE_ERR_OOM | PAGE_ERR_INVALID | PAGE_ERR_NOT_PRESENT
| PAGE_ERR_ALREADY_MAPPED | PAGE_ERR_NOT_MAPPED | PAGE_ERR_ALIGNMENT

record page_query_result =
  q_phys_addr :: physical_addr
  q_flags :: u64
  q_present :: bool
  q_is_huge :: bool

record page_state =
  s_kernel_pml4 :: physical_addr
  s_initialized :: bool
  s_direct_map_established :: bool
  pool :: pframe_state
  dmem :: mem
  cr3 :: u64
  tlb_flushes :: "virtual_addr list"

definition PAGE_SIZE :: u64 where "PAGE_SIZE = 2 ^ 12"
definition PAGE_SIZE_2MB :: u64 where "PAGE_SIZE_2MB = 2 * 1024 * 1024"
definition PAGE_SIZE_1GB :: u64 where "PAGE_SIZE_1GB = 1 * 1024 * 1024 * 1024"
definition PAGE_PRESENT :: u64 where "PAGE_PRESENT = 2 ^ 0"
definition PAGE_WRITE :: u64 where "PAGE_WRITE = 2 ^ 1"
definition PAGE_USER :: u64 where "PAGE_USER = 2 ^ 2"
definition PAGE_WRITE_THRU :: u64 where "PAGE_WRITE_THRU = 2 ^ 3"
definition PAGE_NO_CACHE :: u64 where "PAGE_NO_CACHE = 2 ^ 4"
definition PAGE_NO_EXEC :: u64 where "PAGE_NO_EXEC = 2 ^ 63"
definition PAGE_HUGE_PD :: u64 where "PAGE_HUGE_PD = 2 ^ 7"
definition PAGE_HUGE_PDPT :: u64 where "PAGE_HUGE_PDPT = 2 ^ 7"
definition PTE_ADDR_MASK :: u64 where "PTE_ADDR_MASK = 0x000FFFFFFFFFF000"

lemmas page_consts = PAGE_SIZE_def PAGE_SIZE_2MB_def PAGE_SIZE_1GB_def PAGE_PRESENT_def PAGE_WRITE_def PAGE_USER_def
  PAGE_WRITE_THRU_def PAGE_NO_CACHE_def PAGE_NO_EXEC_def PAGE_HUGE_PD_def PAGE_HUGE_PDPT_def PTE_ADDR_MASK_def

definition VMAP_FLAG_WRITE :: u64 where "VMAP_FLAG_WRITE = 2 ^ 0"
definition VMAP_FLAG_USER :: u64 where "VMAP_FLAG_USER = 2 ^ 1"
definition VMAP_FLAG_NO_EXEC :: u64 where "VMAP_FLAG_NO_EXEC = 2 ^ 2"
definition VMAP_FLAG_WRITE_THRU :: u64 where "VMAP_FLAG_WRITE_THRU = 2 ^ 3"
definition VMAP_FLAG_NO_CACHE :: u64 where "VMAP_FLAG_NO_CACHE = 2 ^ 4"
definition VMAP_FLAG_HUGE_2MB :: u64 where "VMAP_FLAG_HUGE_2MB = 2 ^ 5"
definition VMAP_FLAG_HUGE_1GB :: u64 where "VMAP_FLAG_HUGE_1GB = 2 ^ 6"

lemmas vmap_consts = VMAP_FLAG_WRITE_def VMAP_FLAG_USER_def VMAP_FLAG_NO_EXEC_def VMAP_FLAG_WRITE_THRU_def
  VMAP_FLAG_NO_CACHE_def VMAP_FLAG_HUGE_2MB_def VMAP_FLAG_HUGE_1GB_def

definition PML4_INDEX :: "virtual_addr \<Rightarrow> u64" where "PML4_INDEX vaddr = drop_bit 39 vaddr AND 0x1FF"
definition PDPT_INDEX :: "virtual_addr \<Rightarrow> u64" where "PDPT_INDEX vaddr = drop_bit 30 vaddr AND 0x1FF"
definition PD_INDEX :: "virtual_addr \<Rightarrow> u64" where "PD_INDEX vaddr = drop_bit 21 vaddr AND 0x1FF"
definition PT_INDEX :: "virtual_addr \<Rightarrow> u64" where "PT_INDEX vaddr = drop_bit 12 vaddr AND 0x1FF"

text \<open>The bit fields of an entry that the code reads.\<close>

definition pte_present :: "u64 \<Rightarrow> bool" where "pte_present e \<longleftrightarrow> bit e 0"
definition pte_pat :: "u64 \<Rightarrow> bool" where "pte_pat e \<longleftrightarrow> bit e 7"
definition pte_frame :: "u64 \<Rightarrow> u64" where "pte_frame e = drop_bit 12 e AND mask 40"

text \<open>\<open>entry->bits.frame << PAGE_SHIFT\<close>.\<close>

definition pte_phys :: "u64 \<Rightarrow> physical_addr" where "pte_phys e = push_bit 12 (pte_frame e)"

definition DIRECT_MAP_BASE :: u64 where "DIRECT_MAP_BASE = 0xFFFF800000000000"

definition phys_to_virt :: "physical_addr \<Rightarrow> virtual_addr" where
  "phys_to_virt phys = DIRECT_MAP_BASE + phys"

text \<open>The entry with index \<open>i\<close> of the table at physical address \<open>t\<close>.\<close>

definition pt_entry :: "page_state \<Rightarrow> physical_addr \<Rightarrow> u64 \<Rightarrow> u64" where
  "pt_entry s t i = mload 8 (dmem s) (phys_to_virt t + 8 * i)"

definition set_entry :: "physical_addr \<Rightarrow> u64 \<Rightarrow> u64 \<Rightarrow> page_state \<Rightarrow> page_state" where
  "set_entry t i e s = s\<lparr>dmem := mstore 8 (phys_to_virt t + 8 * i) e (dmem s)\<rparr>"

definition page_invalidate_tlb :: "virtual_addr \<Rightarrow> page_state \<Rightarrow> page_state" where
  "page_invalidate_tlb vaddr s = s\<lparr>tlb_flushes := vaddr # tlb_flushes s\<rparr>"

definition vmap_flags_to_pte :: "u64 \<Rightarrow> u64" where
  "vmap_flags_to_pte vmap_flags =
     (let f = PAGE_PRESENT;
          f = (if vmap_flags AND VMAP_FLAG_WRITE \<noteq> 0 then f OR PAGE_WRITE else f);
          f = (if vmap_flags AND VMAP_FLAG_USER \<noteq> 0 then f OR PAGE_USER else f);
          f = (if vmap_flags AND VMAP_FLAG_NO_EXEC \<noteq> 0 then f OR PAGE_NO_EXEC else f);
          f = (if vmap_flags AND VMAP_FLAG_WRITE_THRU \<noteq> 0 then f OR PAGE_WRITE_THRU else f);
          f = (if vmap_flags AND VMAP_FLAG_NO_CACHE \<noteq> 0 then f OR PAGE_NO_CACHE else f)
      in f)"

subsection \<open>Initialisation\<close>

definition establish_direct_map :: "page_state \<Rightarrow> page_result \<times> page_state" where
  "establish_direct_map s =
     (let pml4_phys = s_kernel_pml4 s in
      if pte_present (pt_entry s pml4_phys 256) then (PAGE_OK, s\<lparr>s_direct_map_established := True\<rparr>)
      else
        let s = fold (\<lambda>i s.
              if \<not> pte_present (pt_entry s 0xB000 (of_nat i)) then
                let paddr = of_nat i * 0x200000 in
                set_entry 0xB000 (of_nat i) ((paddr AND PTE_ADDR_MASK) OR PAGE_PRESENT OR PAGE_WRITE OR PAGE_HUGE_PD) s
              else s) [0..<256] s;
            s = set_entry pml4_phys 256 ((0xA000 AND PTE_ADDR_MASK) OR PAGE_PRESENT OR PAGE_WRITE) s;
            s = s\<lparr>cr3 := pml4_phys\<rparr>
        in (PAGE_OK, s\<lparr>s_direct_map_established := True\<rparr>))"

definition page_init :: "page_state \<Rightarrow> page_result \<times> page_state" where
  "page_init s =
     (if s_initialized s then (PAGE_OK, s)
      else
        let s = s\<lparr>s_kernel_pml4 := cr3 s AND NOT 0xFFF\<rparr>;
            (result, s) = establish_direct_map s
        in if result \<noteq> PAGE_OK then (result, s) else (PAGE_OK, s\<lparr>s_initialized := True\<rparr>))"

definition page_get_pml4 :: "page_state \<Rightarrow> physical_addr option" where
  "page_get_pml4 s = do {
     ccos_assert (s_initialized s);
     Some (s_kernel_pml4 s)
   }"

subsection \<open>Tables\<close>

definition page_create_table ::
  "physical_addr option \<Rightarrow> page_state \<Rightarrow> (page_result \<times> physical_addr option \<times> page_state) option" where
  "page_create_table out_phys s = do {
     ccos_assert (s_initialized s);
     ccos_assert (s_direct_map_established s);
     ccos_assert (out_phys \<noteq> None);
     (result, out_phys, p) \<leftarrow> pframe_alloc out_phys (pool s);
     let s = s\<lparr>pool := p\<rparr>;
     if result \<noteq> PFRAME_OK then Some (PAGE_ERR_OOM, out_phys, s)
     else do {
       phys \<leftarrow> out_phys;
       (_, m) \<leftarrow> memset (phys_to_virt phys) 0 PAGE_SIZE (dmem s);
       Some (PAGE_OK, Some phys, s\<lparr>dmem := m\<rparr>)
     }
   }"

definition page_free_table :: "physical_addr \<Rightarrow> page_state \<Rightarrow> (page_result \<times> page_state) option" where
  "page_free_table phys s = do {
     ccos_assert (s_initialized s);
     (result, p) \<leftarrow> pframe_free phys (pool s);
     let s = s\<lparr>pool := p\<rparr>;
     Some (if result \<noteq> PFRAME_OK then PAGE_ERR_INVALID else PAGE_OK, s)
   }"

definition get_or_create_table ::
  "physical_addr \<Rightarrow> bool \<Rightarrow> page_state \<Rightarrow> (page_result \<times> physical_addr \<times> page_state) option" where
  "get_or_create_table table_phys alloc_missing s =
     (if table_phys \<noteq> 0 then Some (PAGE_OK, table_phys, s)
      else if \<not> alloc_missing then Some (PAGE_ERR_NOT_PRESENT, table_phys, s)
      else do {
        (result, out, s) \<leftarrow> page_create_table (Some table_phys) s;
        out \<leftarrow> out;
        Some (result, out, s)
      })"

text \<open>
  The block that \<open>page_map_page\<close> repeats at each level: take the table of entry \<open>i\<close> of table \<open>t\<close>, creating
  it and linking it into the entry if the entry has none.
\<close>

definition walk_or_create ::
  "physical_addr \<Rightarrow> u64 \<Rightarrow> bool \<Rightarrow> page_state \<Rightarrow> (page_result \<times> physical_addr \<times> page_state) option" where
  "walk_or_create t i alloc_missing s = do {
     (result, phys, s) \<leftarrow> get_or_create_table (pte_phys (pt_entry s t i)) alloc_missing s;
     if result \<noteq> PAGE_OK then Some (result, phys, s)
     else if phys \<noteq> pte_phys (pt_entry s t i)
     then Some (PAGE_OK, phys, set_entry t i ((phys AND PTE_ADDR_MASK) OR PAGE_PRESENT OR PAGE_WRITE OR PAGE_USER) s)
     else Some (PAGE_OK, phys, s)
   }"

subsection \<open>Mapping and unmapping\<close>

definition page_map_page ::
  "physical_addr \<Rightarrow> virtual_addr \<Rightarrow> physical_addr \<Rightarrow> u64 \<Rightarrow> bool \<Rightarrow> page_state \<Rightarrow> (page_result \<times> page_state) option" where
  "page_map_page pml4_phys vaddr paddr flags alloc_missing s = do {
     ccos_assert (s_initialized s);
     ccos_assert (s_direct_map_established s);
     let use_2mb = flags AND VMAP_FLAG_HUGE_2MB \<noteq> 0;
     let use_1gb = flags AND VMAP_FLAG_HUGE_1GB \<noteq> 0;
     if use_2mb \<and> use_1gb then Some (PAGE_ERR_INVALID, s)
     else do {
       let page_align = (if use_1gb then PAGE_SIZE_1GB - 1 else if use_2mb then PAGE_SIZE_2MB - 1 else PAGE_SIZE - 1);
       if vaddr AND page_align \<noteq> 0 then Some (PAGE_ERR_ALIGNMENT, s)
       else if paddr AND page_align \<noteq> 0 then Some (PAGE_ERR_ALIGNMENT, s)
       else do {
         let pte_flags = vmap_flags_to_pte flags;
         (result, pdpt, s) \<leftarrow> walk_or_create pml4_phys (PML4_INDEX vaddr) alloc_missing s;
         if result \<noteq> PAGE_OK then Some (result, s)
         else if use_1gb then
           (if pte_present (pt_entry s pdpt (PDPT_INDEX vaddr)) then Some (PAGE_ERR_ALREADY_MAPPED, s)
            else Some (PAGE_OK, page_invalidate_tlb vaddr
              (set_entry pdpt (PDPT_INDEX vaddr) ((paddr AND PTE_ADDR_MASK) OR pte_flags OR PAGE_HUGE_PDPT) s)))
         else do {
           (result, pd, s) \<leftarrow> walk_or_create pdpt (PDPT_INDEX vaddr) alloc_missing s;
           if result \<noteq> PAGE_OK then Some (result, s)
           else if use_2mb then
             (if pte_present (pt_entry s pd (PD_INDEX vaddr)) then Some (PAGE_ERR_ALREADY_MAPPED, s)
              else Some (PAGE_OK, page_invalidate_tlb vaddr
                (set_entry pd (PD_INDEX vaddr) ((paddr AND PTE_ADDR_MASK) OR pte_flags OR PAGE_HUGE_PD) s)))
           else if pte_present (pt_entry s pd (PD_INDEX vaddr)) \<and> pte_pat (pt_entry s pd (PD_INDEX vaddr))
           then Some (PAGE_ERR_INVALID, s)
           else do {
             (result, pt, s) \<leftarrow> walk_or_create pd (PD_INDEX vaddr) alloc_missing s;
             if result \<noteq> PAGE_OK then Some (result, s)
             else if pte_present (pt_entry s pt (PT_INDEX vaddr)) then Some (PAGE_ERR_ALREADY_MAPPED, s)
             else Some (PAGE_OK, page_invalidate_tlb vaddr
               (set_entry pt (PT_INDEX vaddr) ((paddr AND PTE_ADDR_MASK) OR pte_flags) s))
           }
         }
       }
     }
   }"

definition page_unmap_page ::
  "physical_addr \<Rightarrow> virtual_addr \<Rightarrow> bool \<Rightarrow> page_state \<Rightarrow> (page_result \<times> page_state) option" where
  "page_unmap_page pml4_phys vaddr free_table s = do {
     ccos_assert (s_initialized s);
     ccos_assert (s_direct_map_established s);
     if vaddr AND (PAGE_SIZE - 1) \<noteq> 0 then Some (PAGE_ERR_ALIGNMENT, s)
     else
       let pml4e = pt_entry s pml4_phys (PML4_INDEX vaddr) in
       if \<not> pte_present pml4e then Some (PAGE_ERR_NOT_MAPPED, s)
       else
         let pdpte = pt_entry s (pte_phys pml4e) (PDPT_INDEX vaddr) in
         if \<not> pte_present pdpte then Some (PAGE_ERR_NOT_MAPPED, s)
         else
           let pde = pt_entry s (pte_phys pdpte) (PD_INDEX vaddr) in
           if \<not> pte_present pde then Some (PAGE_ERR_NOT_MAPPED, s)
           else
             let pte = pt_entry s (pte_phys pde) (PT_INDEX vaddr) in
             if \<not> pte_present pte then Some (PAGE_ERR_NOT_MAPPED, s)
             else Some (PAGE_OK, page_invalidate_tlb vaddr (set_entry (pte_phys pde) (PT_INDEX vaddr) 0 s))
   }"

subsection \<open>Queries and ranges\<close>

definition no_mapping :: page_query_result where
  "no_mapping = \<lparr>q_phys_addr = 0, q_flags = 0, q_present = False, q_is_huge = False\<rparr>"

definition entry_result :: "bool \<Rightarrow> u64 \<Rightarrow> page_query_result" where
  "entry_result huge e = \<lparr>q_phys_addr = pte_phys e, q_flags = e AND 0xFFF, q_present = True, q_is_huge = huge\<rparr>"

definition page_query ::
  "physical_addr \<Rightarrow> virtual_addr \<Rightarrow> page_query_result option \<Rightarrow> page_state \<Rightarrow> (page_result \<times> page_query_result) option" where
  "page_query pml4_phys vaddr res s = do {
     ccos_assert (s_initialized s);
     ccos_assert (s_direct_map_established s);
     ccos_assert (res \<noteq> None);
     let pml4e = pt_entry s pml4_phys (PML4_INDEX vaddr);
     if \<not> pte_present pml4e then Some (PAGE_ERR_NOT_PRESENT, no_mapping)
     else
       let pdpte = pt_entry s (pte_phys pml4e) (PDPT_INDEX vaddr) in
       if \<not> pte_present pdpte then Some (PAGE_ERR_NOT_PRESENT, no_mapping)
       else if pte_pat pdpte then Some (PAGE_OK, entry_result True pdpte)
       else
         let pde = pt_entry s (pte_phys pdpte) (PD_INDEX vaddr) in
         if \<not> pte_present pde then Some (PAGE_ERR_NOT_PRESENT, no_mapping)
         else if pte_pat pde then Some (PAGE_OK, entry_result True pde)
         else
           let pte = pt_entry s (pte_phys pde) (PT_INDEX vaddr) in
           if \<not> pte_present pte then Some (PAGE_ERR_NOT_PRESENT, no_mapping)
           else Some (PAGE_OK, entry_result False pte)
   }"

definition page_virt_to_phys ::
  "physical_addr \<Rightarrow> virtual_addr \<Rightarrow> physical_addr option \<Rightarrow> page_state \<Rightarrow> (page_result \<times> physical_addr option) option" where
  "page_virt_to_phys pml4_phys vaddr out_phys s = do {
     ccos_assert (out_phys \<noteq> None);
     (res, result) \<leftarrow> page_query pml4_phys vaddr (Some no_mapping) s;
     if res = PAGE_OK \<and> q_present result
     then Some (PAGE_OK, Some (q_phys_addr result OR (vaddr AND (PAGE_SIZE - 1))))
     else Some (PAGE_ERR_NOT_PRESENT, out_phys)
   }"

definition page_unmap_range ::
  "physical_addr \<Rightarrow> virtual_addr \<Rightarrow> u64 \<Rightarrow> page_state \<Rightarrow> (page_result \<times> page_state) option" where
  "page_unmap_range pml4_phys vaddr_base page_count s = do {
     ccos_assert (s_initialized s);
     s \<leftarrow> fold_opt (\<lambda>i s. map_option snd (page_unmap_page pml4_phys (vaddr_base + of_nat i * PAGE_SIZE) False s))
       [0..<unat page_count] s;
     Some (PAGE_OK, s)
   }"

text \<open>The loop of \<open>page_map_range\<close>, over the indices still to be mapped.\<close>

fun map_range_loop ::
  "physical_addr \<Rightarrow> virtual_addr \<Rightarrow> physical_addr \<Rightarrow> u64 \<Rightarrow> nat list \<Rightarrow> page_state \<Rightarrow> (page_result \<times> page_state) option" where
  "map_range_loop pml4_phys vaddr_base paddr_base flags [] s = Some (PAGE_OK, s)"
| "map_range_loop pml4_phys vaddr_base paddr_base flags (i # is) s = do {
     (result, s) \<leftarrow> page_map_page pml4_phys (vaddr_base + of_nat i * PAGE_SIZE) (paddr_base + of_nat i * PAGE_SIZE) flags True s;
     if result \<noteq> PAGE_OK then do {
       (_, s) \<leftarrow> page_unmap_range pml4_phys vaddr_base (of_nat i) s;
       Some (result, s)
     } else map_range_loop pml4_phys vaddr_base paddr_base flags is s
   }"

definition page_map_range ::
  "physical_addr \<Rightarrow> virtual_addr \<Rightarrow> physical_addr \<Rightarrow> u64 \<Rightarrow> u64 \<Rightarrow> page_state \<Rightarrow> (page_result \<times> page_state) option" where
  "page_map_range pml4_phys vaddr_base paddr_base page_count flags s = do {
     ccos_assert (s_initialized s);
     map_range_loop pml4_phys vaddr_base paddr_base flags [0..<unat page_count] s
   }"

end
