(* ===== verification/Page_Tree.thy ===== *)
theory Page_Tree
  imports Page
begin

text \<open>
  Page tables as trees. The entries of all tables are a function \<open>e\<close> from a table and an index to an entry;
  \<open>node\<close> is the table at a path of indices below a root and \<open>walk\<close> the entry that decides the translation of
  an address. The lemmas describe the two changes that the code makes, linking a new table into an empty
  entry and setting an entry without a table below it.
\<close>

subsection \<open>Paths, tables and translations\<close>

type_synonym ents = "physical_addr \<Rightarrow> u64 \<Rightarrow> u64"

abbreviation has_table :: "u64 \<Rightarrow> bool" where
  "has_table x \<equiv> pte_present x \<and> \<not> pte_pat x"

fun node :: "ents \<Rightarrow> physical_addr \<Rightarrow> u64 list \<Rightarrow> physical_addr option" where
  "node e t [] = Some t"
| "node e t (i # is) = (if has_table (e t i) then node e (pte_phys (e t i)) is else None)"

text \<open>The entry that maps the address and whether it maps a huge page.\<close>

fun walk :: "ents \<Rightarrow> physical_addr \<Rightarrow> u64 list \<Rightarrow> (bool \<times> u64) option" where
  "walk e t [] = None"
| "walk e t (i # is) =
     (if \<not> pte_present (e t i) then None
      else if is = [] then Some (False, e t i)
      else if pte_pat (e t i) then Some (True, e t i)
      else walk e (pte_phys (e t i)) is)"

definition indices :: "u64 list \<Rightarrow> bool" where
  "indices p \<longleftrightarrow> (\<forall>i \<in> set p. i < 512)"

definition path :: "u64 list \<Rightarrow> bool" where
  "path p \<longleftrightarrow> length p \<le> 3 \<and> indices p"

definition tables :: "ents \<Rightarrow> physical_addr \<Rightarrow> physical_addr set" where
  "tables e r = {t. \<exists>p. path p \<and> node e r p = Some t}"

text \<open>No table is reached on two paths, and every table is page-aligned.\<close>

definition tree :: "ents \<Rightarrow> physical_addr \<Rightarrow> bool" where
  "tree e r \<longleftrightarrow>
     (\<forall>p q t. path p \<longrightarrow> path q \<longrightarrow> node e r p = Some t \<longrightarrow> node e r q = Some t \<longrightarrow> p = q) \<and>
     (\<forall>t \<in> tables e r. is_page_aligned t)"

lemma treeD: "tree e r \<Longrightarrow> path p \<Longrightarrow> path q \<Longrightarrow> node e r p = Some t \<Longrightarrow> node e r q = Some t \<Longrightarrow> p = q"
  by (auto simp: tree_def)

lemma tables_node: "path p \<Longrightarrow> node e r p = Some t \<Longrightarrow> t \<in> tables e r"
  by (auto simp: tables_def)

lemma path_Nil [simp]: "path []"
  by (simp add: path_def indices_def)

lemma path_snoc: "path (p @ [i]) \<longleftrightarrow> length p \<le> 2 \<and> path p \<and> i < 512"
  by (auto simp: path_def indices_def)

lemma indices_append [simp]: "indices (p @ q) \<longleftrightarrow> indices p \<and> indices q"
  by (auto simp: indices_def)

lemma indices_Cons [simp]: "indices (i # q) \<longleftrightarrow> i < 512 \<and> indices q"
  by (auto simp: indices_def)

lemma node_append: "node e r (p @ q) = (case node e r p of None \<Rightarrow> None | Some t \<Rightarrow> node e t q)"
  by (induction p arbitrary: r) auto

lemma node_snoc:
  "node e r (p @ [i]) = (case node e r p of None \<Rightarrow> None
    | Some t \<Rightarrow> if has_table (e t i) then Some (pte_phys (e t i)) else None)"
  by (simp add: node_append split: option.splits)

lemma walk_append: "node e r p = Some t \<Longrightarrow> q \<noteq> [] \<Longrightarrow> walk e r (p @ q) = walk e t q"
  by (induction p arbitrary: r) (auto split: if_splits)

subsection \<open>Linking a new table\<close>

definition linked :: "physical_addr \<Rightarrow> u64 \<Rightarrow> physical_addr \<Rightarrow> ents \<Rightarrow> ents \<Rightarrow> bool" where
  "linked t i n e e' \<longleftrightarrow>
     (\<forall>j < 512. e' n j = 0) \<and> has_table (e' t i) \<and> pte_phys (e' t i) = n \<and>
     (\<forall>u j. is_page_aligned u \<longrightarrow> j < 512 \<longrightarrow> u \<noteq> n \<longrightarrow> (u, j) \<noteq> (t, i) \<longrightarrow> e' u j = e u j)"

lemma no_table_0: "\<not> pte_present 0"
  by (simp add: pte_present_def)

lemma linked_node:
  assumes tr: "tree e r" and p: "path (p @ [i])" "node e r p = Some t" and ne: "\<not> pte_present (e t i)"
    and n: "n \<notin> tables e r" and l: "linked t i n e e'" and q: "path q"
  shows "node e' r q = (if q = p @ [i] then Some n else if take (Suc (length p)) q = p @ [i] then None else node e r q)"
  using q
proof (induction q rule: rev_induct)
  case (snoc j q)
  then have pq: "path q" and j: "j < 512" by (simp_all add: path_snoc)
  have pp: "path p" using p(1) by (simp add: path_snoc)
  note IH = snoc.IH [OF pq]
  consider "q = p @ [i]" | "q \<noteq> p @ [i]" "take (Suc (length p)) q = p @ [i]" | "take (Suc (length p)) q \<noteq> p @ [i]"
    by fastforce
  then show ?case
  proof cases
    case 1
    then have "node e' r q = Some n" using IH by simp
    moreover have "\<not> pte_present (e' n j)"
      using l j by (simp add: linked_def no_table_0)
    ultimately have "node e' r (q @ [j]) = None" by (simp only: node_snoc) simp
    then show ?thesis using 1 by simp
  next
    case 2
    then have "node e' r q = None" using IH by simp
    moreover have "length p < length q"
      using arg_cong [OF 2(2), of length] by simp
    ultimately show ?thesis
      using 2 by (auto simp: node_snoc)
  next
    case 3
    have eq: "node e' r q = node e r q" using IH 3 by auto
    show ?thesis
    proof (cases "node e r q")
      case None
      then have "q \<noteq> p" using p(2) by auto
      moreover have "take (Suc (length p)) (q @ [j]) = p @ [i] \<Longrightarrow> q = p"
        using 3 by (cases "length q \<le> length p") (auto simp: take_Suc_conv_app_nth)
      ultimately show ?thesis
        using None eq by (auto simp: node_snoc)
    next
      case (Some u)
      have u: "u \<in> tables e r" "u \<noteq> n" "is_page_aligned u"
        using tables_node [OF pq Some] n tr by (auto simp: tree_def)
      show ?thesis
      proof (cases "(u, j) = (t, i)")
        case True
        then have "q = p"
          using treeD [OF tr pq pp Some] p(2) by simp
        then show ?thesis
          using True l eq Some by (simp add: node_snoc linked_def)
      next
        case False
        have "take (Suc (length p)) (q @ [j]) \<noteq> p @ [i]"
        proof
          assume a: "take (Suc (length p)) (q @ [j]) = p @ [i]"
          then have "\<not> length p < length q" using 3 by auto
          then have "q @ [j] = p @ [i]" using a by simp
          then show False using False Some p(2) by simp
        qed
        moreover have "e' u j = e u j"
          using l u j False by (simp add: linked_def)
        ultimately show ?thesis
          using eq Some by (auto simp: node_snoc)
      qed
    qed
  qed
qed simp

text \<open>The new table is empty, so no translation changes.\<close>

lemma linked_walk_below:
  assumes tr: "tree e r" and p: "path (p @ [i])" "node e r p = Some t" and ne: "\<not> pte_present (e t i)"
    and n: "n \<notin> tables e r" and l: "linked t i n e e'"
    and "path q" "node e r q = Some u" "indices w" "length q + length w = 4"
  shows "walk e' u w = walk e u w"
  using assms(7-)
proof (induction w arbitrary: q u)
  case (Cons j w)
  have u: "u \<in> tables e r" "u \<noteq> n" "is_page_aligned u"
    using tables_node [OF Cons.prems(1,2)] n tr by (auto simp: tree_def)
  have pp: "path p" using p(1) by (simp add: path_snoc)
  show ?case
  proof (cases "(u, j) = (t, i)")
    case True
    then have "q = p"
      using treeD [OF tr Cons.prems(1) pp Cons.prems(2)] p(2) by simp
    then have "w \<noteq> []"
      using p(1) Cons.prems(4) by (auto simp: path_def)
    then obtain k w' where w: "w = k # w'" by (cases w) auto
    have "\<not> pte_present (e' n k)"
      using l Cons.prems(3) w by (simp add: linked_def no_table_0)
    then show ?thesis
      using True ne l w by (auto simp: linked_def)
  next
    case False
    then have e: "e' u j = e u j"
      using l u Cons.prems(3) by (simp add: linked_def)
    have "walk e' (pte_phys (e u j)) w = walk e (pte_phys (e u j)) w" if "has_table (e u j)" "w \<noteq> []"
    proof (rule Cons.IH [of "q @ [j]"])
      show "path (q @ [j])"
        using Cons.prems that(2) by (cases w) (auto simp: path_snoc)
      show "node e r (q @ [j]) = Some (pte_phys (e u j))"
        using Cons.prems(2) that(1) by (simp add: node_snoc)
    qed (use Cons.prems in auto)
    then show ?thesis
      using e by auto
  qed
qed simp

lemma linked_tree:
  assumes tr: "tree e r" and p: "path (p @ [i])" "node e r p = Some t" and ne: "\<not> pte_present (e t i)"
    and n: "n \<notin> tables e r" "is_page_aligned n" and l: "linked t i n e e'"
  shows "tree e' r" and "tables e' r = insert n (tables e r)"
    and "\<And>q. indices q \<Longrightarrow> length q = 4 \<Longrightarrow> walk e' r q = walk e r q"
    and "\<And>q u. path q \<Longrightarrow> node e r q = Some u \<Longrightarrow> node e' r q = Some u"
proof -
  note nd = linked_node [OF tr p ne n(1) l]
  have none: "node e r q = None" if "take (Suc (length p)) q = p @ [i]" for q
    using ne p(2) that append_take_drop_id [of "Suc (length p)" q] node_append [of e r "p @ [i]" "drop (Suc (length p)) q"]
    by (simp add: node_snoc)
  show keep: "node e' r q = Some u" if "path q" "node e r q = Some u" for q u
    using nd [OF that(1)] that(2) none [of q] by auto
  have new: "node e' r (p @ [i]) = Some n"
    using nd [OF p(1)] by simp
  have inv: "q = p @ [i] \<and> u = n \<or> q \<noteq> p @ [i] \<and> node e r q = Some u" if "path q" "node e' r q = Some u" for q u
    using nd [OF that(1)] that(2) by (auto split: if_splits)
  show tab: "tables e' r = insert n (tables e r)"
    unfolding tables_def using inv keep new p(1) by blast
  have "q1 = q2" if "path q1" "path q2" "node e' r q1 = Some u" "node e' r q2 = Some u" for q1 q2 u
    using inv [OF that(1,3)] inv [OF that(2,4)] treeD [OF tr that(1,2), of u] n(1) tables_node [OF that(1), of e r u]
      tables_node [OF that(2), of e r u] by blast
  then show "tree e' r"
    using tr n(2) tab by (auto simp: tree_def)
  show "walk e' r q = walk e r q" if "indices q" "length q = 4" for q
    using linked_walk_below [OF tr p ne n(1) l, of "[]" r q] that by simp
qed

subsection \<open>Setting an entry without a table\<close>

definition updated :: "physical_addr \<Rightarrow> u64 \<Rightarrow> u64 \<Rightarrow> ents \<Rightarrow> ents \<Rightarrow> bool" where
  "updated t i x e e' \<longleftrightarrow>
     e' t i = x \<and> (\<forall>u j. is_page_aligned u \<longrightarrow> j < 512 \<longrightarrow> (u, j) \<noteq> (t, i) \<longrightarrow> e' u j = e u j)"

lemma updated_node:
  assumes tr: "tree e r" and p: "path p" "node e r p = Some t" "i < 512"
    and nc: "length p = 3 \<or> \<not> has_table (e t i) \<and> \<not> has_table x"
    and up: "updated t i x e e'" and q: "path q"
  shows "node e' r q = node e r q"
  using q
proof (induction q rule: rev_induct)
  case (snoc j q)
  then have pq: "path q" and j: "j < 512" and len: "length q \<le> 2" by (simp_all add: path_snoc)
  show ?case
  proof (cases "node e r q")
    case (Some u)
    have "is_page_aligned u"
      using tables_node [OF pq Some] tr by (auto simp: tree_def)
    moreover have "\<not> has_table (e t i) \<and> \<not> has_table x" if "(u, j) = (t, i)"
      using treeD [OF tr pq p(1) Some] p(2) that nc len by auto
    ultimately show ?thesis
      using snoc.IH [OF pq] Some up j by (cases "(u, j) = (t, i)") (auto simp: node_snoc updated_def)
  qed (use snoc.IH [OF pq] in \<open>simp add: node_snoc\<close>)
qed simp

lemma updated_walk_other:
  assumes tr: "tree e r" and p: "path p" "node e r p = Some t" and up: "updated t i x e e'"
    and "path q" "node e r q = Some u" "indices w" "length q + length w = 4" "take (Suc (length p)) (q @ w) \<noteq> p @ [i]"
  shows "walk e' u w = walk e u w"
  using assms(5-)
proof (induction w arbitrary: q u)
  case (Cons j w)
  have "is_page_aligned u"
    using tables_node [OF Cons.prems(1,2)] tr by (auto simp: tree_def)
  moreover have "(u, j) \<noteq> (t, i)"
    using treeD [OF tr Cons.prems(1) p(1) Cons.prems(2)] p(2) Cons.prems(5) by auto
  ultimately have e: "e' u j = e u j"
    using up Cons.prems(3) by (simp add: updated_def)
  have "walk e' (pte_phys (e u j)) w = walk e (pte_phys (e u j)) w" if "has_table (e u j)" "w \<noteq> []"
  proof (rule Cons.IH [of "q @ [j]"])
    show "path (q @ [j])"
      using Cons.prems that(2) by (cases w) (auto simp: path_snoc)
    show "node e r (q @ [j]) = Some (pte_phys (e u j))"
      using Cons.prems(2) that(1) by (simp add: node_snoc)
  qed (use Cons.prems in auto)
  then show ?case
    using e by auto
qed simp

lemma updated_tree:
  assumes tr: "tree e r" and p: "path p" "node e r p = Some t" "i < 512"
    and nc: "length p = 3 \<or> \<not> has_table (e t i) \<and> \<not> has_table x"
    and up: "updated t i x e e'"
  shows "tree e' r" and "tables e' r = tables e r"
    and "\<And>q. indices q \<Longrightarrow> length q = 4 \<Longrightarrow>
      walk e' r q = (if take (Suc (length p)) q = p @ [i]
        then if pte_present x then Some (length p < 3, x) else None else walk e r q)"
proof -
  have nd: "node e' r q = node e r q" if "path q" for q
    by (rule updated_node [OF tr p nc up that])
  then show tab: "tables e' r = tables e r"
    by (auto simp: tables_def)
  show "tree e' r"
    using tr nd tab unfolding tree_def by metis
  show "walk e' r q = (if take (Suc (length p)) q = p @ [i]
      then if pte_present x then Some (length p < 3, x) else None else walk e r q)"
    if q: "indices q" "length q = 4" for q
  proof (cases "take (Suc (length p)) q = p @ [i]")
    case True
    define w where "w = drop (Suc (length p)) q"
    have "q = p @ i # w"
      using append_take_drop_id [of "Suc (length p)" q] by (simp add: True w_def)
    moreover have "node e' r p = Some t"
      using nd [OF p(1)] p(2) by simp
    moreover have "e' t i = x"
      using up by (simp add: updated_def)
    moreover have "w = [] \<longleftrightarrow> length p = 3"
      using q(2) by (simp add: w_def) (use p(1) in \<open>auto simp: path_def\<close>)
    ultimately show ?thesis
      using walk_append [of e' r p t "i # w"] nc p(1) by (auto simp: True path_def)
  next
    case False
    then show ?thesis
      using updated_walk_other [OF tr p(1,2) up, of "[]" r q] q by simp
  qed
qed

subsection \<open>Changes outside the tables\<close>

lemma node_cong:
  assumes "\<And>t i. t \<in> tables e r \<Longrightarrow> i < 512 \<Longrightarrow> e' t i = e t i" "path q"
  shows "node e' r q = node e r q"
  using assms(2)
proof (induction q rule: rev_induct)
  case (snoc j q)
  then have "path q" "j < 512" by (simp_all add: path_snoc)
  then show ?case
    using snoc.IH assms(1) tables_node [of q e r] by (auto simp: node_snoc split: option.splits)
qed simp

lemma tables_cong:
  assumes "\<And>t i. t \<in> tables e r \<Longrightarrow> i < 512 \<Longrightarrow> e' t i = e t i"
  shows "tables e' r = tables e r" and "tree e' r = tree e r"
proof -
  have nd: "node e' r q = node e r q" if "path q" for q
    using assms that by (rule node_cong)
  then show tab: "tables e' r = tables e r"
    by (auto simp: tables_def)
  show "tree e' r = tree e r"
    unfolding tree_def tab by (simp add: nd cong: imp_cong)
qed

lemma walk_cong_below:
  assumes "\<And>t i. t \<in> tables e r \<Longrightarrow> i < 512 \<Longrightarrow> e' t i = e t i"
    and "path q" "node e r q = Some u" "indices w" "length q + length w = 4"
  shows "walk e' u w = walk e u w"
  using assms(2-)
proof (induction w arbitrary: q u)
  case (Cons j w)
  have e: "e' u j = e u j"
    using assms(1) tables_node [OF Cons.prems(1,2)] Cons.prems(3) by simp
  have "walk e' (pte_phys (e u j)) w = walk e (pte_phys (e u j)) w" if "has_table (e u j)" "w \<noteq> []"
  proof (rule Cons.IH [of "q @ [j]"])
    show "path (q @ [j])"
      using Cons.prems that(2) by (cases w) (auto simp: path_snoc)
    show "node e r (q @ [j]) = Some (pte_phys (e u j))"
      using Cons.prems(2) that(1) by (simp add: node_snoc)
  qed (use Cons.prems in auto)
  then show ?case
    using e by auto
qed simp

lemma walk_cong:
  assumes "\<And>t i. t \<in> tables e r \<Longrightarrow> i < 512 \<Longrightarrow> e' t i = e t i" "indices w" "length w = 4"
  shows "walk e' r w = walk e r w"
  by (rule walk_cong_below [of e r e' "[]" r w]) (use assms in simp_all)

end
