(* ===== verification/Page_Props.thy ===== *)
theory Page_Props
  imports Page_Tree
begin

text \<open>
  Correctness of the page table operations: the entries in memory are independent, the invariant \<open>pt_inv\<close>
  (the tables below a root are a tree of frames in use) is kept, and mapping and unmapping change exactly one
  translation.
\<close>

subsection \<open>Entries in memory\<close>

lemma aligned_dvd: "is_page_aligned t \<longleftrightarrow> 4096 dvd unat t"
proof -
  have m: "(4096 - 1 :: u64) = mask 12"
    by (simp add: mask_eq_exp_minus_1)
  have "is_page_aligned t \<longleftrightarrow> unat (t AND mask 12) = 0"
    unfolding is_page_aligned_def m by (simp add: unat_eq_0)
  then show ?thesis
    by (simp add: unat_and_mask mod_eq_0_iff_dvd)
qed

lemma aligned_diff:
  assumes "is_page_aligned t" "is_page_aligned u" "t \<noteq> u"
  shows "4096 \<le> unat (t - u)"
proof -
  have "4096 dvd unat t" "4096 dvd unat u"
    using assms by (simp_all add: aligned_dvd)
  moreover have "unat (t - u) = (if unat u \<le> unat t then unat t - unat u else 2 ^ 64 + unat t - unat u)"
    by (auto simp: unat_sub_if')
  ultimately have "4096 dvd unat (t - u)"
    by (auto intro!: dvd_diff_nat dvd_add)
  moreover have "unat (t - u) \<noteq> 0"
    using assms(3) by (simp add: unat_eq_0)
  ultimately show ?thesis
    by (simp add: dvd_imp_le)
qed

lemma page_apart:
  "is_page_aligned t \<Longrightarrow> is_page_aligned u \<Longrightarrow> t \<noteq> u \<Longrightarrow> apart (phys_to_virt t) 4096 (phys_to_virt u) 4096"
  using aligned_diff [of t u] aligned_diff [of u t] by (simp add: apart_def phys_to_virt_def)

lemma entry_offset: "i < 512 \<Longrightarrow> 8 * i = (of_nat (8 * unat i) :: u64)"
  by simp

lemma index_nat: "(i :: u64) < 512 \<longleftrightarrow> unat i < 512"
  by (simp add: word_less_nat_alt)

lemma entry_apart:
  assumes "is_page_aligned t" "is_page_aligned u" "i < 512" "j < 512" "(t, i) \<noteq> (u, j)"
  shows "apart (phys_to_virt t + 8 * i) 8 (phys_to_virt u + 8 * j) 8"
proof (cases "t = u")
  case True
  then have "unat i \<noteq> unat j"
    using assms(5) by (simp add: word_unat_eq_iff)
  then show ?thesis
    unfolding entry_offset [OF assms(3)] entry_offset [OF assms(4)] True
    using assms(3,4) by (intro apart_fields) (auto simp: index_nat)
next
  case False
  then show ?thesis
    unfolding entry_offset [OF assms(3)] entry_offset [OF assms(4)]
    using assms(3,4) by (intro apart_parts [OF page_apart [OF assms(1,2)]]) (auto simp: index_nat)
qed

lemma set_entry_simps [simp]:
  "s_initialized (set_entry t i x s) = s_initialized s" "s_kernel_pml4 (set_entry t i x s) = s_kernel_pml4 s"
  "s_direct_map_established (set_entry t i x s) = s_direct_map_established s"
  "pool (set_entry t i x s) = pool s" "cr3 (set_entry t i x s) = cr3 s" "tlb_flushes (set_entry t i x s) = tlb_flushes s"
  by (simp_all add: set_entry_def)

lemma page_invalidate_tlb_simps [simp]:
  "s_initialized (page_invalidate_tlb v s) = s_initialized s" "s_kernel_pml4 (page_invalidate_tlb v s) = s_kernel_pml4 s"
  "s_direct_map_established (page_invalidate_tlb v s) = s_direct_map_established s"
  "pool (page_invalidate_tlb v s) = pool s" "cr3 (page_invalidate_tlb v s) = cr3 s" "dmem (page_invalidate_tlb v s) = dmem s"
  "pt_entry (page_invalidate_tlb v s) = pt_entry s" "tlb_flushes (page_invalidate_tlb v s) = v # tlb_flushes s"
  by (simp_all add: page_invalidate_tlb_def pt_entry_def fun_eq_iff)

lemma pt_entry_set_same: "pt_entry (set_entry t i x s) t i = x"
  by (simp add: pt_entry_def set_entry_def mload_mstore_same)

lemma pt_entry_set_other:
  "is_page_aligned t \<Longrightarrow> is_page_aligned u \<Longrightarrow> i < 512 \<Longrightarrow> j < 512 \<Longrightarrow> (t, i) \<noteq> (u, j) \<Longrightarrow>
    pt_entry (set_entry t i x s) u j = pt_entry s u j"
  by (simp add: pt_entry_def set_entry_def mload_mstore_apart entry_apart)

lemma set_entry_updated:
  "is_page_aligned t \<Longrightarrow> i < 512 \<Longrightarrow> updated t i x (pt_entry s) (pt_entry (set_entry t i x s))"
  unfolding updated_def using pt_entry_set_same pt_entry_set_other by metis

text \<open>The bytes of a frame outside the table that is written.\<close>

lemma set_entry_frame:
  assumes "is_page_aligned t" "is_page_aligned u" "t \<noteq> u" "i < 512" "k < 4096"
  shows "dmem (set_entry t i x s) (phys_to_virt u + of_nat k) = dmem s (phys_to_virt u + of_nat k)"
proof -
  have "apart (phys_to_virt t + of_nat (8 * unat i)) 8 (phys_to_virt u + of_nat k) 1"
    using assms(4,5) by (intro apart_parts [OF page_apart [OF assms(1-3)]]) (auto simp: index_nat)
  then show ?thesis
    using assms(4) by (simp add: set_entry_def mstore_byte_apart)
qed

subsection \<open>A cleared table\<close>

definition clear_page :: "physical_addr \<Rightarrow> mem \<Rightarrow> mem" where
  "clear_page t m = overwrite (phys_to_virt t) 4096 (\<lambda>_. 0) m"

lemma mload_zero: "(\<And>i. i < n \<Longrightarrow> m (a + of_nat i) = 0) \<Longrightarrow> mload n m a = (0 :: 'a::len word)"
  by (rule bit_eqI) (auto simp: mload_def bit_load_le less_mult_imp_div_less)

lemma clear_page_entry:
  assumes "j < 512"
  shows "mload 8 (clear_page t m) (phys_to_virt t + 8 * j) = (0 :: u64)"
proof (rule mload_zero)
  fix i :: nat
  assume i: "i < 8"
  have "unat (8 * j + of_nat i) = 8 * unat j + i"
    using assms i by (simp add: unat_word_ariths unat_of_nat_small index_nat)
  then show "clear_page t m (phys_to_virt t + 8 * j + of_nat i) = 0"
    using assms i by (simp add: clear_page_def overwrite_def index_nat add.assoc)
qed

lemma clear_page_frame:
  assumes "is_page_aligned t" "is_page_aligned u" "t \<noteq> u" "k < 4096"
  shows "clear_page t m (phys_to_virt u + of_nat k) = m (phys_to_virt u + of_nat k)"
  using apart_byte [OF page_apart [OF assms(1-3)], of k] assms(4) by (simp add: clear_page_def overwrite_def)

lemma clear_page_other:
  assumes "is_page_aligned t" "is_page_aligned u" "t \<noteq> u" "j < 512"
  shows "mload 8 (clear_page t m) (phys_to_virt u + 8 * j) = mload 8 m (phys_to_virt u + 8 * j)"
proof (rule mload_cong)
  fix i :: nat
  assume "i < 8"
  then have "8 * unat j + i < 4096"
    using assms(4) by (simp add: index_nat)
  from clear_page_frame [OF assms(1-3) this, of m]
  show "clear_page t m (phys_to_virt u + 8 * j + of_nat i) = m (phys_to_virt u + 8 * j + of_nat i)"
    by (simp add: add.assoc)
qed

subsection \<open>Fields of an entry\<close>

lemma bit_pte_phys: "bit (pte_phys x) k \<longleftrightarrow> 12 \<le> k \<and> k < 52 \<and> bit x k"
  by (auto simp: pte_phys_def pte_frame_def bit_simps)

lemma addr_mask: "PTE_ADDR_MASK = push_bit 12 (mask 40)"
  by (simp add: PTE_ADDR_MASK_def mask_eq_exp_minus_1)

lemma bit_addr_mask: "bit PTE_ADDR_MASK k \<longleftrightarrow> 12 \<le> k \<and> k < 52"
  by (auto simp: addr_mask bit_simps)

definition frame_addr_ok :: "physical_addr \<Rightarrow> bool" where
  "frame_addr_ok a \<longleftrightarrow> a AND PTE_ADDR_MASK = a"

lemma bit_less_64: "bit (a :: u64) k \<Longrightarrow> k < 64"
  using bit_imp_le_length [of a k] by simp

lemma aligned_bits: "is_page_aligned a \<longleftrightarrow> (\<forall>k. bit a k \<longrightarrow> 12 \<le> k)"
proof -
  have m: "(4096 - 1 :: u64) = mask 12"
    by (simp add: mask_eq_exp_minus_1)
  show ?thesis
    unfolding is_page_aligned_def m bit_eq_iff by (auto simp: bit_simps not_less dest: bit_less_64)
qed

lemma frame_addr_ok_bits: "frame_addr_ok a \<longleftrightarrow> (\<forall>k. bit a k \<longrightarrow> 12 \<le> k \<and> k < 52)"
  unfolding frame_addr_ok_def bit_eq_iff by (auto simp: bit_simps bit_addr_mask dest: bit_less_64)

lemma frame_addr_ok_aligned: "frame_addr_ok a \<Longrightarrow> is_page_aligned a"
  by (simp add: frame_addr_ok_bits aligned_bits)

lemma frame_addr_okI:
  assumes "is_page_aligned a" "unat a < 2 ^ 52"
  shows "frame_addr_ok a"
proof -
  have "take_bit 52 (unat a) = unat a"
    using assms(2) by (simp only: take_bit_nat_eq_self)
  then have "take_bit 52 a = a"
    by (metis unsigned_take_bit_eq word_unat_eq_iff)
  then have "bit a k \<Longrightarrow> k < 52" for k
    by (metis bit_take_bit_iff)
  then show ?thesis
    using assms(1) by (simp add: frame_addr_ok_bits aligned_bits)
qed

definition flags_only :: "u64 \<Rightarrow> bool" where
  "flags_only f \<longleftrightarrow> f AND PTE_ADDR_MASK = 0"

lemma pte_phys_make: "frame_addr_ok a \<Longrightarrow> flags_only f \<Longrightarrow> pte_phys ((a AND PTE_ADDR_MASK) OR f) = a"
  by (rule bit_eqI) (auto simp: frame_addr_ok_def flags_only_def bit_eq_iff bit_simps bit_pte_phys bit_addr_mask)

lemma present_make: "pte_present ((a AND PTE_ADDR_MASK) OR f) = pte_present f"
  by (simp add: pte_present_def bit_simps bit_addr_mask)

lemma pat_make: "pte_pat ((a AND PTE_ADDR_MASK) OR f) = pte_pat f"
  by (simp add: pte_pat_def bit_simps bit_addr_mask)

lemma low_make: "((a AND PTE_ADDR_MASK) OR f) AND 0xFFF = f AND 0xFFF"
proof -
  have m: "(0xFFF :: u64) = mask 12"
    by (simp add: mask_eq_exp_minus_1)
  show ?thesis
    unfolding m by (rule bit_eqI) (auto simp: bit_simps bit_addr_mask)
qed

lemma table_flags: "flags_only (PAGE_PRESENT OR PAGE_WRITE OR PAGE_USER)" "pte_present (PAGE_PRESENT OR PAGE_WRITE OR PAGE_USER)"
    "\<not> pte_pat (PAGE_PRESENT OR PAGE_WRITE OR PAGE_USER)"
  by (simp_all add: flags_only_def page_consts pte_present_def pte_pat_def bit_simps)

lemma vmap_flags_ok: "flags_only (vmap_flags_to_pte f)" "pte_present (vmap_flags_to_pte f)" "\<not> pte_pat (vmap_flags_to_pte f)"
  unfolding vmap_flags_to_pte_def Let_def
  by (simp_all add: flags_only_def page_consts pte_present_def pte_pat_def bit_simps bit.conj_disj_distrib2)

subsection \<open>The invariant\<close>

definition pt_inv :: "physical_addr \<Rightarrow> page_state \<Rightarrow> bool" where
  "pt_inv r s \<longleftrightarrow>
     s_initialized s \<and> s_direct_map_established s \<and> pframe_ok (pool s) \<and> tree (pt_entry s) r \<and>
     tables (pt_entry s) r \<subseteq> pf_in_use (pool s) - {0} \<and> 0 \<in> pf_in_use (pool s) \<and>
     (\<forall>i < 512. pte_present (pt_entry s r i) \<longrightarrow> \<not> pte_pat (pt_entry s r i)) \<and>
     (\<forall>p i t. path (p @ [i]) \<longrightarrow> node (pt_entry s) r p = Some t \<longrightarrow> \<not> pte_present (pt_entry s t i) \<longrightarrow>
       pte_frame (pt_entry s t i) = 0)"

lemma pt_invD:
  assumes "pt_inv r s"
  shows "s_initialized s" "s_direct_map_established s" "pframe_ok (pool s)" "tree (pt_entry s) r"
    and "\<And>t. t \<in> tables (pt_entry s) r \<Longrightarrow> t \<in> pf_in_use (pool s) \<and> t \<noteq> 0 \<and> is_page_aligned t"
    and "0 \<in> pf_in_use (pool s)"
    and "\<And>i. i < 512 \<Longrightarrow> pte_present (pt_entry s r i) \<Longrightarrow> \<not> pte_pat (pt_entry s r i)"
    and "\<And>p i t. path (p @ [i]) \<Longrightarrow> node (pt_entry s) r p = Some t \<Longrightarrow> \<not> pte_present (pt_entry s t i) \<Longrightarrow>
       pte_frame (pt_entry s t i) = 0"
  using assms by (auto simp: pt_inv_def tree_def)

text \<open>
  What an operation on the address space \<open>r\<close> leaves alone: the contents of the frames in use that are not
  tables of \<open>r\<close>. Every frame it takes from the allocator becomes a table of \<open>r\<close>.
\<close>

definition kept :: "physical_addr \<Rightarrow> page_state \<Rightarrow> page_state \<Rightarrow> bool" where
  "kept r s s' \<longleftrightarrow>
     (\<forall>t \<in> pf_in_use (pool s) - tables (pt_entry s) r. \<forall>k < 4096.
        dmem s' (phys_to_virt t + of_nat k) = dmem s (phys_to_virt t + of_nat k)) \<and>
     pf_in_use (pool s') = pf_in_use (pool s) \<union> tables (pt_entry s') r \<and>
     tables (pt_entry s') r \<inter> pf_in_use (pool s) = tables (pt_entry s) r"

lemma kept_refl: "pt_inv r s \<Longrightarrow> kept r s s"
  by (auto simp: kept_def pt_inv_def)

lemma kept_trans:
  assumes "kept r s s1" "kept r s1 s2"
  shows "kept r s s2"
proof -
  note k = assms [unfolded kept_def]
  have "dmem s2 (phys_to_virt t + of_nat k) = dmem s (phys_to_virt t + of_nat k)"
    if "t \<in> pf_in_use (pool s) - tables (pt_entry s) r" "k < 4096" for t k
  proof -
    have "t \<in> pf_in_use (pool s1) - tables (pt_entry s1) r"
      using that(1) k(1) by blast
    with that k show ?thesis by metis
  qed
  moreover have "pf_in_use (pool s2) = pf_in_use (pool s) \<union> tables (pt_entry s2) r"
    "tables (pt_entry s2) r \<inter> pf_in_use (pool s) = tables (pt_entry s) r"
    using k by auto
  ultimately show ?thesis
    by (auto simp: kept_def)
qed

lemma in_use_frame:
  assumes "pframe_ok P" "a \<in> pf_in_use P"
  shows "is_page_aligned a" "unat a < 2 ^ 36"
proof -
  have a: "is_page_aligned a" "unat (addr_to_frame a) \<in> allocated P"
    using assms by (simp_all add: in_use_iff)
  then show "is_page_aligned a" by simp
  have "unat a div 4096 < 2 ^ 24"
    using a(2) pframe_okD(4,5) [OF assms(1)] by (auto simp: addr_to_frame_def unat_drop_bit)
  then show "unat a < 2 ^ 36"
    by (simp add: div_less_iff_less_mult)
qed

lemma in_use_frame_ok: "pframe_ok P \<Longrightarrow> a \<in> pf_in_use P \<Longrightarrow> frame_addr_ok a"
  using in_use_frame [of P a] by (intro frame_addr_okI) simp_all

lemma phys_to_virt_not_null: "unat a < 2 ^ 36 \<Longrightarrow> phys_to_virt a \<noteq> 0"
  by (auto simp: phys_to_virt_def DIRECT_MAP_BASE_def word_unat_eq_iff unat_word_ariths)

subsection \<open>Taking the table of an entry\<close>

lemma page_create_table_cases:
  assumes "s_initialized s" "s_direct_map_established s" "pframe_ok (pool s)"
  obtains "page_create_table (Some 0) s = Some (PAGE_ERR_OOM, Some 0, s)"
  | n P where "page_create_table (Some 0) s = Some (PAGE_OK, Some n, s\<lparr>pool := P, dmem := clear_page n (dmem s)\<rparr>)"
      "n \<notin> pf_in_use (pool s)" "pframe_ok P" "pf_in_use P = insert n (pf_in_use (pool s))" "frame_addr_ok n"
proof -
  consider "pframe_alloc (Some 0) (pool s) = Some (PFRAME_ERR_OOM, Some 0, pool s)"
    | f P where "f < frames (pool s)" "f \<notin> allocated (pool s)" "pframe_ok P" "allocated P = insert f (allocated (pool s))"
        "pframe_alloc (Some 0) (pool s) = Some (PFRAME_OK, Some (frame_addr f), P)"
    using pframe_alloc_ok [OF assms(3), of 0] next_fitD by blast
  then show thesis
  proof cases
    case 1
    then show ?thesis
      using assms that(1) by (simp add: page_create_table_def)
  next
    case (2 f P)
    let ?n = "frame_addr f"
    have in_use: "pf_in_use P = insert ?n (pf_in_use (pool s))"
      using 2(4) by (simp add: pf_in_use_def)
    then have ok: "frame_addr_ok ?n"
      using in_use_frame_ok [OF 2(3)] by simp
    have "phys_to_virt ?n \<noteq> 0"
      using in_use_frame(2) [OF 2(3), of ?n] in_use by (intro phys_to_virt_not_null) simp
    then have "page_create_table (Some 0) s =
        Some (PAGE_OK, Some ?n, s\<lparr>pool := P, dmem := clear_page ?n (dmem s)\<rparr>)"
      using assms 2(5) by (simp add: page_create_table_def memset_ok clear_page_def PAGE_SIZE_def)
    then show ?thesis
      using that(2) in_use ok 2(3) in_use_insert [OF assms(3) 2(1,2)] by blast
  qed
qed

lemma linked_create:
  fixes s :: page_state and P :: pframe_state
  assumes "is_page_aligned t" "frame_addr_ok n" "i < 512" "t \<noteq> n"
  defines "s' \<equiv> set_entry t i ((n AND PTE_ADDR_MASK) OR PAGE_PRESENT OR PAGE_WRITE OR PAGE_USER)
    (s\<lparr>pool := P, dmem := clear_page n (dmem s)\<rparr>)"
  shows "linked t i n (pt_entry s) (pt_entry s')"
proof -
  have n: "is_page_aligned n" using assms(2) by (rule frame_addr_ok_aligned)
  let ?x = "(n AND PTE_ADDR_MASK) OR (PAGE_PRESENT OR PAGE_WRITE OR PAGE_USER)"
  have x: "has_table ?x" "pte_phys ?x = n"
    using pte_phys_make [OF assms(2) table_flags(1)] table_flags(2,3) by (simp_all add: present_make pat_make)
  have "pt_entry s' n j = 0" if "j < 512" for j
    unfolding s'_def using that assms(1,3,4) n
    by (subst pt_entry_set_other) (simp_all add: pt_entry_def clear_page_entry)
  moreover have "pt_entry s' u j = pt_entry s u j"
    if "is_page_aligned u" "j < 512" "u \<noteq> n" "(u, j) \<noteq> (t, i)" for u j
    unfolding s'_def using that assms(1,3) n
    by (subst pt_entry_set_other) (auto simp: pt_entry_def clear_page_other)
  moreover have "pt_entry s' t i = ?x"
    unfolding s'_def by (simp add: pt_entry_set_same or.assoc)
  ultimately show ?thesis
    unfolding linked_def using x by simp
qed

text \<open>The state after the creation of table \<open>n\<close> for entry \<open>i\<close> of table \<open>t\<close>.\<close>

definition created_state :: "physical_addr \<Rightarrow> u64 \<Rightarrow> physical_addr \<Rightarrow> pframe_state \<Rightarrow> page_state \<Rightarrow> page_state" where
  "created_state t i n P s = set_entry t i ((n AND PTE_ADDR_MASK) OR PAGE_PRESENT OR PAGE_WRITE OR PAGE_USER)
    (s\<lparr>pool := P, dmem := clear_page n (dmem s)\<rparr>)"

lemma created_simps [simp]:
  "s_initialized (created_state t i n P s) = s_initialized s" "pool (created_state t i n P s) = P"
  "s_direct_map_established (created_state t i n P s) = s_direct_map_established s"
  "s_kernel_pml4 (created_state t i n P s) = s_kernel_pml4 s" "cr3 (created_state t i n P s) = cr3 s"
  "tlb_flushes (created_state t i n P s) = tlb_flushes s"
  by (simp_all add: created_state_def)

lemma created_inv:
  assumes inv: "pt_inv r s" and p: "path (p @ [i])" "node (pt_entry s) r p = Some t"
    and ne: "\<not> pte_present (pt_entry s t i)"
    and n: "n \<notin> pf_in_use (pool s)" "pframe_ok P" "pf_in_use P = insert n (pf_in_use (pool s))" "frame_addr_ok n"
  shows "linked t i n (pt_entry s) (pt_entry (created_state t i n P s))"
    and "pt_inv r (created_state t i n P s)"
proof -
  note I = pt_invD [OF inv]
  let ?s = "created_state t i n P s"
  have pp: "path p" and i: "i < 512"
    using p(1) by (simp_all add: path_snoc)
  have t: "t \<in> pf_in_use (pool s)" "t \<noteq> 0" "is_page_aligned t"
    using I(5) tables_node [OF pp p(2)] by auto
  have na: "is_page_aligned n" "n \<noteq> 0" "n \<noteq> t" "n \<notin> tables (pt_entry s) r"
    using n t(1) I(5,6) frame_addr_ok_aligned by blast+
  show l: "linked t i n (pt_entry s) (pt_entry ?s)"
    unfolding created_state_def by (rule linked_create [OF t(3) n(4) i na(3) [symmetric]])
  note lt = linked_tree [OF I(4) p ne na(4,1) l]
  have "r \<in> tables (pt_entry s) r"
    using tables_node [of "[]"] by simp
  then have ra: "is_page_aligned r" "r \<noteq> n"
    using I(5) na(4) by auto
  have top: "\<not> pte_pat (pt_entry ?s r j)" if "j < 512" "pte_present (pt_entry ?s r j)" for j
    using l I(7) [OF that(1)] that ra by (cases "(r, j) = (t, i)") (auto simp: linked_def)
  have clear: "pte_frame (pt_entry ?s u j) = 0"
    if q: "path (q @ [j])" "node (pt_entry ?s) r q = Some u" "\<not> pte_present (pt_entry ?s u j)" for q j u
  proof -
    have pq: "path q" and j: "j < 512" using q(1) by (simp_all add: path_snoc)
    have "u = n \<or> node (pt_entry s) r q = Some u \<and> is_page_aligned u \<and> u \<noteq> n"
      using linked_node [OF I(4) p ne na(4) l pq] q(2) tables_node [OF pq, of "pt_entry s" r u] I(5) [of u] na(4)
      by (auto split: if_splits)
    moreover have "(u, j) \<noteq> (t, i)" using q(3) l by (auto simp: linked_def)
    ultimately have "pt_entry ?s u j = 0 \<or> node (pt_entry s) r q = Some u \<and> pt_entry ?s u j = pt_entry s u j"
      using l j by (auto simp: linked_def)
    then show ?thesis
      using I(8) [OF q(1), of u] q(3) by (auto simp: pte_frame_def)
  qed
  show "pt_inv r ?s"
    unfolding pt_inv_def using I n(2,3) lt(1,2) na top clear by auto
qed

lemma created_kept:
  assumes inv: "pt_inv r s" and p: "path (p @ [i])" "node (pt_entry s) r p = Some t"
    and ne: "\<not> pte_present (pt_entry s t i)"
    and n: "n \<notin> pf_in_use (pool s)" "pframe_ok P" "pf_in_use P = insert n (pf_in_use (pool s))" "frame_addr_ok n"
  shows "kept r s (created_state t i n P s)"
proof -
  note I = pt_invD [OF inv]
  have pp: "path p" and i: "i < 512"
    using p(1) by (simp_all add: path_snoc)
  have t: "is_page_aligned t"
    using I(5) tables_node [OF pp p(2)] by auto
  have na: "is_page_aligned n" "n \<notin> tables (pt_entry s) r"
    using n I(5) frame_addr_ok_aligned by blast+
  have tab: "tables (pt_entry (created_state t i n P s)) r = insert n (tables (pt_entry s) r)"
    by (rule linked_tree(2) [OF I(4) p ne na(2,1) created_inv(1) [OF assms]])
  have "dmem (created_state t i n P s) (phys_to_virt u + of_nat k) = dmem s (phys_to_virt u + of_nat k)"
    if u: "u \<in> pf_in_use (pool s)" "u \<notin> tables (pt_entry s) r" and k: "k < 4096" for u k
  proof -
    have "is_page_aligned u" using in_use_frame [OF I(3) u(1)] by simp
    moreover have "u \<noteq> n" "u \<noteq> t" using u n(1) tables_node [OF pp p(2)] by auto
    ultimately show ?thesis
      using k i t na(1) set_entry_frame [of t u i k] clear_page_frame [of n u k "dmem s"] by (simp add: created_state_def)
  qed
  then show ?thesis
    unfolding kept_def using n tab I(5) by auto
qed

lemma walk_or_create_ok:
  assumes inv: "pt_inv r s" and p: "path (p @ [i])" "node (pt_entry s) r p = Some t"
    and nh: "pte_present (pt_entry s t i) \<Longrightarrow> \<not> pte_pat (pt_entry s t i)"
  obtains (fail) "walk_or_create t i al s = Some (if al then PAGE_ERR_OOM else PAGE_ERR_NOT_PRESENT, 0, s)"
      "\<not> pte_present (pt_entry s t i)"
  | (found) t' where "walk_or_create t i al s = Some (PAGE_OK, t', s)" "pte_present (pt_entry s t i)"
      "node (pt_entry s) r (p @ [i]) = Some t'"
  | (created) t' s' where "walk_or_create t i al s = Some (PAGE_OK, t', s')" "\<not> pte_present (pt_entry s t i)" "al"
      "pt_inv r s'" "kept r s s'" "node (pt_entry s') r (p @ [i]) = Some t'" "tlb_flushes s' = tlb_flushes s"
      "\<And>q. indices q \<Longrightarrow> length q = 4 \<Longrightarrow> walk (pt_entry s') r q = walk (pt_entry s) r q"
      "\<And>j. j < 512 \<Longrightarrow> pt_entry s' t' j = 0" "s_kernel_pml4 s' = s_kernel_pml4 s" "cr3 s' = cr3 s"
proof (cases "pte_present (pt_entry s t i)")
  case True
  note I = pt_invD [OF inv]
  have n: "node (pt_entry s) r (p @ [i]) = Some (pte_phys (pt_entry s t i))"
    using True nh p(2) by (simp add: node_snoc)
  then have "pte_phys (pt_entry s t i) \<noteq> 0"
    using I(5) tables_node [OF p(1) n] by blast
  then show ?thesis
    using True n by (intro found) (simp_all add: walk_or_create_def get_or_create_table_def)
next
  case ne: False
  note I = pt_invD [OF inv]
  have zero: "pte_phys (pt_entry s t i) = 0"
    using I(8) [OF p ne] by (simp add: pte_phys_def)
  show ?thesis
  proof (cases al)
    case False
    then show ?thesis
      using zero ne by (intro fail) (simp_all add: walk_or_create_def get_or_create_table_def)
  next
    case al: True
    show ?thesis
    proof (rule page_create_table_cases [OF I(1-3)])
      assume "page_create_table (Some 0) s = Some (PAGE_ERR_OOM, Some 0, s)"
      then show ?thesis
        using zero ne al by (intro fail) (simp_all add: walk_or_create_def get_or_create_table_def)
    next
      fix n P
      let ?s = "s\<lparr>pool := P, dmem := clear_page n (dmem s)\<rparr>"
      assume c: "page_create_table (Some 0) s = Some (PAGE_OK, Some n, ?s)"
        and n: "n \<notin> pf_in_use (pool s)" "pframe_ok P" "pf_in_use P = insert n (pf_in_use (pool s))" "frame_addr_ok n"
      have t: "is_page_aligned t" "n \<noteq> t" "n \<noteq> 0" "i < 512" "n \<notin> tables (pt_entry s) r"
        using I(5,6) tables_node [OF _ p(2)] p(1) n(1) by (auto simp: path_snoc)
      note l = created_inv(1) [OF inv p ne n]
      have "pt_entry ?s t i = pt_entry s t i"
        using t frame_addr_ok_aligned [OF n(4)] by (simp add: pt_entry_def clear_page_other)
      then have "walk_or_create t i al s = Some (PAGE_OK, n, created_state t i n P s)"
        using zero al c t(3) by (simp add: walk_or_create_def get_or_create_table_def created_state_def)
      moreover have "node (pt_entry (created_state t i n P s)) r (p @ [i]) = Some n"
        using linked_node [OF I(4) p ne t(5) l p(1)] by simp
      ultimately show ?thesis
        using ne al created_inv(2) [OF inv p ne n] created_kept [OF inv p ne n] l
          linked_tree(3) [OF I(4) p ne t(5) frame_addr_ok_aligned [OF n(4)] l]
        by (intro created [of n "created_state t i n P s"]) (simp_all add: linked_def)
    qed
  qed
qed

subsection \<open>Translations\<close>

definition idx :: "virtual_addr \<Rightarrow> u64 list" where
  "idx v = [PML4_INDEX v, PDPT_INDEX v, PD_INDEX v, PT_INDEX v]"

definition translation :: "physical_addr \<Rightarrow> page_state \<Rightarrow> virtual_addr \<Rightarrow> (bool \<times> u64) option" where
  "translation r s v = walk (pt_entry s) r (idx v)"

lemma index_less [simp]: "PML4_INDEX v < 512" "PDPT_INDEX v < 512" "PD_INDEX v < 512" "PT_INDEX v < 512"
proof -
  have m: "(0x1FF :: u64) = mask 9"
    by (simp add: mask_eq_exp_minus_1)
  have "w AND 0x1FF < 512" for w :: u64
    unfolding m using unat_and_mask [of w 9] by (simp add: word_less_nat_alt)
  then show "PML4_INDEX v < 512" "PDPT_INDEX v < 512" "PD_INDEX v < 512" "PT_INDEX v < 512"
    by (simp_all add: PML4_INDEX_def PDPT_INDEX_def PD_INDEX_def PT_INDEX_def)
qed

lemma indices_idx [simp]: "indices (idx v)" "length (idx v) = 4"
  by (simp_all add: idx_def indices_def)

definition query_of :: "(bool \<times> u64) option \<Rightarrow> page_result \<times> page_query_result" where
  "query_of w = (case w of None \<Rightarrow> (PAGE_ERR_NOT_PRESENT, no_mapping) | Some (h, x) \<Rightarrow> (PAGE_OK, entry_result h x))"

text \<open>\<open>page_query\<close> reads the translation.\<close>

lemma page_query_walk: "pt_inv r s \<Longrightarrow> page_query r v (Some q) s = Some (query_of (translation r s v))"
  using pt_invD(1,2,7) [of r s]
  by (auto simp: page_query_def translation_def idx_def query_of_def Let_def)

text \<open>No huge page of 1 GB covers the address.\<close>

definition no_1gb :: "physical_addr \<Rightarrow> virtual_addr \<Rightarrow> page_state \<Rightarrow> bool" where
  "no_1gb r v s \<longleftrightarrow> (case node (pt_entry s) r [PML4_INDEX v] of None \<Rightarrow> True
     | Some t \<Rightarrow> pte_present (pt_entry s t (PDPT_INDEX v)) \<longrightarrow> \<not> pte_pat (pt_entry s t (PDPT_INDEX v)))"

text \<open>A change of memory outside the tables, with more frames in use.\<close>

lemma pt_inv_cong:
  assumes inv: "pt_inv r s" and e: "\<And>t i. t \<in> tables (pt_entry s) r \<Longrightarrow> i < 512 \<Longrightarrow> pt_entry s' t i = pt_entry s t i"
    and s': "s_initialized s'" "s_direct_map_established s'" "pframe_ok (pool s')" "pf_in_use (pool s) \<subseteq> pf_in_use (pool s')"
  shows "pt_inv r s'" and "translation r s' v = translation r s v" and "tables (pt_entry s') r = tables (pt_entry s) r"
proof -
  note I = pt_invD [OF inv]
  note tc = tables_cong [OF e]
  show tab: "tables (pt_entry s') r = tables (pt_entry s) r" by (rule tc(1))
  show "translation r s' v = translation r s v"
    unfolding translation_def by (rule walk_cong [OF e]) simp_all
  have root: "pt_entry s' r i = pt_entry s r i" if "i < 512" for i
    using e [of r i] that tables_node [of "[]" "pt_entry s" r] by simp
  have "pte_frame (pt_entry s' t i) = 0"
    if "path (p @ [i])" "node (pt_entry s') r p = Some t" "\<not> pte_present (pt_entry s' t i)" for p i t
  proof -
    have p: "path p" "i < 512" using that(1) by (simp_all add: path_snoc)
    have n: "node (pt_entry s) r p = Some t"
      using node_cong [OF e p(1)] that(2) by simp
    then have "pt_entry s' t i = pt_entry s t i"
      using e tables_node [OF p(1)] p(2) by blast
    then show ?thesis
      using I(8) [OF that(1) n] that(3) by simp
  qed
  moreover have "tables (pt_entry s') r \<subseteq> pf_in_use (pool s') - {0}"
    using I(5) tab s'(4) by auto
  moreover have "tree (pt_entry s') r" "0 \<in> pf_in_use (pool s')"
    using tc(2) I(4,6) s'(4) by auto
  moreover have "pte_present (pt_entry s' r i) \<longrightarrow> \<not> pte_pat (pt_entry s' r i)" if "i < 512" for i
    using I(7) [OF that] root [OF that] by simp
  ultimately show "pt_inv r s'"
    unfolding pt_inv_def using s'(1-3) by metis
qed

lemma overwrite_frame:
  assumes "is_page_aligned f" "is_page_aligned t" "t \<noteq> f" "i < 512"
  shows "mload 8 (overwrite (phys_to_virt f) 4096 g m) (phys_to_virt t + 8 * i) = mload 8 m (phys_to_virt t + 8 * i)"
proof (rule mload_cong)
  fix k :: nat
  assume "k < 8"
  then have "8 * unat i + k < 4096"
    using assms(4) by (simp add: index_nat)
  then have "4096 \<le> unat (phys_to_virt t + of_nat (8 * unat i + k) - phys_to_virt f)"
    using apart_byte [OF page_apart [OF assms(1,2)]] assms(3) by metis
  then show "overwrite (phys_to_virt f) 4096 g m (phys_to_virt t + 8 * i + of_nat k) = m (phys_to_virt t + 8 * i + of_nat k)"
    by (simp add: overwrite_def add.assoc)
qed

subsection \<open>Mapping a page\<close>

text \<open>What every step of the walk keeps.\<close>

definition step_ok :: "physical_addr \<Rightarrow> page_state \<Rightarrow> page_state \<Rightarrow> bool" where
  "step_ok r s s' \<longleftrightarrow> pt_inv r s' \<and> kept r s s' \<and> tlb_flushes s' = tlb_flushes s \<and>
     s_kernel_pml4 s' = s_kernel_pml4 s \<and> cr3 s' = cr3 s \<and> (\<forall>v. translation r s' v = translation r s v)"

lemma step_ok_refl: "pt_inv r s \<Longrightarrow> step_ok r s s"
  by (simp add: step_ok_def kept_refl)

lemma step_ok_trans: "step_ok r s s1 \<Longrightarrow> step_ok r s1 s2 \<Longrightarrow> step_ok r s s2"
  unfolding step_ok_def by (auto intro: kept_trans)

lemma walk_or_create_step:
  assumes "pt_inv r s" and "path (p @ [i])" and "node (pt_entry s) r p = Some t"
    and "pte_present (pt_entry s t i) \<Longrightarrow> \<not> pte_pat (pt_entry s t i)"
  obtains (fail) "walk_or_create t i al s = Some (if al then PAGE_ERR_OOM else PAGE_ERR_NOT_PRESENT, 0, s)"
      "\<not> pte_present (pt_entry s t i)"
  | (ok) t' s' where "walk_or_create t i al s = Some (PAGE_OK, t', s')" "step_ok r s s'"
      "node (pt_entry s') r (p @ [i]) = Some t'" "s' = s \<or> (\<forall>j < 512. pt_entry s' t' j = 0)"
  by (rule walk_or_create_ok [OF assms, of al])
    (auto simp: step_ok_def translation_def assms(1) kept_refl intro: fail ok)

text \<open>Setting the entry of the lowest level.\<close>

lemma set_pte_ok:
  fixes x :: u64
  assumes inv: "pt_inv r s" and t: "node (pt_entry s) r [PML4_INDEX v, PDPT_INDEX v, PD_INDEX v] = Some t"
  defines "s' \<equiv> page_invalidate_tlb v (set_entry t (PT_INDEX v) x s)"
  shows "pt_inv r s'" and "kept r s s'"
    and "translation r s' v' =
      (if idx v' = idx v then if pte_present x then Some (False, x) else None else translation r s v')"
proof -
  note I = pt_invD [OF inv]
  let ?p = "[PML4_INDEX v, PDPT_INDEX v, PD_INDEX v]"
  have p: "path ?p" by (simp add: path_def indices_def)
  have ta: "t \<in> tables (pt_entry s) r" "is_page_aligned t"
    using tables_node [OF p t] I(5) by auto
  have up: "updated t (PT_INDEX v) x (pt_entry s) (pt_entry s')"
    unfolding s'_def using set_entry_updated [OF ta(2) index_less(4)] by simp
  have lp: "length ?p = 3 \<or> \<not> has_table (pt_entry s t (PT_INDEX v)) \<and> \<not> has_table x" by simp
  note ut = updated_tree [OF I(4) p t index_less(4) lp up]
  show "translation r s' v' = (if idx v' = idx v then if pte_present x then Some (False, x) else None else translation r s v')"
  proof -
    have "take (Suc (length ?p)) (idx v') = ?p @ [PT_INDEX v] \<longleftrightarrow> idx v' = idx v"
      by (simp add: idx_def)
    then show ?thesis
      unfolding translation_def ut(3) [OF indices_idx] by simp
  qed
  have same: "pt_entry s' u j = pt_entry s u j" if "path (q @ [j])" "node (pt_entry s) r q = Some u" for q u j
  proof -
    have q: "path q" "length q \<le> 2" "j < 512" using that(1) by (simp_all add: path_snoc)
    have "u \<noteq> t" using treeD [OF I(4) q(1) p that(2)] t q(2) by auto
    moreover have "is_page_aligned u" using tables_node [OF q(1) that(2)] I(5) by auto
    ultimately show ?thesis using up q(3) by (auto simp: updated_def)
  qed
  have "pte_present (pt_entry s' r i) \<longrightarrow> \<not> pte_pat (pt_entry s' r i)" if "i < 512" for i
    using same [of "[]" i r] I(7) [OF that] that by (simp add: path_def indices_def)
  moreover have "pte_frame (pt_entry s' u j) = 0"
    if "path (q @ [j])" "node (pt_entry s') r q = Some u" "\<not> pte_present (pt_entry s' u j)" for q u j
    using updated_node [OF I(4) p t index_less(4) lp up, of q] same [OF that(1)] I(8) [OF that(1)] that
    by (simp add: path_snoc)
  moreover have "pool s' = pool s" "s_initialized s'" "s_direct_map_established s'"
    using I(1,2) by (simp_all add: s'_def)
  moreover have "tables (pt_entry s') r \<subseteq> pf_in_use (pool s) - {0}"
    using I(5) ut(2) by auto
  ultimately show "pt_inv r s'"
    unfolding pt_inv_def using I(3,6) ut(1) by metis
  have "dmem s' (phys_to_virt u + of_nat k) = dmem s (phys_to_virt u + of_nat k)"
    if "u \<in> pf_in_use (pool s)" "u \<notin> tables (pt_entry s) r" "k < 4096" for u k
    using set_entry_frame [OF ta(2) _ _ index_less(4) that(3)] in_use_frame(1) [OF I(3) that(1)] that(2) ta(1)
    by (auto simp: s'_def)
  moreover have "pool s' = pool s"
    by (simp add: s'_def)
  moreover have "tables (pt_entry s') r \<subseteq> pf_in_use (pool s)"
    using I(5) ut(2) by auto
  ultimately show "kept r s s'"
    unfolding kept_def ut(2) by auto
qed

text \<open>The walk down to the lowest table.\<close>

lemma map_walk:
  assumes inv: "pt_inv r s" and ng: "no_1gb r v s"
  obtains (fail1) "walk_or_create r (PML4_INDEX v) al s = Some (if al then PAGE_ERR_OOM else PAGE_ERR_NOT_PRESENT, 0, s)"
      "translation r s v = None"
  | (fail2) t3 s3 where "walk_or_create r (PML4_INDEX v) al s = Some (PAGE_OK, t3, s3)" "step_ok r s s3"
      "walk_or_create t3 (PDPT_INDEX v) al s3 = Some (if al then PAGE_ERR_OOM else PAGE_ERR_NOT_PRESENT, 0, s3)"
      "translation r s v = None"
  | (pd) t3 s3 t2 s2 where "walk_or_create r (PML4_INDEX v) al s = Some (PAGE_OK, t3, s3)"
      "walk_or_create t3 (PDPT_INDEX v) al s3 = Some (PAGE_OK, t2, s2)" "step_ok r s s2"
      "node (pt_entry s2) r [PML4_INDEX v, PDPT_INDEX v] = Some t2"
proof -
  let ?a = "PML4_INDEX v" and ?b = "PDPT_INDEX v"
  have p1: "path ([] @ [?a])" "path ([?a] @ [?b])" by (simp_all add: path_def indices_def)
  show thesis
  proof (rule walk_or_create_step [OF inv p1(1), of r al])
    show "node (pt_entry s) r [] = Some r" by simp
    show "pte_present (pt_entry s r ?a) \<Longrightarrow> \<not> pte_pat (pt_entry s r ?a)"
      using pt_invD(7) [OF inv] by simp
    show thesis if "walk_or_create r ?a al s = Some (if al then PAGE_ERR_OOM else PAGE_ERR_NOT_PRESENT, 0, s)"
        "\<not> pte_present (pt_entry s r ?a)"
      using that by (intro fail1) (simp_all add: translation_def idx_def)
    fix t3 s3
    assume w3: "walk_or_create r ?a al s = Some (PAGE_OK, t3, s3)" "step_ok r s s3"
      and n3: "node (pt_entry s3) r ([] @ [?a]) = Some t3" "s3 = s \<or> (\<forall>j < 512. pt_entry s3 t3 j = 0)"
    have inv3: "pt_inv r s3" using w3(2) by (simp add: step_ok_def)
    have n3': "node (pt_entry s3) r [?a] = Some t3" using n3(1) by simp
    show thesis
    proof (rule walk_or_create_step [OF inv3 p1(2) n3', of al])
      show "\<not> pte_pat (pt_entry s3 t3 ?b)" if "pte_present (pt_entry s3 t3 ?b)"
        using n3(2) ng n3' that no_table_0 by (auto simp: no_1gb_def)
      show thesis if f: "walk_or_create t3 ?b al s3 = Some (if al then PAGE_ERR_OOM else PAGE_ERR_NOT_PRESENT, 0, s3)"
          "\<not> pte_present (pt_entry s3 t3 ?b)"
      proof (rule fail2 [OF w3 f(1)])
        have "translation r s3 v = None"
          using f(2) walk_append [OF n3', of "tl (idx v)"] by (simp add: translation_def idx_def)
        then show "translation r s v = None" using w3(2) by (simp add: step_ok_def)
      qed
      fix t2 s2
      assume w2: "walk_or_create t3 ?b al s3 = Some (PAGE_OK, t2, s2)" "step_ok r s3 s2"
        "node (pt_entry s2) r ([?a] @ [?b]) = Some t2"
      then show thesis
        using pd [OF w3(1) w2(1) step_ok_trans [OF w3(2) w2(2)]] by simp
    qed
  qed
qed

text \<open>The result of a mapping that fails.\<close>

definition map_error :: "bool \<Rightarrow> (bool \<times> u64) option \<Rightarrow> page_result" where
  "map_error al w = (case w of None \<Rightarrow> if al then PAGE_ERR_OOM else PAGE_ERR_NOT_PRESENT
     | Some (h, _) \<Rightarrow> if h then PAGE_ERR_INVALID else PAGE_ERR_ALREADY_MAPPED)"

lemma page_map_page_ok:
  assumes inv: "pt_inv r s" and ng: "no_1gb r v s" and v: "is_page_aligned v" and p: "frame_addr_ok p"
    and fl: "flags AND VMAP_FLAG_HUGE_2MB = 0" "flags AND VMAP_FLAG_HUGE_1GB = 0"
  obtains (error) s' where "page_map_page r v p flags al s = Some (map_error al (translation r s v), s')" "step_ok r s s'"
  | (ok) s' where "page_map_page r v p flags al s = Some (PAGE_OK, s')" "pt_inv r s'" "kept r s s'"
      "translation r s v = None" "tlb_flushes s' = v # tlb_flushes s"
      "\<And>v'. translation r s' v' = (if idx v' = idx v then Some (False, (p AND PTE_ADDR_MASK) OR vmap_flags_to_pte flags)
        else translation r s v')"
      "s_kernel_pml4 s' = s_kernel_pml4 s" "cr3 s' = cr3 s"
proof -
  note I = pt_invD [OF inv]
  let ?a = "PML4_INDEX v" and ?b = "PDPT_INDEX v" and ?c = "PD_INDEX v" and ?d = "PT_INDEX v"
  let ?x = "(p AND PTE_ADDR_MASK) OR vmap_flags_to_pte flags"
  have al4: "v AND (PAGE_SIZE - 1) = 0" "p AND (PAGE_SIZE - 1) = 0"
    using v frame_addr_ok_aligned [OF p] by (simp_all add: PAGE_SIZE_def is_page_aligned_def)
  note map = page_map_page_def I(1,2) fl al4
  show thesis
  proof (rule map_walk [OF inv ng, of al])
    assume "walk_or_create r ?a al s = Some (if al then PAGE_ERR_OOM else PAGE_ERR_NOT_PRESENT, 0, s)" "translation r s v = None"
    then show thesis
      using step_ok_refl [OF inv] by (intro error [of s]) (simp_all add: map map_error_def)
  next
    fix t3 s3
    assume "walk_or_create r ?a al s = Some (PAGE_OK, t3, s3)" "step_ok r s s3" "translation r s v = None"
      "walk_or_create t3 ?b al s3 = Some (if al then PAGE_ERR_OOM else PAGE_ERR_NOT_PRESENT, 0, s3)"
    then show thesis
      by (intro error [of s3]) (simp_all add: map map_error_def)
  next
    fix t3 s3 t2 s2
    assume w: "walk_or_create r ?a al s = Some (PAGE_OK, t3, s3)" "walk_or_create t3 ?b al s3 = Some (PAGE_OK, t2, s2)"
      and st: "step_ok r s s2" and n2: "node (pt_entry s2) r [?a, ?b] = Some t2"
    have inv2: "pt_inv r s2" and tr2: "translation r s2 v' = translation r s v'" for v'
      using st by (simp_all add: step_ok_def)
    have walk2: "translation r s2 v = walk (pt_entry s2) t2 [?c, ?d]"
      using walk_append [OF n2, of "[?c, ?d]"] by (simp add: translation_def idx_def)
    show thesis
    proof (cases "pte_present (pt_entry s2 t2 ?c) \<and> pte_pat (pt_entry s2 t2 ?c)")
      case True
      then show thesis
        using w st walk2 tr2 [of v] by (intro error [of s2]) (simp_all add: map map_error_def)
    next
      case False
      have pth: "path ([?a, ?b] @ [?c])" by (simp add: path_def indices_def)
      show thesis
      proof (rule walk_or_create_step [OF inv2 pth n2, of al])
        show "pte_present (pt_entry s2 t2 ?c) \<Longrightarrow> \<not> pte_pat (pt_entry s2 t2 ?c)" using False by simp
        show thesis if "walk_or_create t2 ?c al s2 = Some (if al then PAGE_ERR_OOM else PAGE_ERR_NOT_PRESENT, 0, s2)"
            "\<not> pte_present (pt_entry s2 t2 ?c)"
          using that w st walk2 tr2 [of v] by (intro error [of s2]) (simp_all add: map map_error_def)
        fix t1 s1
        assume w1: "walk_or_create t2 ?c al s2 = Some (PAGE_OK, t1, s1)" "step_ok r s2 s1"
          and n1: "node (pt_entry s1) r ([?a, ?b] @ [?c]) = Some t1"
        have st1: "step_ok r s s1" using step_ok_trans [OF st w1(2)] .
        then have inv1: "pt_inv r s1" and tr1: "translation r s1 v' = translation r s v'" for v'
          by (simp_all add: step_ok_def)
        have n1': "node (pt_entry s1) r [?a, ?b, ?c] = Some t1" using n1 by simp
        have walk1: "translation r s1 v = walk (pt_entry s1) t1 [?d]"
          using walk_append [OF n1', of "[?d]"] by (simp add: translation_def idx_def)
        show thesis
        proof (cases "pte_present (pt_entry s1 t1 ?d)")
          case True
          then show thesis
            using w w1 st1 False walk1 tr1 [of v] by (intro error [of s1]) (auto simp: map map_error_def)
        next
          case ne: False
          have x: "pte_present ?x" using vmap_flags_ok(2) by (simp add: present_make)
          note set = set_pte_ok [OF inv1 n1', of ?x]
          show thesis
            using w w1 False ne walk1 tr1 set(1) kept_trans [OF _ set(2), of s] st1 x
            by (intro ok [of "page_invalidate_tlb v (set_entry t1 ?d ?x s1)"])
              (auto simp: map set(3) step_ok_def)
        qed
      qed
    qed
  qed
qed

end
