(* ===== verification/Page_Main.thy ===== *)
theory Page_Main
  imports Page_Props
begin

text \<open>
  The properties of the page table operations: mapping, unmapping, ranges with their rollback, and the
  behaviour on huge pages.
\<close>

subsection \<open>Unmapping a page\<close>

lemma page_unmap_page_ok:
  assumes inv: "pt_inv r s" and v: "is_page_aligned v" and nh: "\<And>x. translation r s v \<noteq> Some (True, x)"
  obtains "translation r s v = None" "page_unmap_page r v ft s = Some (PAGE_ERR_NOT_MAPPED, s)"
  | x s' where "translation r s v = Some (False, x)" "page_unmap_page r v ft s = Some (PAGE_OK, s')" "pt_inv r s'" "kept r s s'"
      "tlb_flushes s' = v # tlb_flushes s" "\<And>v'. translation r s' v' = (if idx v' = idx v then None else translation r s v')"
proof -
  note I = pt_invD [OF inv]
  let ?a = "PML4_INDEX v" and ?b = "PDPT_INDEX v" and ?c = "PD_INDEX v" and ?d = "PT_INDEX v"
  define x4 where "x4 = pt_entry s r ?a"
  define x3 where "x3 = pt_entry s (pte_phys x4) ?b"
  define x2 where "x2 = pt_entry s (pte_phys x3) ?c"
  define x1 where "x1 = pt_entry s (pte_phys x2) ?d"
  have v0: "v AND (PAGE_SIZE - 1) = 0"
    using v by (simp add: PAGE_SIZE_def is_page_aligned_def)
  have tr: "translation r s v = (if \<not> pte_present x4 then None else if \<not> pte_present x3 then None
      else if pte_pat x3 then Some (True, x3) else if \<not> pte_present x2 then None
      else if pte_pat x2 then Some (True, x2) else if \<not> pte_present x1 then None else Some (False, x1))"
    using I(7) [OF index_less(1)] by (auto simp: translation_def idx_def x4_def x3_def x2_def x1_def)
  have um: "page_unmap_page r v ft s = (if \<not> (pte_present x4 \<and> pte_present x3 \<and> pte_present x2 \<and> pte_present x1)
      then Some (PAGE_ERR_NOT_MAPPED, s)
      else Some (PAGE_OK, page_invalidate_tlb v (set_entry (pte_phys x2) ?d 0 s)))"
    using I(1,2) v0 by (auto simp: page_unmap_page_def x4_def x3_def x2_def x1_def Let_def)
  show thesis
  proof (cases "pte_present x4 \<and> pte_present x3 \<and> pte_present x2 \<and> pte_present x1")
    case True
    then have np: "\<not> pte_pat x3" "\<not> pte_pat x2"
      using nh [of x3] nh [of x2] by (auto simp: tr split: if_splits)
    have n: "node (pt_entry s) r [?a, ?b, ?c] = Some (pte_phys x2)"
      using True np I(7) [OF index_less(1)] by (simp add: x4_def x3_def x2_def)
    note set = set_pte_ok [OF inv n, of 0]
    show thesis
      using True np um set no_table_0 by (intro that(2) [of x1 "page_invalidate_tlb v (set_entry (pte_phys x2) ?d 0 s)"]) (simp_all add: tr)
  next
    case False
    then have "translation r s v = None"
      using nh [of x3] nh [of x2] by (auto simp: tr split: if_splits)
    then show thesis
      using False um by (intro that(1)) simp_all
  qed
qed

lemma no_huge_no_1gb:
  assumes "pt_inv r s" "\<And>x. translation r s v \<noteq> Some (True, x)"
  shows "no_1gb r v s"
  using assms(2) [of "pt_entry s (pte_phys (pt_entry s r (PML4_INDEX v))) (PDPT_INDEX v)"]
    pt_invD(7) [OF assms(1) index_less(1), of v]
  by (auto simp: no_1gb_def translation_def idx_def split: if_splits option.splits)

subsection \<open>Properties of a single page\<close>

text \<open>An address space with an empty root table at 0x1000, for the witnesses; frame 0 is reserved.\<close>

definition demo_pages :: "page_state" where
  "demo_pages = \<lparr>s_kernel_pml4 = 0x1000, s_initialized = True, s_direct_map_established = True,
     pool = small_pool 3, dmem = (\<lambda>_. 0), cr3 = 0x1000, tlb_flushes = []\<rparr>"

lemma demo_entry: "pt_entry demo_pages t i = 0"
  by (simp add: pt_entry_def demo_pages_def mload_zero)

lemma demo_node: "node (pt_entry demo_pages) r p = Some t \<longleftrightarrow> p = [] \<and> t = r"
  by (cases p) (auto simp: demo_entry no_table_0)

lemma bits_of_3: "bit (3 :: u8) k \<longleftrightarrow> k = 0 \<or> k = 1"
proof -
  have "(3 :: u8) = 2 ^ 0 OR 2 ^ 1"
    by simp
  then show ?thesis
    by (simp only: bit_or_iff bit_exp_iff) auto
qed

lemma demo_inv: "pt_inv 0x1000 demo_pages"
proof -
  have f: "frame_addr 0 = 0" "frame_addr (Suc 0) = 0x1000"
    by (simp_all add: frame_addr_def frame_to_addr_def)
  have "bm_bit \<lparr>bm_bits = [3], bm_nbits = 8\<rparr> i \<longleftrightarrow> i = 0 \<or> i = 1" if "i < 8" for i
  proof -
    have "bm_bit \<lparr>bm_bits = [3], bm_nbits = 8\<rparr> i \<longleftrightarrow> bit (3 :: u8) i"
      using that by (simp add: bm_bit_def)
    then show ?thesis
      unfolding bits_of_3 .
  qed
  then have "allocated (small_pool 3) = {0, 1}"
    by (auto simp: allocated_def small_pool_def bm_members_def bm_size_def)
  then have "pf_in_use (small_pool 3) = {0, 0x1000}"
    by (simp add: pf_in_use_def f)
  moreover have "tables (pt_entry demo_pages) 0x1000 = {0x1000}"
    by (auto simp: tables_def demo_node)
  moreover have "tree (pt_entry demo_pages) 0x1000"
    unfolding tree_def calculation by (auto simp: demo_node is_page_aligned_def)
  moreover have "pool demo_pages = small_pool 3" "s_initialized demo_pages" "s_direct_map_established demo_pages"
    by (simp_all add: demo_pages_def)
  ultimately show ?thesis
    unfolding pt_inv_def demo_entry by (simp add: small_pool_ok no_table_0 pte_frame_def)
qed

lemma demo_translation: "translation r demo_pages v = None"
  by (simp add: translation_def idx_def demo_entry no_table_0)





subsection \<open>Ranges\<close>

text \<open>The addresses of up to \<open>2 ^ 36\<close> consecutive pages have different indices.\<close>

lemma bit_indices:
  assumes "idx v = idx w" "12 \<le> k" "k < 48"
  shows "bit v k \<longleftrightarrow> bit w k"
proof -
  have m: "(0x1FF :: u64) = mask 9"
    by (simp add: mask_eq_exp_minus_1)
  have b: "bit (drop_bit n x AND 0x1FF) j \<longleftrightarrow> j < 9 \<and> bit x (n + j)" for n j and x :: u64
    unfolding m by (auto simp: bit_simps)
  have e: "drop_bit n v AND 0x1FF = drop_bit n w AND 0x1FF" if "n \<in> {39, 30, 21, 12}" for n
    using assms(1) that by (auto simp: idx_def PML4_INDEX_def PDPT_INDEX_def PD_INDEX_def PT_INDEX_def)
  have "\<exists>n \<in> {39, 30, 21, 12 :: nat}. n \<le> k \<and> k < n + 9"
    using assms(2,3) by auto
  then obtain n where n: "n \<in> {39, 30, 21, 12}" "n \<le> k" "k < n + 9" by blast
  then have "k - n < 9" "n + (k - n) = k" by auto
  then show ?thesis
    using arg_cong [OF e [OF n(1)], of "\<lambda>x. bit x (k - n)"] b by simp
qed

lemma idx_page_number:
  assumes "idx v = idx w"
  shows "(unat v div 4096) mod 2 ^ 36 = (unat w div 4096) mod 2 ^ 36"
proof -
  have "take_bit 36 (drop_bit 12 v) = take_bit 36 (drop_bit 12 w)"
    using bit_indices [OF assms] by (intro bit_eqI) (auto simp: bit_simps)
  then have "unat (take_bit 36 (drop_bit 12 v)) = unat (take_bit 36 (drop_bit 12 w))" by simp
  then show ?thesis
    by (simp only: unsigned_take_bit_eq take_bit_eq_mod [where 'a = nat] unat_drop_bit) simp
qed

definition nth_page :: "virtual_addr \<Rightarrow> nat \<Rightarrow> virtual_addr" where
  "nth_page v j = v + of_nat j * PAGE_SIZE"

lemma nth_page_number:
  assumes "is_page_aligned v" "j < 2 ^ 36"
  shows "(unat (nth_page v j) div 4096) mod 2 ^ 36 = (unat v div 4096 + j) mod 2 ^ 36"
    and "is_page_aligned (nth_page v j)"
proof -
  obtain f where f: "unat v = 4096 * f"
    using assms(1) by (auto simp: aligned_dvd)
  have c: "unat (of_nat j * PAGE_SIZE) = 4096 * j"
    using assms(2) by (simp add: PAGE_SIZE_def unat_word_ariths unat_of_nat_small)
  have "(2 :: nat) ^ 64 = 4096 * 2 ^ 52" by simp
  then have "unat (nth_page v j) = (4096 * (f + j)) mod (4096 * 2 ^ 52)"
    unfolding nth_page_def unat_word_ariths(1) f c by (simp add: distrib_left)
  also have "\<dots> = 4096 * ((f + j) mod 2 ^ 52)"
    by (rule mult_mod_right [symmetric])
  finally have u: "unat (nth_page v j) = 4096 * ((f + j) mod 2 ^ 52)" .
  then show "is_page_aligned (nth_page v j)"
    by (simp add: aligned_dvd)
  have d: "4096 * x div 4096 = x" for x :: nat by simp
  have "(2 :: nat) ^ 36 dvd 2 ^ 52" by (rule le_imp_power_dvd) simp
  then show "(unat (nth_page v j) div 4096) mod 2 ^ 36 = (unat v div 4096 + j) mod 2 ^ 36"
    unfolding u f d by (rule mod_mod_cancel)
qed

lemma nth_page_inj:
  assumes "is_page_aligned v" "j < 2 ^ 36" "k < 2 ^ 36" "idx (nth_page v j) = idx (nth_page v k)"
  shows "j = k"
proof -
  have "(unat v div 4096 + j) mod 2 ^ 36 = (unat v div 4096 + k) mod 2 ^ 36"
    using idx_page_number [OF assms(4)] nth_page_number(1) [OF assms(1)] assms(2,3) by simp
  then have "j mod 2 ^ 36 = k mod 2 ^ 36"
    unfolding nat_mod_eq_iff by (simp add: add.assoc)
  then show ?thesis using assms(2,3) by simp
qed

definition in_range :: "virtual_addr \<Rightarrow> nat \<Rightarrow> virtual_addr \<Rightarrow> bool" where
  "in_range v n v' \<longleftrightarrow> (\<exists>j < n. idx v' = idx (nth_page v j))"

lemma in_range_Suc: "in_range v (Suc n) v' \<longleftrightarrow> in_range v n v' \<or> idx v' = idx (nth_page v n)"
  by (auto simp: in_range_def less_Suc_eq)

lemma unmap_range_loop:
  assumes "pt_inv r s" "is_page_aligned v" "n \<le> 2 ^ 36" "\<And>j x. j < n \<Longrightarrow> translation r s (nth_page v j) \<noteq> Some (True, x)"
  shows "\<exists>s'. fold_opt (\<lambda>i s. map_option snd (page_unmap_page r (v + of_nat i * PAGE_SIZE) False s)) [0..<n] s = Some s' \<and>
    pt_inv r s' \<and> kept r s s' \<and>
    (\<forall>v'. translation r s' v' = (if in_range v n v' then None else translation r s v'))"
  using assms(3,4)
proof (induction n)
  case 0
  then show ?case
    using assms(1) by (auto simp: in_range_def kept_refl)
next
  case (Suc n)
  let ?v = "nth_page v n"
  obtain s1 where s1: "fold_opt (\<lambda>i s. map_option snd (page_unmap_page r (v + of_nat i * PAGE_SIZE) False s)) [0..<n] s = Some s1"
      "pt_inv r s1" "kept r s s1" and t1: "\<And>v'. translation r s1 v' = (if in_range v n v' then None else translation r s v')"
    using Suc.IH Suc.prems by auto
  have nh: "translation r s1 ?v \<noteq> Some (True, x)" for x
    using Suc.prems(2) [of n x] t1 [of ?v] by (auto split: if_splits)
  have al: "is_page_aligned ?v"
    using nth_page_number(2) [OF assms(2)] Suc.prems(1) by simp
  have "\<exists>s2. map_option snd (page_unmap_page r ?v False s1) = Some s2 \<and> pt_inv r s2 \<and> kept r s1 s2 \<and>
      (\<forall>v'. translation r s2 v' = (if idx v' = idx ?v then None else translation r s1 v'))"
  proof (rule page_unmap_page_ok [OF s1(2) al nh, of False])
    assume a: "translation r s1 ?v = None" "page_unmap_page r ?v False s1 = Some (PAGE_ERR_NOT_MAPPED, s1)"
    have "translation r s1 v' = None" if "idx v' = idx ?v" for v'
      using a(1) that by (simp add: translation_def)
    then show ?thesis
      using a(2) s1(2) kept_refl by auto
  qed auto
  then obtain s2 where "map_option snd (page_unmap_page r ?v False s1) = Some s2" "pt_inv r s2" "kept r s1 s2"
      "\<And>v'. translation r s2 v' = (if idx v' = idx ?v then None else translation r s1 v')"
    by blast
  then show ?case
    using s1(1) t1 kept_trans [OF s1(3)]
    by (auto simp: fold_opt_append nth_page_def [symmetric] in_range_Suc split: option.splits)
qed

lemma page_unmap_range_ok:
  assumes "pt_inv r s" "is_page_aligned v" "unat n \<le> 2 ^ 36"
    "\<And>j x. j < unat n \<Longrightarrow> translation r s (nth_page v j) \<noteq> Some (True, x)"
  obtains s' where "page_unmap_range r v n s = Some (PAGE_OK, s')" "pt_inv r s'" "kept r s s'"
    "\<And>v'. translation r s' v' = (if in_range v (unat n) v' then None else translation r s v')"
  using unmap_range_loop [OF assms] pt_invD(1) [OF assms(1)] by (auto simp: page_unmap_range_def)

text \<open>The state after \<open>i\<close> pages of the range were mapped.\<close>

definition range_mapped ::
  "physical_addr \<Rightarrow> virtual_addr \<Rightarrow> physical_addr \<Rightarrow> u64 \<Rightarrow> page_state \<Rightarrow> nat \<Rightarrow> page_state \<Rightarrow> bool" where
  "range_mapped r v p flags s0 i s \<longleftrightarrow> pt_inv r s \<and> kept r s0 s \<and>
     (\<forall>j < i. translation r s0 (nth_page v j) = None \<and>
       translation r s (nth_page v j) = Some (False, (nth_page p j AND PTE_ADDR_MASK) OR vmap_flags_to_pte flags)) \<and>
     (\<forall>v'. \<not> in_range v i v' \<longrightarrow> translation r s v' = translation r s0 v')"

lemma range_mapped_undo:
  assumes m: "range_mapped r v p flags s0 i s" and v: "is_page_aligned v" "i \<le> 2 ^ 36"
  obtains s' where "page_unmap_range r v (of_nat i) s = Some (PAGE_OK, s')" "pt_inv r s'" "kept r s0 s'"
    "\<And>v'. translation r s' v' = translation r s0 v'"
proof -
  have i: "unat (of_nat i :: u64) = i"
    using v(2) by (intro unat_of_nat_small) simp
  have inv: "pt_inv r s" using m by (simp add: range_mapped_def)
  show thesis
  proof (rule page_unmap_range_ok [OF inv v(1), of "of_nat i"])
    show "unat (of_nat i :: u64) \<le> 2 ^ 36" using i v(2) by simp
    show "translation r s (nth_page v j) \<noteq> Some (True, x)" if "j < unat (of_nat i :: u64)" for j x
      using m that by (simp add: range_mapped_def i)
    fix s'
    assume a: "page_unmap_range r v (of_nat i) s = Some (PAGE_OK, s')" "pt_inv r s'" "kept r s s'"
      and t: "\<And>v'. translation r s' v' = (if in_range v (unat (of_nat i :: u64)) v' then None else translation r s v')"
    have "translation r s' v' = translation r s0 v'" for v'
    proof (cases "in_range v i v'")
      case True
      then obtain j where "j < i" "idx v' = idx (nth_page v j)" by (auto simp: in_range_def)
      then have "translation r s0 v' = None"
        using m by (auto simp: range_mapped_def translation_def)
      then show ?thesis using True t i by simp
    next
      case False
      then show ?thesis using t [of v'] m by (simp add: i range_mapped_def)
    qed
    then show thesis
      using that a m kept_trans by (auto simp: range_mapped_def)
  qed
qed

lemma map_range_loop_ok:
  assumes v: "is_page_aligned v" "n \<le> 2 ^ 36" and p: "\<And>j. j < n \<Longrightarrow> frame_addr_ok (nth_page p j)"
    and fl: "flags AND VMAP_FLAG_HUGE_2MB = 0" "flags AND VMAP_FLAG_HUGE_1GB = 0"
    and nh: "\<And>j x. j < n \<Longrightarrow> translation r s0 (nth_page v j) \<noteq> Some (True, x)"
    and "range_mapped r v p flags s0 i s" "i \<le> n"
  shows "\<exists>res s'. map_range_loop r v p flags [i..<n] s = Some (res, s') \<and>
    (if res = PAGE_OK then range_mapped r v p flags s0 n s'
     else pt_inv r s' \<and> kept r s0 s' \<and> (\<forall>v'. translation r s' v' = translation r s0 v'))"
  using assms(7,8)
proof (induction "n - i" arbitrary: i s)
  case 0
  then show ?case by auto
next
  case (Suc k)
  then have i: "i < n" by simp
  let ?v = "nth_page v i"
  have inv: "pt_inv r s" using Suc.prems(1) by (simp add: range_mapped_def)
  have other: "idx ?v \<noteq> idx (nth_page v j)" if "j < i" for j
    using nth_page_inj [OF v(1), of i j] that i v(2) by auto
  then have out: "\<not> in_range v i ?v" by (auto simp: in_range_def)
  then have nh': "translation r s ?v \<noteq> Some (True, x)" for x
    using Suc.prems(1) nh [OF i] by (simp add: range_mapped_def)
  have al: "is_page_aligned ?v"
    using nth_page_number(2) [OF v(1)] i v(2) by simp
  have upt: "[i..<n] = i # [Suc i..<n]" using i by (rule upt_conv_Cons)
  show ?case
  proof (rule page_map_page_ok [OF inv no_huge_no_1gb [OF inv nh'] al p [OF i] fl, of True])
    fix s1
    assume m: "page_map_page r ?v (nth_page p i) flags True s = Some (map_error True (translation r s ?v), s1)"
      and st: "step_ok r s s1"
    have ne: "map_error True w \<noteq> PAGE_OK" for w
      by (auto simp: map_error_def split: option.splits)
    have rm: "range_mapped r v p flags s0 i s1"
      using Suc.prems(1) st kept_trans [of r s0 s s1] by (auto simp: range_mapped_def step_ok_def)
    have le: "i \<le> 2 ^ 36" using i v(2) by simp
    have "\<exists>s2. page_unmap_range r v (of_nat i) s1 = Some (PAGE_OK, s2) \<and> pt_inv r s2 \<and> kept r s0 s2 \<and>
        (\<forall>v'. translation r s2 v' = translation r s0 v')"
      by (rule range_mapped_undo [OF rm v(1) le]) blast
    then obtain s2 where "page_unmap_range r v (of_nat i) s1 = Some (PAGE_OK, s2)" "pt_inv r s2" "kept r s0 s2"
        "\<And>v'. translation r s2 v' = translation r s0 v'"
      by blast
    then show ?thesis
      using m ne by (auto simp: upt nth_page_def)
  next
    fix s1
    assume m: "page_map_page r ?v (nth_page p i) flags True s = Some (PAGE_OK, s1)" and inv1: "pt_inv r s1" "kept r s s1"
      and tn: "translation r s ?v = None"
      and t: "\<And>v'. translation r s1 v' = (if idx v' = idx ?v
        then Some (False, (nth_page p i AND PTE_ADDR_MASK) OR vmap_flags_to_pte flags) else translation r s v')"
    have "range_mapped r v p flags s0 (Suc i) s1"
      unfolding range_mapped_def
    proof (intro conjI allI impI)
      fix j assume j: "j < Suc i"
      show "translation r s0 (nth_page v j) = None"
        using Suc.prems(1) j tn out by (cases "j = i") (auto simp: range_mapped_def)
      show "translation r s1 (nth_page v j) = Some (False, (nth_page p j AND PTE_ADDR_MASK) OR vmap_flags_to_pte flags)"
        using Suc.prems(1) j t [of "nth_page v j"] other [of j] by (cases "j = i") (auto simp: range_mapped_def)
    next
      fix v' assume "\<not> in_range v (Suc i) v'"
      then show "translation r s1 v' = translation r s0 v'"
        using Suc.prems(1) t [of v'] by (auto simp: range_mapped_def in_range_Suc)
    qed (use inv1 Suc.prems(1) kept_trans [of r s0 s s1] in \<open>auto simp: range_mapped_def\<close>)
    then show ?thesis
      using Suc.hyps(1) [of "Suc i" s1] Suc.hyps(2) i m by (auto simp: upt nth_page_def)
  qed
qed



end
