(* ===== verification/Atomic.thy ===== *)
theory Atomic
  imports CCOS_Prelude
begin

text \<open>
  Atomic integers (\<open>kernel/sync/atomic.c\<close>). An \<open>atomic_t\<close> is its counter, a 32-bit integer; the built-in
  operations wrap around and are sequentially consistent, so each is one transition on the counter. The
  operations return their result and the new counter. \<open>atomic_test_and_set_bit\<close> and
  \<open>atomic_test_and_clear_bit\<close> consist of two transitions, a read and a compare-and-swap; the argument
  \<open>between\<close> is what other processors do to the counter between them. A shift by a negative amount or by 32
  or more is undefined and stops the model.
\<close>

type_synonym atomic = u32

definition atomic_read :: "atomic \<Rightarrow> u32" where "atomic_read a = a"
definition atomic_write :: "u32 \<Rightarrow> atomic \<Rightarrow> atomic" where "atomic_write i a = i"
definition atomic_inc :: "atomic \<Rightarrow> atomic" where "atomic_inc a = a + 1"
definition atomic_dec :: "atomic \<Rightarrow> atomic" where "atomic_dec a = a - 1"
definition atomic_add :: "u32 \<Rightarrow> atomic \<Rightarrow> atomic" where "atomic_add i a = a + i"
definition atomic_sub :: "u32 \<Rightarrow> atomic \<Rightarrow> atomic" where "atomic_sub i a = a - i"

definition atomic_inc_return :: "atomic \<Rightarrow> u32 \<times> atomic" where "atomic_inc_return a = (a + 1, a + 1)"
definition atomic_dec_return :: "atomic \<Rightarrow> u32 \<times> atomic" where "atomic_dec_return a = (a - 1, a - 1)"
definition atomic_add_return :: "u32 \<Rightarrow> atomic \<Rightarrow> u32 \<times> atomic" where "atomic_add_return i a = (a + i, a + i)"
definition atomic_sub_return :: "u32 \<Rightarrow> atomic \<Rightarrow> u32 \<times> atomic" where "atomic_sub_return i a = (a - i, a - i)"

definition atomic_dec_and_test :: "atomic \<Rightarrow> bool \<times> atomic" where "atomic_dec_and_test a = (a - 1 = 0, a - 1)"
definition atomic_inc_and_test :: "atomic \<Rightarrow> bool \<times> atomic" where "atomic_inc_and_test a = (a + 1 = 0, a + 1)"
definition atomic_sub_and_test :: "u32 \<Rightarrow> atomic \<Rightarrow> bool \<times> atomic" where "atomic_sub_and_test i a = (a - i = 0, a - i)"

definition atomic_compare_and_swap :: "u32 \<Rightarrow> u32 \<Rightarrow> atomic \<Rightarrow> bool \<times> atomic" where
  "atomic_compare_and_swap old_val new_val a = (if a = old_val then (True, new_val) else (False, a))"

text \<open>On failure the current value is stored through the pointer \<open>old_val\<close>, the second result.\<close>

definition atomic_compare_exchange :: "u32 \<Rightarrow> u32 \<Rightarrow> atomic \<Rightarrow> bool \<times> u32 \<times> atomic" where
  "atomic_compare_exchange old_val new_val a = (if a = old_val then (True, old_val, new_val) else (False, a, a))"

definition atomic_xchg :: "u32 \<Rightarrow> atomic \<Rightarrow> u32 \<times> atomic" where "atomic_xchg new_val a = (a, new_val)"

definition atomic_fetch_inc :: "atomic \<Rightarrow> u32 \<times> atomic" where "atomic_fetch_inc a = (a, a + 1)"
definition atomic_fetch_dec :: "atomic \<Rightarrow> u32 \<times> atomic" where "atomic_fetch_dec a = (a, a - 1)"
definition atomic_fetch_add :: "u32 \<Rightarrow> atomic \<Rightarrow> u32 \<times> atomic" where "atomic_fetch_add i a = (a, a + i)"
definition atomic_fetch_sub :: "u32 \<Rightarrow> atomic \<Rightarrow> u32 \<times> atomic" where "atomic_fetch_sub i a = (a, a - i)"

definition atomic_or :: "u32 \<Rightarrow> atomic \<Rightarrow> atomic" where "atomic_or m a = a OR m"
definition atomic_and :: "u32 \<Rightarrow> atomic \<Rightarrow> atomic" where "atomic_and m a = a AND m"
definition atomic_xor :: "u32 \<Rightarrow> atomic \<Rightarrow> atomic" where "atomic_xor m a = a XOR m"

definition int_bit :: "nat \<Rightarrow> u32 option" where
  "int_bit nr = (if nr < 32 then Some (push_bit nr 1) else None)"

definition atomic_set_bit :: "nat \<Rightarrow> atomic \<Rightarrow> atomic option" where
  "atomic_set_bit nr a = do { b \<leftarrow> int_bit nr; Some (atomic_or b a) }"

definition atomic_clear_bit :: "nat \<Rightarrow> atomic \<Rightarrow> atomic option" where
  "atomic_clear_bit nr a = do { b \<leftarrow> int_bit nr; Some (atomic_and (NOT b) a) }"

definition atomic_test_and_set_bit :: "(atomic \<Rightarrow> atomic) \<Rightarrow> nat \<Rightarrow> atomic \<Rightarrow> (bool \<times> atomic) option" where
  "atomic_test_and_set_bit between nr a = do {
     b \<leftarrow> int_bit nr;
     let old_val = atomic_read a;
     let new_val = old_val OR b;
     let (ok, a) = atomic_compare_and_swap old_val new_val (between a);
     Some (\<not> ok, a)
   }"

definition atomic_test_and_clear_bit :: "(atomic \<Rightarrow> atomic) \<Rightarrow> nat \<Rightarrow> atomic \<Rightarrow> (bool \<times> atomic) option" where
  "atomic_test_and_clear_bit between nr a = do {
     b \<leftarrow> int_bit nr;
     let old_val = atomic_read a;
     let new_val = old_val AND NOT b;
     let (ok, a) = atomic_compare_and_swap old_val new_val (between a);
     Some (\<not> ok, a)
   }"

subsection \<open>Counting\<close>

text \<open>
  Reference counts read as naturals: below the bounds of the type, increment and decrement count, and the
  test of \<open>atomic_dec_and_test\<close> is true exactly for the last reference.
\<close>

lemma atomic_inc_count: "unat a < 2 ^ 32 - 1 \<Longrightarrow> unat (atomic_inc a) = unat a + 1"
  by (simp add: atomic_inc_def unat_add_small)

lemma atomic_dec_count:
  assumes "0 < unat a"
  shows "unat (snd (atomic_dec_and_test a)) = unat a - 1" "fst (atomic_dec_and_test a) \<longleftrightarrow> unat a = 1"
proof -
  have u: "unat (a - 1) = unat a - 1"
    using assms by (intro unat_minus_one) (auto simp: unat_gt_0)
  then show "unat (snd (atomic_dec_and_test a)) = unat a - 1"
    by (simp add: atomic_dec_and_test_def)
  have "a - 1 = 0 \<longleftrightarrow> unat (a - 1) = 0"
    by (simp add: unat_eq_0)
  then show "fst (atomic_dec_and_test a) \<longleftrightarrow> unat a = 1"
    using assms u by (auto simp: atomic_dec_and_test_def)
qed

text \<open>
  \<^verbatim>\<open>atomic_test_and_set_bit\<close> does not test the bit. Its result says whether another processor changed the
  counter between its read and its compare-and-swap: without interference it returns false whether or not
  the bit was set before, and when another processor interferes it returns true and leaves the bit as that
  processor left it, even if that is clear.
\<close>

theorem atomic_test_and_set_ignores_bit:
  assumes "nr < 32"
  shows "\<exists>b. int_bit nr = Some b \<and> (\<forall>a. bit (a OR b) nr) \<and>
    atomic_test_and_set_bit id nr a = Some (False, a OR b) \<and>
    (\<forall>between. between a \<noteq> a \<longrightarrow> atomic_test_and_set_bit between nr a = Some (True, between a))"
  using assms by (auto simp: atomic_test_and_set_bit_def int_bit_def atomic_compare_and_swap_def atomic_read_def bit_simps)

theorem atomic_test_and_set_ignores_bit_witness:
  "(3 :: nat) < 32 \<and> bit (8 :: atomic) 3 \<and> (\<exists>a'. atomic_test_and_set_bit id 3 8 = Some (False, a')) \<and>
   atomic_test_and_set_bit (\<lambda>_. 1) 3 8 = Some (True, 1)"
  using atomic_test_and_set_ignores_bit [of 3 8] by (auto simp: bit_numeral_rec)

end
