(* ===== verification/Cow.thy ===== *)
theory Cow
  imports Page Hashmap Atomic
begin

text \<open>
  Copy-on-write (\<open>kernel/mm/vmm/cow.c\<close>, \<open>cow.h\<close>) and the page fault handler (\<open>kernel/mm/vmm/fault.c\<close>).

  The state holds the static variables of \<open>cow.c\<close>, the blocks (objects of type \<open>cow_block_t\<close>) by address and
  the state of the page tables. The list \<open>mallocs\<close> has the results of the calls of \<open>kmalloc\<close> to come
  (0 is \<open>NULL\<close>; an exhausted list gives \<open>NULL\<close>), and \<open>frees\<close> the addresses passed to \<open>kfree\<close>, the latest
  first. The search context \<open>s_search_ctx\<close> is written before each use and is the context of the iteration.
\<close>

subsection \<open>Data\<close>

datatype cow_result =
  COW_OK | COW_ERR_NOT_INIT | COW_ERR_OOM | COW_ERR_INVALID | COW_ERR_NOT_COW | COW_ERR_MAX_REFCOUNT

record cow_block =
  orig_phys :: physical_addr
  refcount :: atomic

record cow_region =
  cr_at :: addr
  cr_start :: virtual_addr
  cr_page_count :: u64
  cr_pml4 :: physical_addr

record cow_stats =
  cow_faults_handled :: u64
  cow_pages_allocated :: u64
  cow_pages_freed :: u64
  cow_current_blocks :: u64
  cow_write_faults :: u64
  cow_coalesced :: u64

record cow_state =
  page_map :: "hashmap option"
  regions :: "cow_region list"
  cstats :: cow_stats
  cow_initialized :: bool
  blocks :: "addr \<Rightarrow> cow_block"
  mallocs :: "addr list"
  frees :: "addr list"
  pages :: page_state

definition COW_FLAG_MASK :: u64 where "COW_FLAG_MASK = 2 ^ 9"
definition COW_MAX_REFCOUNT :: u32 where "COW_MAX_REFCOUNT = 0xFFFF"
definition COW_HASH_SIZE :: u64 where "COW_HASH_SIZE = 256"

definition cow_is_cow_page :: "u64 \<Rightarrow> bool" where
  "cow_is_cow_page pte_flags \<longleftrightarrow> pte_flags AND COW_FLAG_MASK \<noteq> 0"

definition cow_set_cow_flag :: "u64 \<Rightarrow> u64" where
  "cow_set_cow_flag pte_flags = pte_flags OR COW_FLAG_MASK"

definition cow_clear_cow_flag :: "u64 \<Rightarrow> u64" where
  "cow_clear_cow_flag pte_flags = pte_flags AND NOT COW_FLAG_MASK"

definition kmalloc_next :: "cow_state \<Rightarrow> addr \<times> cow_state" where
  "kmalloc_next s = (case mallocs s of [] \<Rightarrow> (0, s) | a # as \<Rightarrow> (a, s\<lparr>mallocs := as\<rparr>))"

definition kfree_all :: "addr list \<Rightarrow> cow_state \<Rightarrow> cow_state" where
  "kfree_all ps s = s\<lparr>frees := rev ps @ frees s\<rparr>"

definition upd_cstats :: "(cow_stats \<Rightarrow> cow_stats) \<Rightarrow> cow_state \<Rightarrow> cow_state" where
  "upd_cstats f s = s\<lparr>cstats := f (cstats s)\<rparr>"

subsection \<open>The table of blocks\<close>

definition hash_cow_block_ptr :: "addr \<Rightarrow> u64" where
  "hash_cow_block_ptr key = hash_ptr key"

definition eq_cow_block_ptr :: "addr \<Rightarrow> addr \<Rightarrow> bool" where
  "eq_cow_block_ptr a b \<longleftrightarrow> a = b"

definition search_by_phys_iterator ::
  "cow_state \<Rightarrow> addr \<Rightarrow> addr \<Rightarrow> physical_addr \<times> addr \<Rightarrow> bool \<times> physical_addr \<times> addr" where
  "search_by_phys_iterator s key val = (\<lambda>(target, result).
     if orig_phys (blocks s val) = target then (False, target, val) else (True, target, result))"

definition find_block_by_phys :: "physical_addr \<Rightarrow> cow_state \<Rightarrow> addr option" where
  "find_block_by_phys phys s =
     (if \<not> cow_initialized s \<or> page_map s = None then Some 0
      else do {
        let phys = phys AND NOT (PAGE_SIZE - 1);
        (_, _, result) \<leftarrow> hashmap_foreach (page_map s) (Some (search_by_phys_iterator s)) (phys, 0);
        Some result
      })"

definition cow_lookup_block :: "physical_addr \<Rightarrow> cow_state \<Rightarrow> addr option" where
  "cow_lookup_block phys s = find_block_by_phys phys s"

definition cow_init :: "cow_state \<Rightarrow> (cow_result \<times> cow_state) option" where
  "cow_init s =
     (if cow_initialized s then Some (COW_OK, s)
      else do {
        let (p1, s) = kmalloc_next s;
        let (p2, s) = (if p1 = 0 then (0, s) else kmalloc_next s);
        (mp, fs) \<leftarrow> hashmap_create p1 p2 COW_HASH_SIZE (Some hash_cow_block_ptr) (Some eq_cow_block_ptr);
        let s = kfree_all fs (s\<lparr>page_map := mp\<rparr>);
        if mp = None then Some (COW_ERR_OOM, s)
        else Some (COW_OK, s\<lparr>cstats := \<lparr>cow_faults_handled = 0, cow_pages_allocated = 0, cow_pages_freed = 0,
            cow_current_blocks = 0, cow_write_faults = 0, cow_coalesced = 0\<rparr>,
          regions := [], cow_initialized := True\<rparr>)
      })"

definition cow_is_initialized :: "cow_state \<Rightarrow> bool" where
  "cow_is_initialized s = cow_initialized s"

definition cow_get_stats :: "cow_stats option \<Rightarrow> cow_state \<Rightarrow> cow_result \<times> cow_stats option" where
  "cow_get_stats out s =
     (if \<not> cow_initialized s then (COW_ERR_NOT_INIT, out)
      else if out = None then (COW_ERR_INVALID, out)
      else (COW_OK, Some (cstats s)))"

definition cow_inc_refcount :: "physical_addr \<Rightarrow> cow_state \<Rightarrow> (cow_result \<times> cow_state) option" where
  "cow_inc_refcount phys s =
     (if \<not> cow_initialized s then Some (COW_ERR_NOT_INIT, s)
      else do {
        let phys = phys AND NOT (PAGE_SIZE - 1);
        block \<leftarrow> cow_lookup_block phys s;
        if block = 0 then Some (COW_ERR_NOT_COW, s)
        else
          let b = blocks s block in
          if COW_MAX_REFCOUNT \<le>s atomic_read (refcount b) then Some (COW_ERR_MAX_REFCOUNT, s)
          else Some (COW_OK, s\<lparr>blocks := (blocks s)(block := b\<lparr>refcount := atomic_inc (refcount b)\<rparr>)\<rparr>)
      })"

text \<open>
  \<open>hashmap_put(page_map, block, block)\<close>; it calls \<open>kmalloc\<close> for the entry when the key is not present.
\<close>

definition cow_put :: "addr \<Rightarrow> cow_state \<Rightarrow> (int \<times> cow_state) option" where
  "cow_put block s = do {
     let (p, s1) = kmalloc_next s;
     (r, mp) \<leftarrow> hashmap_put p (page_map s) block block;
     let s = (if r = -2 \<or> hashmap_size mp \<noteq> hashmap_size (page_map s) then s1 else s);
     Some (r, s\<lparr>page_map := mp\<rparr>)
   }"

definition cow_add_page :: "physical_addr \<Rightarrow> cow_state \<Rightarrow> (cow_result \<times> cow_state) option" where
  "cow_add_page phys s =
     (if \<not> cow_initialized s then Some (COW_ERR_NOT_INIT, s)
      else do {
        let phys = phys AND NOT (PAGE_SIZE - 1);
        existing \<leftarrow> find_block_by_phys phys s;
        if existing \<noteq> 0 then cow_inc_refcount phys s
        else do {
          let (block, s) = kmalloc_next s;
          if block = 0 then Some (COW_ERR_OOM, s)
          else do {
            let s = s\<lparr>blocks := (blocks s)(block := \<lparr>orig_phys = phys, refcount = atomic_write 1 (refcount (blocks s block))\<rparr>)\<rparr>;
            (result, s) \<leftarrow> cow_put block s;
            if result \<noteq> 0 then Some (COW_ERR_OOM, kfree_all [block] s)
            else Some (COW_OK, upd_cstats (\<lambda>t. t\<lparr>cow_pages_allocated := cow_pages_allocated t + 1,
              cow_current_blocks := cow_current_blocks t + 1\<rparr>) s)
          }
        }
      })"

definition cow_dec_refcount :: "physical_addr \<Rightarrow> cow_state \<Rightarrow> (cow_result \<times> cow_state) option" where
  "cow_dec_refcount phys s =
     (if \<not> cow_initialized s then Some (COW_ERR_NOT_INIT, s)
      else do {
        let phys = phys AND NOT (PAGE_SIZE - 1);
        block \<leftarrow> cow_lookup_block phys s;
        if block = 0 then Some (COW_ERR_NOT_COW, s)
        else do {
          let b = blocks s block;
          let (last, c) = atomic_dec_and_test (refcount b);
          let s = s\<lparr>blocks := (blocks s)(block := b\<lparr>refcount := c\<rparr>)\<rparr>;
          if last then do {
            (_, mp, fs) \<leftarrow> hashmap_remove (page_map s) block;
            let s = kfree_all [block] (kfree_all fs (s\<lparr>page_map := mp\<rparr>));
            Some (COW_OK, upd_cstats (\<lambda>t. t\<lparr>cow_pages_freed := cow_pages_freed t + 1,
              cow_current_blocks := cow_current_blocks t - 1\<rparr>) s)
          } else Some (COW_OK, s)
        }
      })"

definition cow_get_refcount ::
  "physical_addr \<Rightarrow> u16 option \<Rightarrow> cow_state \<Rightarrow> (cow_result \<times> u16 option) option" where
  "cow_get_refcount phys out_refcount s =
     (if \<not> cow_initialized s then Some (COW_ERR_NOT_INIT, out_refcount)
      else if out_refcount = None then Some (COW_ERR_INVALID, out_refcount)
      else do {
        let phys = phys AND NOT (PAGE_SIZE - 1);
        block \<leftarrow> cow_lookup_block phys s;
        if block = 0 then Some (COW_ERR_NOT_COW, out_refcount)
        else Some (COW_OK, Some (ucast (atomic_read (refcount (blocks s block)))))
      })"

subsection \<open>Marking and resolving\<close>

definition cow_mark_page_readonly :: "physical_addr \<Rightarrow> virtual_addr \<Rightarrow> cow_state \<Rightarrow> (cow_result \<times> cow_state) option" where
  "cow_mark_page_readonly pml4 vaddr s = do {
     (result, query) \<leftarrow> page_query pml4 vaddr (Some no_mapping) (pages s);
     if result \<noteq> PAGE_OK then Some (COW_ERR_INVALID, s)
     else
       let ps = pages s;
           pml4e = pt_entry ps pml4 (PML4_INDEX vaddr) in
       if \<not> pte_present pml4e then Some (COW_ERR_INVALID, s)
       else
         let pdpte = pt_entry ps (pte_phys pml4e) (PDPT_INDEX vaddr) in
         if \<not> pte_present pdpte then Some (COW_ERR_INVALID, s)
         else
           let pde = pt_entry ps (pte_phys pdpte) (PD_INDEX vaddr) in
           if \<not> pte_present pde then Some (COW_ERR_INVALID, s)
           else
             let pt = pte_phys pde;
                 e = pt_entry ps pt (PT_INDEX vaddr) AND NOT PAGE_WRITE;
                 ps = set_entry pt (PT_INDEX vaddr) (cow_set_cow_flag e) ps
             in Some (COW_OK, s\<lparr>pages := page_invalidate_tlb vaddr ps\<rparr>)
   }"

definition cow_make_writable ::
  "physical_addr \<Rightarrow> virtual_addr \<Rightarrow> physical_addr \<Rightarrow> cow_state \<Rightarrow> (cow_result \<times> cow_state) option" where
  "cow_make_writable pml4 vaddr phys s = do {
     (result, query) \<leftarrow> page_query pml4 vaddr (Some no_mapping) (pages s);
     if result \<noteq> PAGE_OK then Some (COW_ERR_INVALID, s)
     else do {
       let new_flags = q_flags query;
       let new_flags = new_flags OR PAGE_WRITE;
       let new_flags = cow_clear_cow_flag new_flags;
       (result, ps) \<leftarrow> page_map_page pml4 vaddr phys new_flags False (pages s);
       let s = s\<lparr>pages := page_invalidate_tlb vaddr ps\<rparr>;
       Some (if result = PAGE_OK then COW_OK else COW_ERR_INVALID, s)
     }
   }"

definition cow_copy_on_write ::
  "physical_addr \<Rightarrow> virtual_addr \<Rightarrow> physical_addr \<Rightarrow> addr \<Rightarrow> cow_state \<Rightarrow> (cow_result \<times> cow_state) option" where
  "cow_copy_on_write pml4 vaddr orig block s = do {
     (result, new_phys, P) \<leftarrow> pframe_alloc (Some 0) (pool (pages s));
     let s = s\<lparr>pages := (pages s)\<lparr>pool := P\<rparr>\<rparr>;
     if result \<noteq> PFRAME_OK then Some (COW_ERR_OOM, s)
     else do {
       new_phys \<leftarrow> new_phys;
       (_, m) \<leftarrow> memcpy (phys_to_virt new_phys) (phys_to_virt orig) PAGE_SIZE (dmem (pages s));
       let s = s\<lparr>pages := (pages s)\<lparr>dmem := m\<rparr>\<rparr>;
       (_, s) \<leftarrow> cow_dec_refcount orig s;
       let flags = PAGE_PRESENT OR PAGE_WRITE OR PAGE_USER;
       (result, query) \<leftarrow> page_query pml4 vaddr (Some no_mapping) (pages s);
       let flags = (if result = PAGE_OK then
           let flags = (if q_flags query AND PAGE_USER \<noteq> 0 then flags OR PAGE_USER else flags)
           in if q_flags query AND PAGE_NO_EXEC \<noteq> 0 then flags OR PAGE_NO_EXEC else flags
         else flags);
       (_, ps) \<leftarrow> page_map_page pml4 vaddr new_phys flags False (pages s);
       let s = s\<lparr>pages := page_invalidate_tlb vaddr ps\<rparr>;
       Some (COW_OK, upd_cstats (\<lambda>t. t\<lparr>cow_faults_handled := cow_faults_handled t + 1\<rparr>) s)
     }
   }"

definition cow_handle_fault :: "physical_addr \<Rightarrow> virtual_addr \<Rightarrow> cow_state \<Rightarrow> (cow_result \<times> cow_state) option" where
  "cow_handle_fault pml4 fault_addr s =
     (if \<not> cow_initialized s then Some (COW_ERR_NOT_INIT, s)
      else do {
        let s = upd_cstats (\<lambda>t. t\<lparr>cow_write_faults := cow_write_faults t + 1\<rparr>) s;
        (result, query) \<leftarrow> page_query pml4 fault_addr (Some no_mapping) (pages s);
        if result \<noteq> PAGE_OK \<or> \<not> q_present query then Some (COW_ERR_NOT_COW, s)
        else if q_flags query AND PAGE_WRITE \<noteq> 0 \<or> \<not> cow_is_cow_page (q_flags query) then Some (COW_ERR_NOT_COW, s)
        else do {
          let orig = q_phys_addr query;
          block \<leftarrow> cow_lookup_block orig s;
          if block = 0 then Some (COW_ERR_INVALID, s)
          else if atomic_read (refcount (blocks s block)) = 1 then
            cow_make_writable pml4 fault_addr orig (upd_cstats (\<lambda>t. t\<lparr>cow_coalesced := cow_coalesced t + 1\<rparr>) s)
          else cow_copy_on_write pml4 fault_addr orig block s
        }
      })"

subsection \<open>Regions\<close>

definition cow_register_page :: "physical_addr \<Rightarrow> virtual_addr \<Rightarrow> cow_state \<Rightarrow> cow_state option" where
  "cow_register_page pml4 vaddr s = do {
     (result, query) \<leftarrow> page_query pml4 vaddr (Some no_mapping) (pages s);
     if result \<noteq> PAGE_OK \<or> \<not> q_present query then Some s
     else do {
       (_, s) \<leftarrow> cow_add_page (q_phys_addr query) s;
       (_, s) \<leftarrow> cow_inc_refcount (q_phys_addr query) s;
       (_, s) \<leftarrow> cow_mark_page_readonly pml4 vaddr s;
       Some s
     }
   }"

definition cow_register_region ::
  "physical_addr \<Rightarrow> virtual_addr \<Rightarrow> u64 \<Rightarrow> cow_state \<Rightarrow> (cow_result \<times> cow_state) option" where
  "cow_register_region pml4 base sz s =
     (if \<not> cow_initialized s then Some (COW_ERR_NOT_INIT, s)
      else if base AND (PAGE_SIZE - 1) \<noteq> 0 then Some (COW_ERR_INVALID, s)
      else if sz AND (PAGE_SIZE - 1) \<noteq> 0 then Some (COW_ERR_INVALID, s)
      else do {
        let page_count = sz div PAGE_SIZE;
        s \<leftarrow> fold_opt (\<lambda>i. cow_register_page pml4 (base + of_nat i * PAGE_SIZE)) [0..<unat page_count] s;
        let (p, s) = kmalloc_next s;
        if p = 0 then Some (COW_ERR_OOM, s)
        else Some (COW_OK, s\<lparr>regions := \<lparr>cr_at = p, cr_start = base, cr_page_count = page_count, cr_pml4 = pml4\<rparr> # regions s\<rparr>)
      })"

text \<open>The first region of the list with the given start and address space, and the list without it.\<close>

fun take_region :: "physical_addr \<Rightarrow> virtual_addr \<Rightarrow> cow_region list \<Rightarrow> (cow_region \<times> cow_region list) option" where
  "take_region pml4 base [] = None"
| "take_region pml4 base (r # rs) =
     (if cr_pml4 r = pml4 \<and> cr_start r = base then Some (r, rs)
      else map_option (\<lambda>(x, rs). (x, r # rs)) (take_region pml4 base rs))"

definition cow_unregister_region ::
  "physical_addr \<Rightarrow> virtual_addr \<Rightarrow> cow_state \<Rightarrow> (cow_result \<times> cow_state) option" where
  "cow_unregister_region pml4 base s =
     (if \<not> cow_initialized s then Some (COW_ERR_NOT_INIT, s)
      else case take_region pml4 base (regions s) of
        None \<Rightarrow> Some (COW_ERR_NOT_COW, s)
      | Some (r, rs) \<Rightarrow> do {
          let s = s\<lparr>regions := rs\<rparr>;
          s \<leftarrow> fold_opt (\<lambda>i s. do {
              (result, query) \<leftarrow> page_query pml4 (cr_start r + of_nat i * PAGE_SIZE) (Some no_mapping) (pages s);
              if result = PAGE_OK then map_option snd (cow_dec_refcount (q_phys_addr query) s) else Some s
            }) [0..<unat (cr_page_count r)] s;
          Some (COW_OK, kfree_all [cr_at r] s)
        })"

subsection \<open>The page fault handler\<close>

datatype pf_result = PF_SUCCESS | PF_NOT_OUR_FAULT | PF_OOM | PF_ACCESS_DENIED | PF_INVALID_ADDRESS | PF_KERNEL_PANIC

record page_fault_info =
  fi_fault_addr :: virtual_addr
  fi_error_code :: u64
  fi_present :: bool
  fi_write :: bool
  fi_user :: bool
  fi_reserved_bit :: bool
  fi_instruction_fetch :: bool

record pf_stats =
  total_faults :: u64
  kernel_faults :: u64
  user_faults :: u64
  not_present_faults :: u64
  protection_faults :: u64
  write_faults :: u64
  handled_cow :: u64
  handled_demand :: u64

record pf_state =
  pf_registered :: bool
  pfs :: pf_stats
  cow :: cow_state

text \<open>How the handler ends: it resumes the program, ends the current process or stops the machine.\<close>

datatype pf_outcome = PF_Resume | PF_Exit | PF_Halt

definition upd_pfs :: "(pf_stats \<Rightarrow> pf_stats) \<Rightarrow> pf_state \<Rightarrow> pf_state" where
  "upd_pfs f s = s\<lparr>pfs := f (pfs s)\<rparr>"

definition pf_init :: "pf_state \<Rightarrow> pf_state" where
  "pf_init s = (if pf_registered s then s else s\<lparr>pf_registered := True\<rparr>)"

definition pf_parse_error_code :: "u64 \<Rightarrow> page_fault_info \<Rightarrow> page_fault_info" where
  "pf_parse_error_code error_code info =
     info\<lparr>fi_error_code := error_code,
       fi_present := error_code AND 2 ^ 0 \<noteq> 0,
       fi_write := error_code AND 2 ^ 1 \<noteq> 0,
       fi_user := error_code AND 2 ^ 2 \<noteq> 0,
       fi_reserved_bit := error_code AND 2 ^ 3 \<noteq> 0,
       fi_instruction_fetch := error_code AND 2 ^ 4 \<noteq> 0\<rparr>"

definition vmm_is_canonical :: "virtual_addr \<Rightarrow> bool" where
  "vmm_is_canonical addr \<longleftrightarrow> drop_bit 48 addr = 0 \<or> drop_bit 48 addr = 0xFFFF"

definition USER_BASE :: u64 where "USER_BASE = 0x0000000000400000"
definition USER_END :: u64 where "USER_END = 0x00007FFFFFFFFFFF"

definition vmm_is_user_addr :: "virtual_addr \<Rightarrow> bool" where
  "vmm_is_user_addr addr \<longleftrightarrow> addr \<ge> USER_BASE \<and> addr < USER_END"

definition vmm_get_current_pml4 :: "page_state \<Rightarrow> physical_addr" where
  "vmm_get_current_pml4 ps = cr3 ps AND NOT 0xFFF"

definition pf_handle_cow :: "physical_addr \<Rightarrow> virtual_addr \<Rightarrow> pf_state \<Rightarrow> (pf_result \<times> pf_state) option" where
  "pf_handle_cow pml4 fault_addr s = do {
     (result, c) \<leftarrow> cow_handle_fault pml4 fault_addr (cow s);
     let s = s\<lparr>cow := c\<rparr>;
     if result = COW_OK then Some (PF_SUCCESS, upd_pfs (\<lambda>t. t\<lparr>handled_cow := handled_cow t + 1\<rparr>) s)
     else Some (PF_NOT_OUR_FAULT, s)
   }"

definition pf_register_cow_region ::
  "physical_addr \<Rightarrow> virtual_addr \<Rightarrow> u64 \<Rightarrow> pf_state \<Rightarrow> (bool \<times> pf_state) option" where
  "pf_register_cow_region pml4 base sz s = do {
     (result, c) \<leftarrow> cow_register_region pml4 base sz (cow s);
     Some (result = COW_OK, s\<lparr>cow := c\<rparr>)
   }"

definition pf_handle_demand_page :: "virtual_addr \<Rightarrow> bool \<Rightarrow> pf_state \<Rightarrow> pf_result \<times> pf_state" where
  "pf_handle_demand_page fault_addr user s =
     (PF_NOT_OUR_FAULT, upd_pfs (\<lambda>t. t\<lparr>handled_demand := handled_demand t + 1\<rparr>) s)"

text \<open>
  \<open>cr2\<close> is the content of the register, \<open>proc\<close> the field \<open>is_user_mode\<close> of the current process, if there is
  one. The log output is left out.
\<close>

definition pf_handler :: "virtual_addr \<Rightarrow> bool option \<Rightarrow> u64 \<Rightarrow> pf_state \<Rightarrow> (pf_outcome \<times> pf_state) option" where
  "pf_handler cr2 proc error_code s = do {
     ccos_assert (pf_registered s);
     let s = upd_pfs (\<lambda>t. t\<lparr>total_faults := total_faults t + 1\<rparr>) s;
     let fault_addr = cr2;
     let info = pf_parse_error_code error_code
       \<lparr>fi_fault_addr = 0, fi_error_code = 0, fi_present = False, fi_write = False, fi_user = False,
        fi_reserved_bit = False, fi_instruction_fetch = False\<rparr>;
     let info = info\<lparr>fi_fault_addr := fault_addr\<rparr>;
     let s = (if fi_user info then upd_pfs (\<lambda>t. t\<lparr>user_faults := user_faults t + 1\<rparr>) s
       else upd_pfs (\<lambda>t. t\<lparr>kernel_faults := kernel_faults t + 1\<rparr>) s);
     let s = (if fi_present info then upd_pfs (\<lambda>t. t\<lparr>protection_faults := protection_faults t + 1\<rparr>) s
       else upd_pfs (\<lambda>t. t\<lparr>not_present_faults := not_present_faults t + 1\<rparr>) s);
     let s = (if fi_write info then upd_pfs (\<lambda>t. t\<lparr>write_faults := write_faults t + 1\<rparr>) s else s);
     if \<not> vmm_is_canonical fault_addr then Some (PF_Halt, s)
     else if fi_reserved_bit info then Some (PF_Halt, s)
     else if \<not> fi_user info then Some (PF_Halt, s)
     else do {
       (r, s) \<leftarrow> (if fi_present info \<and> fi_write info \<and> \<not> fi_reserved_bit info
         then pf_handle_cow (vmm_get_current_pml4 (pages (cow s))) fault_addr s
         else Some (PF_NOT_OUR_FAULT, s));
       if r = PF_SUCCESS then Some (PF_Resume, s)
       else do {
         let (r, s) = (if \<not> fi_present info \<and> vmm_is_user_addr fault_addr
           then pf_handle_demand_page fault_addr True s else (PF_NOT_OUR_FAULT, s));
         if r = PF_SUCCESS then Some (PF_Resume, s)
         else if proc = Some True then Some (PF_Exit, s)
         else Some (PF_Halt, s)
       }
     }
   }"

end
