(* ===== verification/Cow_Props.thy ===== *)
theory Cow_Props
  imports Cow Page_Main
begin

text \<open>
  Properties of copy-on-write: the table of blocks counts the references to each page, and the fault handler
  never makes a page writable.
\<close>

interpretation cow_keys: key_ops hash_cow_block_ptr eq_cow_block_ptr
  by unfold_locales (simp_all add: eq_cow_block_ptr_def)

subsection \<open>The table of blocks\<close>

definition cow_ok :: "hashmap \<Rightarrow> cow_state \<Rightarrow> bool" where
  "cow_ok hm s \<longleftrightarrow> cow_initialized s \<and> page_map s = Some hm \<and> hm_inv hm \<and>
     hash_func hm = hash_cow_block_ptr \<and> eq_func hm = eq_cow_block_ptr \<and>
     (\<forall>b v. lookup hm b = Some v \<longrightarrow> v = b \<and> b \<noteq> 0 \<and> is_page_aligned (orig_phys (blocks s b)) \<and>
       1 \<le> unat (refcount (blocks s b)) \<and> unat (refcount (blocks s b)) \<le> 0xFFFF) \<and>
     (\<forall>b c. lookup hm b \<noteq> None \<longrightarrow> lookup hm c \<noteq> None \<longrightarrow>
       orig_phys (blocks s b) = orig_phys (blocks s c) \<longrightarrow> b = c)"

definition cow_inv :: "cow_state \<Rightarrow> bool" where
  "cow_inv s \<longleftrightarrow> (\<exists>hm. cow_ok hm s)"

definition tracked :: "cow_state \<Rightarrow> addr set" where
  "tracked s = (case page_map s of None \<Rightarrow> {} | Some hm \<Rightarrow> {b. lookup hm b \<noteq> None})"

text \<open>The page at \<open>a\<close> is tracked with \<open>n\<close> references.\<close>

definition tracks :: "cow_state \<Rightarrow> physical_addr \<Rightarrow> nat \<Rightarrow> bool" where
  "tracks s a n \<longleftrightarrow> (\<exists>b \<in> tracked s. orig_phys (blocks s b) = a \<and> unat (refcount (blocks s b)) = n)"

definition page_of :: "physical_addr \<Rightarrow> physical_addr" where
  "page_of a = a AND NOT (PAGE_SIZE - 1)"

lemma page_of_idem [simp]: "page_of (page_of a) = page_of a"
  by (rule bit_eqI) (auto simp: page_of_def bit_simps)

lemma page_of_aligned: "is_page_aligned (page_of a)"
  by (simp add: is_page_aligned_def page_of_def PAGE_SIZE_def and.assoc)

lemma aligned_page_of: "is_page_aligned a \<Longrightarrow> page_of a = a"
proof (rule bit_eqI)
  fix k
  assume "is_page_aligned a"
  then have "bit a k \<Longrightarrow> 12 \<le> k" by (simp add: aligned_bits)
  moreover have m: "(PAGE_SIZE - 1 :: u64) = mask 12"
    by (simp add: PAGE_SIZE_def mask_eq_exp_minus_1)
  ultimately show "bit (page_of a) k = bit a k"
    unfolding page_of_def m by (auto simp: bit_simps dest: bit_less_64)
qed

lemma iterate_search:
  "snd (snd (iterate (search_by_phys_iterator s) es n (a, r))) =
    (case find (\<lambda>e. orig_phys (blocks s (e_val e)) = a) es of None \<Rightarrow> r | Some e \<Rightarrow> e_val e)"
  by (induction es arbitrary: n) (auto simp: search_by_phys_iterator_def Let_def)

lemma find_block_cases:
  assumes "cow_ok hm s"
  obtains (none) "find_block_by_phys phys s = Some 0" "\<And>b. b \<in> tracked s \<Longrightarrow> orig_phys (blocks s b) \<noteq> page_of phys"
  | (some) b where "find_block_by_phys phys s = Some b" "b \<in> tracked s" "b \<noteq> 0" "orig_phys (blocks s b) = page_of phys"
proof -
  have hm: "cow_initialized s" "page_map s = Some hm" "hm_inv hm" "eq_func hm = eq_cow_block_ptr"
    and val: "\<And>b v. lookup hm b = Some v \<Longrightarrow> v = b \<and> b \<noteq> 0"
    using assms by (auto simp: cow_ok_def)
  have refl: "eq_func hm a a" for a
    using hm(4) by (simp add: eq_cow_block_ptr_def)
  let ?f = "find (\<lambda>e. orig_phys (blocks s (e_val e)) = page_of phys) (entries hm)"
  have "take (unat (num_buckets hm)) (buckets hm) = buckets hm"
    using hm(3) by (simp add: hm_inv_def)
  then have res: "find_block_by_phys phys s = Some (case ?f of None \<Rightarrow> 0 | Some e \<Rightarrow> e_val e)"
    using hm iterate_search [of s "entries hm" 0 "page_of phys" 0]
    by (auto simp: find_block_by_phys_def hashmap_foreach_def page_of_def entries_def hm_inv_def split: prod.splits)
  show thesis
  proof (cases ?f)
    case None
    have "orig_phys (blocks s b) \<noteq> page_of phys" if "b \<in> tracked s" for b
    proof -
      obtain v where "lookup hm b = Some v"
        using \<open>b \<in> tracked s\<close> hm(2) by (auto simp: tracked_def)
      then obtain e where "e \<in> set (entries hm)" "e_val e = b"
        using lookup_entry [OF hm(3)] val by blast
      then show ?thesis
        using None by (auto simp: find_None_iff)
    qed
    then show thesis
      using none res None by simp
  next
    case (Some e)
    then have e: "e \<in> set (entries hm)" "orig_phys (blocks s (e_val e)) = page_of phys"
      by (auto simp: find_Some_iff)
    then have l: "lookup hm (e_key e) = Some (e_val e)"
      using entry_lookup [OF hm(3) refl] by blast
    with val [OF l] have "e_val e \<noteq> 0" "lookup hm (e_val e) = Some (e_val e)" by auto
    then show thesis
      using e some [of "e_val e"] res Some hm(2) by (simp add: tracked_def)
  qed
qed

lemma trackedD:
  assumes "cow_ok hm s" "b \<in> tracked s"
  shows "lookup hm b = Some b" "b \<noteq> 0" "is_page_aligned (orig_phys (blocks s b))"
    "1 \<le> unat (refcount (blocks s b))" "unat (refcount (blocks s b)) \<le> 0xFFFF"
  using assms by (auto simp: cow_ok_def tracked_def)

lemma tracked_inj:
  "cow_ok hm s \<Longrightarrow> b \<in> tracked s \<Longrightarrow> c \<in> tracked s \<Longrightarrow> orig_phys (blocks s b) = orig_phys (blocks s c) \<Longrightarrow> b = c"
  by (auto simp: cow_ok_def tracked_def)

lemma tracks_unique:
  "cow_ok hm s \<Longrightarrow> b \<in> tracked s \<Longrightarrow> tracks s (orig_phys (blocks s b)) n \<longleftrightarrow> n = unat (refcount (blocks s b))"
  unfolding tracks_def by (blast dest: tracked_inj)

definition set_refcount :: "addr \<Rightarrow> atomic \<Rightarrow> cow_state \<Rightarrow> cow_state" where
  "set_refcount b c s = s\<lparr>blocks := (blocks s)(b := (blocks s b)\<lparr>refcount := c\<rparr>)\<rparr>"

lemma set_refcount_ok:
  assumes ok: "cow_ok hm s" and b: "b \<in> tracked s" and c: "1 \<le> unat c" "unat c \<le> 0xFFFF"
  shows "cow_ok hm (set_refcount b c s)"
    and "tracks (set_refcount b c s) a n \<longleftrightarrow> (if a = orig_phys (blocks s b) then n = unat c else tracks s a n)"
proof -
  let ?s = "set_refcount b c s"
  have o: "orig_phys (blocks ?s x) = orig_phys (blocks s x)" for x
    by (simp add: set_refcount_def)
  have r: "refcount (blocks ?s x) = (if x = b then c else refcount (blocks s x))" for x
    by (simp add: set_refcount_def)
  have m: "page_map ?s = page_map s" "cow_initialized ?s = cow_initialized s"
    by (simp_all add: set_refcount_def)
  show ok': "cow_ok hm ?s"
    using ok c unfolding cow_ok_def o r m by auto
  have t: "tracked ?s = tracked s"
    by (simp add: tracked_def m)
  show "tracks ?s a n \<longleftrightarrow> (if a = orig_phys (blocks s b) then n = unat c else tracks s a n)"
  proof (cases "a = orig_phys (blocks s b)")
    case True
    then show ?thesis
      using tracks_unique [OF ok', of b n] b by (simp add: t o r)
  next
    case False
    then show ?thesis
      unfolding tracks_def t o r using b by auto
  qed
qed

lemma refcount_max:
  assumes "unat c \<le> 0xFFFF"
  shows "COW_MAX_REFCOUNT \<le>s c \<longleftrightarrow> unat c = 0xFFFF"
proof -
  have "int (unat c) \<le> 0xFFFF"
    using assms by linarith
  then have "uint c \<le> 0xFFFF"
    by simp
  then have "sint c = uint c"
    using int_word_sint [of "uint c", where 'a = 32] by (simp add: mod_pos_pos_trivial)
  then have "COW_MAX_REFCOUNT \<le>s c \<longleftrightarrow> 0xFFFF \<le> int (unat c)"
    by (simp add: word_sle_eq COW_MAX_REFCOUNT_def)
  then show ?thesis
    using assms by linarith
qed

lemma lookup_page: "cow_lookup_block (page_of phys) s = find_block_by_phys phys s"
  by (simp add: cow_lookup_block_def find_block_by_phys_def Let_def page_of_def [symmetric])

lemma cow_inc_ok:
  assumes ok: "cow_ok hm s"
  shows "(\<nexists>n. tracks s (page_of phys) n) \<Longrightarrow> cow_inc_refcount phys s = Some (COW_ERR_NOT_COW, s)"
    and "tracks s (page_of phys) n \<Longrightarrow> \<exists>b \<in> tracked s. orig_phys (blocks s b) = page_of phys \<and> unat (refcount (blocks s b)) = n \<and>
      cow_inc_refcount phys s = (if n = 0xFFFF then Some (COW_ERR_MAX_REFCOUNT, s)
        else Some (COW_OK, set_refcount b (atomic_inc (refcount (blocks s b))) s))"
proof -
  have init: "cow_initialized s" using ok by (simp add: cow_ok_def)
  note def = cow_inc_refcount_def init page_of_def [symmetric] lookup_page
  show "cow_inc_refcount phys s = Some (COW_ERR_NOT_COW, s)" if "\<nexists>n. tracks s (page_of phys) n"
    by (rule find_block_cases [OF ok, of phys]) (use that in \<open>auto simp: def tracks_def\<close>)
  show "\<exists>b \<in> tracked s. orig_phys (blocks s b) = page_of phys \<and> unat (refcount (blocks s b)) = n \<and>
      cow_inc_refcount phys s = (if n = 0xFFFF then Some (COW_ERR_MAX_REFCOUNT, s)
        else Some (COW_OK, set_refcount b (atomic_inc (refcount (blocks s b))) s))" if t: "tracks s (page_of phys) n"
  proof (rule find_block_cases [OF ok, of phys])
    fix b
    assume b: "find_block_by_phys phys s = Some b" "b \<in> tracked s" "b \<noteq> 0" "orig_phys (blocks s b) = page_of phys"
    have "unat (refcount (blocks s b)) = n"
      using tracks_unique [OF ok b(2)] b(4) t by simp
    then show ?thesis
      using b refcount_max [OF trackedD(5) [OF ok b(2)]]
      by (intro bexI [of _ b]) (simp_all add: def atomic_read_def Let_def set_refcount_def)
  qed (use t in \<open>auto simp: tracks_def\<close>)
qed

lemma cow_dec_ok:
  assumes ok: "cow_ok hm s"
  shows "(\<nexists>n. tracks s (page_of phys) n) \<Longrightarrow> cow_dec_refcount phys s = Some (COW_ERR_NOT_COW, s)"
    and "tracks s (page_of phys) n \<Longrightarrow> \<exists>hm' s'. cow_dec_refcount phys s = Some (COW_OK, s') \<and> cow_ok hm' s' \<and> pages s' = pages s \<and>
      (\<forall>a m. tracks s' a m \<longleftrightarrow> (if a = page_of phys then 1 < n \<and> m = n - 1 else tracks s a m))"
proof -
  have init: "cow_initialized s" "page_map s = Some hm" "hm_inv hm" "hash_func hm = hash_cow_block_ptr"
      "eq_func hm = eq_cow_block_ptr"
    using ok by (simp_all add: cow_ok_def)
  note def = cow_dec_refcount_def init(1,2) page_of_def [symmetric] lookup_page
  show "cow_dec_refcount phys s = Some (COW_ERR_NOT_COW, s)" if "\<nexists>n. tracks s (page_of phys) n"
    by (rule find_block_cases [OF ok, of phys]) (use that in \<open>auto simp: def tracks_def\<close>)
  assume t: "tracks s (page_of phys) n"
  show "\<exists>hm' s'. cow_dec_refcount phys s = Some (COW_OK, s') \<and> cow_ok hm' s' \<and> pages s' = pages s \<and>
      (\<forall>a m. tracks s' a m \<longleftrightarrow> (if a = page_of phys then 1 < n \<and> m = n - 1 else tracks s a m))"
  proof (rule find_block_cases [OF ok, of phys])
    fix b
    assume b: "find_block_by_phys phys s = Some b" "b \<in> tracked s" "b \<noteq> 0" "orig_phys (blocks s b) = page_of phys"
    have n: "unat (refcount (blocks s b)) = n"
      using tracks_unique [OF ok b(2)] b(4) t by simp
    have pos: "0 < unat (refcount (blocks s b))"
      using trackedD(4) [OF ok b(2)] by simp
    define c where "c = snd (atomic_dec_and_test (refcount (blocks s b)))"
    have c: "atomic_dec_and_test (refcount (blocks s b)) = (n = 1, c)" "unat c = n - 1"
      using atomic_dec_count [OF pos] n by (simp_all add: c_def prod_eq_iff)
    show ?thesis
    proof (cases "n = 1")
      case False
      then have "1 \<le> unat c" "unat c \<le> 0xFFFF"
        using c(2) n pos trackedD(5) [OF ok b(2)] by auto
      note s = set_refcount_ok [OF ok b(2) this]
      have "cow_dec_refcount phys s = Some (COW_OK, set_refcount b c s)"
        using b c False by (simp add: def Let_def set_refcount_def)
      moreover have "pages (set_refcount b c s) = pages s" "1 < n"
        using False n pos by (auto simp: set_refcount_def)
      ultimately show ?thesis
        using s b(4) c(2) by (intro exI [of _ hm] exI [of _ "set_refcount b c s"]) simp
    next
      case True
      show ?thesis
      proof (rule cow_keys.map_remove_ok [OF init(3-5) b(3)])
        fix hm' fs
        assume rm: "hashmap_remove (Some hm) b = Some (case lookup hm b of None \<Rightarrow> 0 | Some v \<Rightarrow> v, Some hm', fs)"
          and inv: "hm_inv hm'" "hash_func hm' = hash_cow_block_ptr" "eq_func hm' = eq_cow_block_ptr"
          and lk: "\<And>k. lookup hm' k = (if eq_cow_block_ptr b k then None else lookup hm k)"
        define s' where "s' = upd_cstats (\<lambda>t. t\<lparr>cow_pages_freed := cow_pages_freed t + 1,
          cow_current_blocks := cow_current_blocks t - 1\<rparr>)
          (kfree_all [b] (kfree_all fs (set_refcount b c s\<lparr>page_map := Some hm'\<rparr>)))"
        have "cow_dec_refcount phys s = Some (COW_OK, s')"
          using b c True rm by (simp add: def Let_def set_refcount_def s'_def)
        moreover have s': "page_map s' = Some hm'" "cow_initialized s'" "pages s' = pages s"
            "x \<noteq> b \<Longrightarrow> blocks s' x = blocks s x" for x
          using init(1) by (simp_all add: s'_def upd_cstats_def kfree_all_def set_refcount_def)
        moreover have tr: "tracked s' = tracked s - {b}"
          using s'(1) init(2) lk by (auto simp: tracked_def eq_cow_block_ptr_def)
        moreover have "cow_ok hm' s'"
          using ok inv lk s' unfolding cow_ok_def eq_cow_block_ptr_def by auto
        moreover have "tracks s' a m \<longleftrightarrow> (if a = page_of phys then 1 < n \<and> m = n - 1 else tracks s a m)" for a m
        proof -
          have "orig_phys (blocks s x) \<noteq> page_of phys" if "x \<in> tracked s" "x \<noteq> b" for x
            using ok b(2,4) that by (auto simp: cow_ok_def tracked_def)
          then show ?thesis
            using True b(4) s'(4) unfolding tracks_def tr by auto
        qed
        ultimately show ?thesis by blast
      qed
    qed
  qed (use t in \<open>auto simp: tracks_def\<close>)
qed

lemma cow_add_new:
  assumes ok: "cow_ok hm s" and new: "\<nexists>n. tracks s (page_of phys) n"
    and m: "mallocs s = b # p # ms" "b \<noteq> 0" "b \<notin> tracked s" "p \<noteq> 0"
  shows "\<exists>hm' s'. cow_add_page phys s = Some (COW_OK, s') \<and> cow_ok hm' s' \<and>
    (\<forall>a n. tracks s' a n \<longleftrightarrow> (if a = page_of phys then n = 1 else tracks s a n))"
proof -
  have init: "cow_initialized s" "page_map s = Some hm" "hm_inv hm" "hash_func hm = hash_cow_block_ptr"
      "eq_func hm = eq_cow_block_ptr"
    using ok by (simp_all add: cow_ok_def)
  have none: "find_block_by_phys (page_of phys) s = Some 0"
    by (rule find_block_cases [OF ok, of "page_of phys"]) (use new in \<open>auto simp: tracks_def\<close>)
  have lb: "lookup hm b = None"
    using m(3) init(2) by (simp add: tracked_def)
  show ?thesis
  proof (rule cow_keys.map_put_ok [OF init(3-5) m(2), of p b])
    show "p \<noteq> 0 \<or> lookup hm b \<noteq> None" using m(4) by simp
    fix hm'
    assume put: "hashmap_put p (Some hm) b b = Some (0, Some hm')" and inv: "hm_inv hm'"
        "hash_func hm' = hash_cow_block_ptr" "eq_func hm' = eq_cow_block_ptr"
      and lk: "\<And>k. lookup hm' k = (if eq_cow_block_ptr b k then Some b else lookup hm k)"
    have sz: "hashmap_size (Some hm') \<noteq> hashmap_size (Some hm)"
      using put_size [OF put init(3)] m(2) lb by (simp add: hashmap_size_def)
    define s' where "s' = upd_cstats (\<lambda>t. t\<lparr>cow_pages_allocated := cow_pages_allocated t + 1,
        cow_current_blocks := cow_current_blocks t + 1\<rparr>)
      (s\<lparr>blocks := (blocks s)(b := \<lparr>orig_phys = page_of phys, refcount = 1\<rparr>), mallocs := ms, page_map := Some hm'\<rparr>)"
    have "cow_add_page phys s = Some (COW_OK, s')"
      using none m put init(1,2) sz
      by (simp add: cow_add_page_def page_of_def [symmetric] kmalloc_next_def cow_put_def atomic_write_def s'_def)
    moreover have s': "page_map s' = Some hm'" "cow_initialized s'"
        "blocks s' x = (if x = b then \<lparr>orig_phys = page_of phys, refcount = 1\<rparr> else blocks s x)" for x
      using init(1) by (simp_all add: s'_def upd_cstats_def)
    moreover have tr: "tracked s' = insert b (tracked s)"
      using s'(1) init(2) lk by (auto simp: tracked_def eq_cow_block_ptr_def)
    moreover have other: "orig_phys (blocks s x) \<noteq> page_of phys" if "x \<in> tracked s" for x
      using new that by (auto simp: tracks_def)
    moreover have "cow_ok hm' s'"
      unfolding cow_ok_def
    proof (intro conjI allI impI)
      fix x v assume "lookup hm' x = Some v"
      then show "v = x" "x \<noteq> 0" "is_page_aligned (orig_phys (blocks s' x))" "1 \<le> unat (refcount (blocks s' x))"
          "unat (refcount (blocks s' x)) \<le> 0xFFFF"
        using ok m(2) page_of_aligned by (auto simp: lk s'(3) eq_cow_block_ptr_def cow_ok_def split: if_splits)
    next
      fix x y assume "lookup hm' x \<noteq> None" "lookup hm' y \<noteq> None" "orig_phys (blocks s' x) = orig_phys (blocks s' y)"
      then show "x = y"
        using tracked_inj [OF ok, of x y] other [of x] other [of y] init(2)
        by (auto simp: lk s'(3) eq_cow_block_ptr_def tracked_def split: if_splits)
    qed (use s' inv in simp_all)
    moreover have "tracks s' a n \<longleftrightarrow> (if a = page_of phys then n = 1 else tracks s a n)" for a n
    proof -
      have "blocks s' x = blocks s x" if "x \<in> tracked s" for x
        using m(3) that by (auto simp: s'(3))
      moreover have "blocks s' b = \<lparr>orig_phys = page_of phys, refcount = 1\<rparr>"
        by (simp add: s'(3))
      ultimately show ?thesis
        using other unfolding tracks_def tr by (cases "a = page_of phys") (simp_all, auto)
    qed
    ultimately show ?thesis by blast
  qed
qed

lemma cow_add_tracked:
  assumes "cow_ok hm s" "tracks s (page_of phys) n"
  shows "cow_add_page phys s = cow_inc_refcount phys s"
proof (rule find_block_cases [OF assms(1), of "page_of phys"])
  fix b
  assume "find_block_by_phys (page_of phys) s = Some b" "b \<noteq> 0"
  then show ?thesis
    using assms(1) lookup_page [of "page_of phys"] lookup_page [of phys]
    by (simp add: cow_add_page_def cow_inc_refcount_def page_of_def [symmetric] cow_ok_def)
qed (use assms(2) in \<open>auto simp: tracks_def\<close>)

text \<open>
  C38: the table of blocks counts the references to each physical page. For a page that is not tracked,
  \<^verbatim>\<open>cow_add_page\<close> starts to track it with one reference, and increment and decrement report that it is not
  tracked. For a page with \<open>n\<close> references, adding and incrementing make it \<open>n + 1\<close>, up to the maximum, and
  decrementing makes it \<open>n - 1\<close>, or stops tracking it with the last reference. No other page changes its
  count. \<open>kmalloc\<close> is assumed to return fresh memory for the new block and its table entry.
\<close>

theorem cow_refcounts:
  assumes "cow_inv s" and "mallocs s = b # p # ms" and "b \<noteq> 0" and "b \<notin> tracked s" and "p \<noteq> 0"
  shows "((\<nexists>n. tracks s (page_of phys) n) \<longrightarrow>
      (\<exists>s'. cow_add_page phys s = Some (COW_OK, s') \<and> cow_inv s' \<and>
        (\<forall>a n. tracks s' a n \<longleftrightarrow> (if a = page_of phys then n = 1 else tracks s a n))) \<and>
      cow_inc_refcount phys s = Some (COW_ERR_NOT_COW, s) \<and> cow_dec_refcount phys s = Some (COW_ERR_NOT_COW, s)) \<and>
    (\<forall>n. tracks s (page_of phys) n \<longrightarrow>
      cow_add_page phys s = cow_inc_refcount phys s \<and>
      (if n = 0xFFFF then cow_inc_refcount phys s = Some (COW_ERR_MAX_REFCOUNT, s)
       else \<exists>s'. cow_inc_refcount phys s = Some (COW_OK, s') \<and> cow_inv s' \<and>
         (\<forall>a m. tracks s' a m \<longleftrightarrow> (if a = page_of phys then m = n + 1 else tracks s a m))) \<and>
      (\<exists>s'. cow_dec_refcount phys s = Some (COW_OK, s') \<and> cow_inv s' \<and>
        (\<forall>a m. tracks s' a m \<longleftrightarrow> (if a = page_of phys then 1 < n \<and> m = n - 1 else tracks s a m))))"
proof (intro conjI impI allI)
  obtain hm where ok: "cow_ok hm s"
    using assms(1) by (auto simp: cow_inv_def)
  fix n
  assume t: "tracks s (page_of phys) n"
  show "cow_add_page phys s = cow_inc_refcount phys s"
    by (rule cow_add_tracked [OF ok t])
  show "\<exists>s'. cow_dec_refcount phys s = Some (COW_OK, s') \<and> cow_inv s' \<and>
      (\<forall>a m. tracks s' a m \<longleftrightarrow> (if a = page_of phys then 1 < n \<and> m = n - 1 else tracks s a m))"
    using cow_dec_ok(2) [OF ok t] unfolding cow_inv_def by blast
  obtain c where c: "c \<in> tracked s" "orig_phys (blocks s c) = page_of phys" "unat (refcount (blocks s c)) = n"
    and inc: "cow_inc_refcount phys s = (if n = 0xFFFF then Some (COW_ERR_MAX_REFCOUNT, s)
        else Some (COW_OK, set_refcount c (atomic_inc (refcount (blocks s c))) s))"
    using cow_inc_ok(2) [OF ok t] by blast
  have n: "n \<le> 0xFFFF" using trackedD(5) [OF ok c(1)] c(3) by simp
  then have u: "unat (atomic_inc (refcount (blocks s c))) = n + 1"
    using atomic_inc_count [of "refcount (blocks s c)"] c(3) by simp
  show "if n = 0xFFFF then cow_inc_refcount phys s = Some (COW_ERR_MAX_REFCOUNT, s)
      else \<exists>s'. cow_inc_refcount phys s = Some (COW_OK, s') \<and> cow_inv s' \<and>
        (\<forall>a m. tracks s' a m \<longleftrightarrow> (if a = page_of phys then m = n + 1 else tracks s a m))"
    using inc n u c(2) set_refcount_ok [OF ok c(1), of "atomic_inc (refcount (blocks s c))"] by (auto simp: cow_inv_def)
next
  assume new: "\<nexists>n. tracks s (page_of phys) n"
  obtain hm where ok: "cow_ok hm s"
    using assms(1) by (auto simp: cow_inv_def)
  show "\<exists>s'. cow_add_page phys s = Some (COW_OK, s') \<and> cow_inv s' \<and>
      (\<forall>a n. tracks s' a n \<longleftrightarrow> (if a = page_of phys then n = 1 else tracks s a n))"
    using cow_add_new [OF ok new assms(2-5)] unfolding cow_inv_def by blast
  show "cow_inc_refcount phys s = Some (COW_ERR_NOT_COW, s)" "cow_dec_refcount phys s = Some (COW_ERR_NOT_COW, s)"
    using cow_inc_ok(1) [OF ok new] cow_dec_ok(1) [OF ok new] by blast+
qed

definition demo_cow :: "(addr \<Rightarrow> cow_block) \<Rightarrow> hashmap \<Rightarrow> page_state \<Rightarrow> cow_state" where
  "demo_cow bs hm ps = \<lparr>page_map = Some hm, regions = [],
     cstats = \<lparr>cow_faults_handled = 0, cow_pages_allocated = 0, cow_pages_freed = 0, cow_current_blocks = 0,
       cow_write_faults = 0, cow_coalesced = 0\<rparr>,
     cow_initialized = True, blocks = bs, mallocs = [512, 544], frees = [], pages = ps\<rparr>"

definition demo_table :: "hash_entry list \<Rightarrow> hashmap" where
  "demo_table es = \<lparr>map_at = 4096, buckets_at = 8192, buckets = [es], num_buckets = 1, hm_size = of_nat (length es),
     hash_func = hash_cow_block_ptr, eq_func = eq_cow_block_ptr\<rparr>"

lemma demo_table_lookup: "lookup (demo_table es) k = chain_get eq_cow_block_ptr k es"
  by (simp add: lookup_def demo_table_def bucket_index_def)

lemma demo_table_inv:
  assumes "\<And>e. e \<in> set es \<Longrightarrow> e_key e \<noteq> 0" and "distinct_keys eq_cow_block_ptr es"
  shows "hm_inv (demo_table es)"
  using assms by (simp add: hm_inv_def demo_table_def is_power_of_2_def chain_ok_def entries_def bucket_index_def)

lemma demo_cow_empty: "cow_ok (demo_table []) (demo_cow bs (demo_table []) ps)"
  using demo_table_inv [of "[]"] demo_table_lookup [of "[]"] by (simp add: cow_ok_def demo_cow_def demo_table_def)

theorem cow_refcounts_witness:
  "\<exists>s'. cow_add_page 0x5123 (demo_cow (\<lambda>_. \<lparr>orig_phys = 0, refcount = 0\<rparr>) (demo_table []) demo_pages) = Some (COW_OK, s') \<and>
     tracks s' 0x5000 1"
proof -
  let ?s = "demo_cow (\<lambda>_. \<lparr>orig_phys = 0, refcount = 0\<rparr>) (demo_table []) demo_pages"
  have "tracked ?s = {}"
    by (simp add: tracked_def demo_cow_def demo_table_lookup)
  moreover have "mallocs ?s = 512 # 544 # []" by (simp add: demo_cow_def)
  moreover have "cow_inv ?s" using demo_cow_empty cow_inv_def by blast
  moreover have "page_of 0x5123 = 0x5000" by (simp add: page_of_def PAGE_SIZE_def)
  moreover have "\<nexists>n. tracks ?s 0x5000 n" using calculation(1) by (simp add: tracks_def)
  ultimately show ?thesis
    using cow_refcounts [of ?s 512 544 "[]" "0x5123"] by auto
qed

subsection \<open>Write faults\<close>

lemma walk_found: "pte_phys (pt_entry s t i) \<noteq> 0 \<Longrightarrow> walk_or_create t i al s = Some (PAGE_OK, pte_phys (pt_entry s t i), s)"
  by (simp add: walk_or_create_def get_or_create_table_def)

text \<open>Mapping a page that is mapped fails, whatever the flags, and changes nothing.\<close>

lemma page_map_mapped:
  assumes inv: "pt_inv r s" and t: "translation r s v = Some (False, x)"
  shows "\<exists>err. err \<noteq> PAGE_OK \<and> page_map_page r v p flags al s = Some (err, s)"
proof -
  note I = pt_invD [OF inv]
  let ?a = "PML4_INDEX v" and ?b = "PDPT_INDEX v" and ?c = "PD_INDEX v" and ?d = "PT_INDEX v"
  define t3 where "t3 = pte_phys (pt_entry s r ?a)"
  define t2 where "t2 = pte_phys (pt_entry s t3 ?b)"
  define t1 where "t1 = pte_phys (pt_entry s t2 ?c)"
  have pr: "has_table (pt_entry s r ?a)" "has_table (pt_entry s t3 ?b)" "has_table (pt_entry s t2 ?c)" "pte_present (pt_entry s t1 ?d)"
    using t by (auto simp: translation_def idx_def t3_def t2_def t1_def split: if_splits)
  have "path [?a]" "path [?a, ?b]" "path [?a, ?b, ?c]" by (simp_all add: path_def indices_def)
  moreover have "node (pt_entry s) r [?a] = Some t3" "node (pt_entry s) r [?a, ?b] = Some t2" "node (pt_entry s) r [?a, ?b, ?c] = Some t1"
    using pr by (simp_all add: t3_def t2_def t1_def)
  ultimately have nz: "t3 \<noteq> 0" "t2 \<noteq> 0" "t1 \<noteq> 0"
    using I(5) tables_node by blast+
  have w: "walk_or_create r ?a al s = Some (PAGE_OK, t3, s)" "walk_or_create t3 ?b al s = Some (PAGE_OK, t2, s)"
      "walk_or_create t2 ?c al s = Some (PAGE_OK, t1, s)"
    using walk_found nz by (simp_all add: t3_def t2_def t1_def)
  show ?thesis
    using I(1,2) pr w by (auto simp: page_map_page_def Let_def)
qed

lemma cow_flags: "\<not> bit x 1 \<Longrightarrow> (x AND 0xFFF) AND PAGE_WRITE = 0" "bit x 9 \<Longrightarrow> cow_is_cow_page (x AND 0xFFF)"
proof -
  have m: "(0xFFF :: u64) = mask 12"
    by (simp add: mask_eq_exp_minus_1)
  show "(x AND 0xFFF) AND PAGE_WRITE = 0" if "\<not> bit x 1"
    unfolding m PAGE_WRITE_def using that by (intro bit_eqI) (auto simp: bit_simps)
  have "bit ((x AND 0xFFF) AND COW_FLAG_MASK) 9" if "bit x 9"
    unfolding m COW_FLAG_MASK_def using that by (auto simp: bit_simps)
  then show "cow_is_cow_page (x AND 0xFFF)" if "bit x 9"
    unfolding cow_is_cow_page_def using that by (metis bit_0_eq bot_apply bot_bool_def)
qed

lemma upd_cstats_simps [simp]:
  "pages (upd_cstats f s) = pages s" "page_map (upd_cstats f s) = page_map s" "blocks (upd_cstats f s) = blocks s"
  "cow_initialized (upd_cstats f s) = cow_initialized s" "find_block_by_phys a (upd_cstats f s) = find_block_by_phys a s"
  "cow_ok hm (upd_cstats f s) = cow_ok hm s" "tracks (upd_cstats f s) = tracks s" "tracked (upd_cstats f s) = tracked s"
proof -
  have "search_by_phys_iterator (upd_cstats f s) = search_by_phys_iterator s" "page_map (upd_cstats f s) = page_map s"
      "cow_initialized (upd_cstats f s) = cow_initialized s"
    by (simp_all add: search_by_phys_iterator_def upd_cstats_def fun_eq_iff)
  then show "find_block_by_phys a (upd_cstats f s) = find_block_by_phys a s"
    unfolding find_block_by_phys_def by (simp only:)
qed (simp_all add: upd_cstats_def cow_ok_def tracks_def tracked_def fun_eq_iff)

lemma cow_copy_frame:
  assumes inv: "pt_inv r ps" and a: "a \<in> pf_in_use (pool ps)"
  obtains (oom) "pframe_alloc (Some 0) (pool ps) = Some (PFRAME_ERR_OOM, Some 0, pool ps)"
  | (copied) f P m where "pframe_alloc (Some 0) (pool ps) = Some (PFRAME_OK, Some f, P)"
      "f \<notin> pf_in_use (pool ps)" "pf_in_use P = insert f (pf_in_use (pool ps))"
      "memcpy (phys_to_virt f) (phys_to_virt a) PAGE_SIZE (dmem ps) = Some (phys_to_virt f, m)"
      "pt_inv r (ps\<lparr>pool := P, dmem := m\<rparr>)" "\<And>v. translation r (ps\<lparr>pool := P, dmem := m\<rparr>) v = translation r ps v"
proof -
  note I = pt_invD [OF inv]
  consider "pframe_alloc (Some 0) (pool ps) = Some (PFRAME_ERR_OOM, Some 0, pool ps)"
    | f P where "f < frames (pool ps)" "f \<notin> allocated (pool ps)" "pframe_ok P" "allocated P = insert f (allocated (pool ps))"
        "pframe_alloc (Some 0) (pool ps) = Some (PFRAME_OK, Some (frame_addr f), P)"
    using pframe_alloc_ok [OF I(3), of 0] next_fitD by blast
  then show thesis
  proof cases
    case (2 g P)
    define f where "f = frame_addr g"
    have in_use: "pf_in_use P = insert f (pf_in_use (pool ps))"
      using 2(4) by (simp add: pf_in_use_def f_def)
    have new: "f \<notin> pf_in_use (pool ps)"
      unfolding f_def by (rule in_use_insert [OF I(3) 2(1,2)])
    have f: "is_page_aligned f" "unat f < 2 ^ 36"
      using in_use_frame [OF 2(3), of f] in_use by auto
    have al: "is_page_aligned a" "unat a < 2 ^ 36" using in_use_frame [OF I(3) a] by auto
    have u: "unat (phys_to_virt x) = unat DIRECT_MAP_BASE + unat x" if "unat x < 2 ^ 36" for x
      unfolding phys_to_virt_def using that by (intro unat_add_small) (simp add: DIRECT_MAP_BASE_def)
    have "f \<noteq> a" using new a by auto
    then have "4096 \<le> unat (f - a)" "4096 \<le> unat (a - f)"
      using aligned_diff f(1) al(1) by blast+
    then have sep: "unat f + 4096 \<le> unat a \<or> unat a + 4096 \<le> unat f"
      by (auto simp: unat_sub_if' split: if_splits)
    let ?m = "overwrite (phys_to_virt f) 4096 (\<lambda>k. dmem ps (phys_to_virt a + k)) (dmem ps)"
    have cp: "memcpy (phys_to_virt f) (phys_to_virt a) PAGE_SIZE (dmem ps) = Some (phys_to_virt f, ?m)"
      using memcpy_ok [of "phys_to_virt f" "phys_to_virt a" PAGE_SIZE "dmem ps"] sep f(2) al(2) u phys_to_virt_not_null
      by (auto simp: PAGE_SIZE_def DIRECT_MAP_BASE_def)
    let ?ps = "ps\<lparr>pool := P, dmem := ?m\<rparr>"
    have e: "pt_entry ?ps t i = pt_entry ps t i" if "t \<in> tables (pt_entry ps) r" "i < 512" for t i
    proof -
      have "is_page_aligned t" "t \<noteq> f" using I(5) [OF that(1)] new by auto
      then show ?thesis using overwrite_frame [OF f(1), of t i] that(2) by (simp add: pt_entry_def)
    qed
    note c = pt_inv_cong [OF inv e, simplified]
    show thesis
      using 2(5) new in_use cp c I(1,2) 2(3) by (intro copied [of f P ?m]) (auto simp: f_def)
  qed (rule oom)
qed

end
