(* ===== verification/Cow_Fault.thy ===== *)
theory Cow_Fault
  imports Cow_Props
begin

text \<open>
  Write faults on copy-on-write pages (\<open>cow_handle_fault\<close> in \<open>kernel/mm/vmm/cow.c\<close>): what the handler does with a
  page that is present, read-only and marked, and a concrete address space on which it runs.
\<close>

text \<open>A page fault on a tracked page that is present, read-only and marked.\<close>

definition cow_fault_at :: "physical_addr \<Rightarrow> virtual_addr \<Rightarrow> u64 \<Rightarrow> nat \<Rightarrow> cow_state \<Rightarrow> bool" where
  "cow_fault_at r v x n s \<longleftrightarrow> cow_inv s \<and> pt_inv r (pages s) \<and> translation r (pages s) v = Some (False, x) \<and>
     \<not> bit x 1 \<and> bit x 9 \<and> tracks s (pte_phys x) n \<and> pte_phys x \<in> pf_in_use (pool (pages s))"

lemma cow_make_writable_mapped:
  assumes "pt_inv r (pages s)" "translation r (pages s) v = Some (False, x)"
  shows "cow_make_writable r v p s = Some (COW_ERR_INVALID, s\<lparr>pages := page_invalidate_tlb v (pages s)\<rparr>)"
  using page_map_mapped [OF assms, of p "cow_clear_cow_flag (x AND 0xFFF OR PAGE_WRITE)" False]
  by (auto simp: cow_make_writable_def page_query_walk [OF assms(1)] assms(2) query_of_def entry_result_def Let_def)

lemma cow_ok_pages: "cow_ok hm (s\<lparr>pages := ps\<rparr>) = cow_ok hm s" "tracks (s\<lparr>pages := ps\<rparr>) = tracks s"
  by (simp_all add: cow_ok_def tracks_def tracked_def fun_eq_iff)

lemma cow_copy_mapped:
  assumes ok: "cow_ok hm s" and inv: "pt_inv r (pages s)" and t: "translation r (pages s) v = Some (False, x)"
    and n: "tracks s a n" and a: "a \<in> pf_in_use (pool (pages s))"
  shows "(\<exists>s'. cow_copy_on_write r v a b s = Some (COW_ERR_OOM, s') \<and> pages s' = pages s \<and> tracks s' = tracks s) \<or>
    (\<exists>s' f. cow_copy_on_write r v a b s = Some (COW_OK, s') \<and> f \<notin> pf_in_use (pool (pages s)) \<and>
      pf_in_use (pool (pages s')) = insert f (pf_in_use (pool (pages s))) \<and>
      (\<forall>v'. translation r (pages s') v' = translation r (pages s) v') \<and>
      (\<forall>a' m. tracks s' a' m \<longleftrightarrow> (if a' = a then 1 < n \<and> m = n - 1 else tracks s a' m)))"
proof (rule cow_copy_frame [OF inv a])
  assume "pframe_alloc (Some 0) (pool (pages s)) = Some (PFRAME_ERR_OOM, Some 0, pool (pages s))"
  then show ?thesis
    by (intro disjI1) (simp add: cow_copy_on_write_def cow_ok_pages)
next
  fix f P m
  let ?ps = "(pages s)\<lparr>pool := P, dmem := m\<rparr>"
  assume f: "pframe_alloc (Some 0) (pool (pages s)) = Some (PFRAME_OK, Some f, P)"
      "f \<notin> pf_in_use (pool (pages s))" "pf_in_use P = insert f (pf_in_use (pool (pages s)))"
      "memcpy (phys_to_virt f) (phys_to_virt a) PAGE_SIZE (dmem (pages s)) = Some (phys_to_virt f, m)"
      "pt_inv r ?ps" "\<And>v. translation r ?ps v = translation r (pages s) v"
  have "is_page_aligned a"
    using in_use_frame [OF pt_invD(3) [OF inv] a] by simp
  then have pa: "page_of a = a"
    by (rule aligned_page_of)
  let ?s = "s\<lparr>pages := ?ps\<rparr>"
  have "cow_ok hm ?s" "tracks ?s (page_of a) n"
    using ok n by (simp_all add: cow_ok_pages pa)
  then obtain s1 where s1: "cow_dec_refcount a ?s = Some (COW_OK, s1)" "pages s1 = ?ps"
      "\<And>a' m. tracks s1 a' m \<longleftrightarrow> (if a' = a then 1 < n \<and> m = n - 1 else tracks s a' m)"
    using cow_dec_ok(2) [of hm ?s a n] by (auto simp: pa cow_ok_pages)
  have t': "translation r ?ps v = Some (False, x)"
    using f(6) t by simp
  have q: "page_query r v (Some no_mapping) ?ps = Some (query_of (Some (False, x)))"
    using page_query_walk [OF f(5)] t' by simp
  have "\<forall>fl. \<exists>e. page_map_page r v f fl False ?ps = Some (e, ?ps)"
    using page_map_mapped [OF f(5) t'] by blast
  then obtain err where err: "\<And>fl. page_map_page r v f fl False ?ps = Some (err fl, ?ps)"
    by metis
  have "\<exists>s'. cow_copy_on_write r v a b s = Some (COW_OK, s') \<and> pages s' = page_invalidate_tlb v ?ps \<and> tracks s' = tracks s1"
    using f(1,4) s1(1,2) q err
    by (simp add: cow_copy_on_write_def query_of_def entry_result_def Let_def cow_ok_pages)
  then show ?thesis
    using f(2,3,6) s1(3) by (intro disjI2) (fastforce simp: translation_def)
qed


text \<open>
  An address space for the witness: the tables at 0x1000, 0x2000, 0x3000 and 0x4000 map the page 0 to the frame
  0x5000, read-only and marked; the frames 0 to 5 of 8 are in use.
\<close>

definition demo_marked :: page_state where
  "demo_marked = set_entry 0x1000 0 0x2003 (set_entry 0x2000 0 0x3003 (set_entry 0x3000 0 0x4003
     (set_entry 0x4000 0 0x5205 (demo_pages\<lparr>pool := small_pool 0x3F\<rparr>))))"

definition demo_links :: ents where
  "demo_links t i = (if i \<noteq> 0 then 0 else if t = 0x1000 then 0x2003 else if t = 0x2000 then 0x3003
     else if t = 0x3000 then 0x4003 else if t = 0x4000 then 0x5205 else 0)"

lemma demo_marked_entry: "is_page_aligned t \<Longrightarrow> i < 512 \<Longrightarrow> pt_entry demo_marked t i = demo_links t i"
proof -
  assume a: "is_page_aligned t" "i < 512"
  have al: "is_page_aligned 0x1000" "is_page_aligned 0x2000" "is_page_aligned 0x3000" "is_page_aligned 0x4000"
    by (simp_all add: is_page_aligned_def)
  have z: "pt_entry (demo_pages\<lparr>pool := small_pool 0x3F\<rparr>) t i = 0"
    using demo_entry [of t i] by (simp add: pt_entry_def)
  have s: "pt_entry (set_entry u 0 x s) t i = (if t = u \<and> i = 0 then x else pt_entry s t i)" if "is_page_aligned u" for u x s
    using pt_entry_set_same pt_entry_set_other [OF that a(1), of 0 i x s] a(2) by auto
  show ?thesis
    unfolding demo_marked_def s [OF al(1)] s [OF al(2)] s [OF al(3)] s [OF al(4)] z demo_links_def by auto
qed

lemma demo_links_table:
  "has_table (demo_links t i) \<longleftrightarrow> i = 0 \<and> t \<in> {0x1000, 0x2000, 0x3000, 0x4000}"
  "pte_phys (demo_links 0x1000 0) = 0x2000" "pte_phys (demo_links 0x2000 0) = 0x3000" "pte_phys (demo_links 0x3000 0) = 0x4000"
proof -
  have b: "bit (0x2003 :: u64) 0" "bit (0x3003 :: u64) 0" "bit (0x4003 :: u64) 0" "bit (0x5205 :: u64) 0"
      "\<not> bit (0x2003 :: u64) 7" "\<not> bit (0x3003 :: u64) 7" "\<not> bit (0x4003 :: u64) 7" "\<not> bit (0x5205 :: u64) 7"
    by code_simp+
  then show "has_table (demo_links t i) \<longleftrightarrow> i = 0 \<and> t \<in> {0x1000, 0x2000, 0x3000, 0x4000}"
    by (auto simp: demo_links_def pte_present_def pte_pat_def)
  show "pte_phys (demo_links 0x1000 0) = 0x2000" "pte_phys (demo_links 0x2000 0) = 0x3000" "pte_phys (demo_links 0x3000 0) = 0x4000"
    by code_simp+
qed

lemma demo_marked_node:
  assumes "path p"
  shows "node (pt_entry demo_marked) 0x1000 p = Some t \<longleftrightarrow> (p, t) \<in> {([], 0x1000), ([0], 0x2000), ([0, 0], 0x3000), ([0, 0, 0], 0x4000)}"
proof -
  have al: "is_page_aligned 0x1000" "is_page_aligned 0x2000" "is_page_aligned 0x3000" "is_page_aligned 0x4000"
    by (simp_all add: is_page_aligned_def)
  consider "p = []" | i where "p = [i]" "i < 512" | i j where "p = [i, j]" "i < 512" "j < 512"
    | i j k where "p = [i, j, k]" "i < 512" "j < 512" "k < 512"
    using assms by (cases p rule: remdups_adj.cases; cases "tl (tl p)") (auto simp: path_def indices_def)
  then show ?thesis
    by cases (auto simp: demo_marked_entry al demo_links_table)
qed

lemma demo_marked_in_use: "pf_in_use (small_pool 0x3F) = {0, 0x1000, 0x2000, 0x3000, 0x4000, 0x5000}"
proof -
  have f: "frame_addr 0 = 0" "frame_addr 1 = 0x1000" "frame_addr 2 = 0x2000" "frame_addr 3 = 0x3000"
      "frame_addr 4 = 0x4000" "frame_addr 5 = 0x5000"
    by (simp_all add: frame_addr_def frame_to_addr_def)
  have m: "(0x3F :: u8) = mask 6"
    by (simp add: mask_eq_exp_minus_1)
  have "bm_bit \<lparr>bm_bits = [0x3F], bm_nbits = 8\<rparr> i \<longleftrightarrow> i < 6" if "i < 8" for i
    unfolding m using that by (simp add: bm_bit_def bit_simps)
  then have "allocated (small_pool 0x3F) = {..<6}"
    by (auto simp: allocated_def small_pool_def bm_members_def bm_size_def)
  also have "\<dots> = {0, 1, 2, 3, 4, 5}"
    by auto
  finally show ?thesis
    by (simp only: pf_in_use_def f image_insert image_empty)
qed

lemma demo_marked_inv: "pt_inv 0x1000 demo_marked"
proof -
  have al: "is_page_aligned t" if "t \<in> {0x1000, 0x2000, 0x3000, 0x4000}" for t
    using that by (auto simp: is_page_aligned_def)
  have tab: "t \<in> {0x1000, 0x2000, 0x3000, 0x4000}" if "t \<in> tables (pt_entry demo_marked) 0x1000" for t
    using that by (auto simp: tables_def demo_marked_node)
  have "tree (pt_entry demo_marked) 0x1000"
    unfolding tree_def using al tab by (auto simp: demo_marked_node)
  moreover have "pool demo_marked = small_pool 0x3F" "s_initialized demo_marked" "s_direct_map_established demo_marked"
    by (simp_all add: demo_marked_def demo_pages_def set_entry_def)
  moreover have "has_table (pt_entry demo_marked 0x1000 i) \<or> \<not> pte_present (pt_entry demo_marked 0x1000 i)" if "i < 512" for i
  proof (cases "i = 0")
    case True
    then show ?thesis using demo_links_table(1) [of "0x1000" 0] al by (simp add: demo_marked_entry)
  next
    case False
    then show ?thesis using that al by (simp add: demo_marked_entry demo_links_def no_table_0)
  qed
  moreover have "pte_frame (pt_entry demo_marked t i) = 0"
    if "path (p @ [i])" "node (pt_entry demo_marked) 0x1000 p = Some t" "\<not> pte_present (pt_entry demo_marked t i)" for p i t
  proof -
    have "path p" "i < 512" using that(1) by (auto simp: path_def indices_def)
    then have t: "t \<in> {0x1000, 0x2000, 0x3000, 0x4000}" using that(2) by (auto simp: demo_marked_node)
    then have "i \<noteq> 0" using that(3) al demo_links_table(1) [of t i] \<open>i < 512\<close> by (auto simp: demo_marked_entry)
    then show ?thesis using t al \<open>i < 512\<close> by (simp add: demo_marked_entry demo_links_def pte_frame_def)
  qed
  moreover have "tables (pt_entry demo_marked) 0x1000 \<subseteq> pf_in_use (small_pool 0x3F) - {0}"
    using tab by (force simp: demo_marked_in_use)
  ultimately show ?thesis
    unfolding pt_inv_def using small_pool_ok demo_marked_in_use by auto
qed

lemma demo_marked_translation: "translation 0x1000 demo_marked 0 = Some (False, 0x5205)"
proof -
  have "is_page_aligned 0x1000" "is_page_aligned 0x2000" "is_page_aligned 0x3000" "is_page_aligned 0x4000"
    by (simp_all add: is_page_aligned_def)
  moreover have "demo_links 0x4000 0 = 0x5205" by (simp add: demo_links_def)
  ultimately show ?thesis
    using demo_links_table(1) [of "0x1000" 0] demo_links_table(1) [of "0x2000" 0] demo_links_table(1) [of "0x3000" 0]
      demo_links_table(1) [of "0x4000" 0]
    by (simp add: translation_def idx_def PML4_INDEX_def PDPT_INDEX_def PD_INDEX_def PT_INDEX_def demo_marked_entry demo_links_table(2-))
qed

definition demo_shared :: cow_state where
  "demo_shared = demo_cow (\<lambda>_. \<lparr>orig_phys = 0x5000, refcount = 2\<rparr>)
     (demo_table [\<lparr>e_at = 544, e_key = 512, e_val = 512\<rparr>]) demo_marked"

lemma demo_shared_fault: "cow_fault_at 0x1000 0 0x5205 2 demo_shared"
proof -
  let ?hm = "demo_table [\<lparr>e_at = 544, e_key = 512, e_val = 512\<rparr>]"
  have l: "lookup ?hm b = (if b = 512 then Some 512 else None)" for b
    by (simp add: demo_table_lookup eq_cow_block_ptr_def)
  have "hm_inv ?hm"
    by (rule demo_table_inv) simp_all
  then have "cow_ok ?hm demo_shared"
    by (auto simp: cow_ok_def demo_shared_def demo_cow_def l is_page_aligned_def) (auto simp: demo_table_def)
  then have "cow_inv demo_shared" unfolding cow_inv_def by blast
  moreover have "pte_phys 0x5205 = 0x5000" "bit (0x5205 :: u64) 9" "\<not> bit (0x5205 :: u64) 1"
    by code_simp+
  moreover have "tracks demo_shared 0x5000 2"
    by (simp add: tracks_def tracked_def demo_shared_def demo_cow_def l)
  moreover have "pages demo_shared = demo_marked" "pool demo_marked = small_pool 0x3F"
    by (simp_all add: demo_shared_def demo_cow_def demo_marked_def set_entry_def)
  ultimately show ?thesis
    using demo_marked_inv demo_marked_translation demo_marked_in_use by (simp add: cow_fault_at_def)
qed


end
