(* ===== verification/Interleave.thy ===== *)
theory Interleave
  imports CCOS_Prelude
begin

text \<open>
  Interleavings of processes that call operations on a shared object.

  A process is a program counter. \<open>call pc pc'\<close> says that a process at \<open>pc\<close>, which is outside every operation,
  may begin the operation whose first statement is \<open>pc'\<close>. \<open>run t pc m\<close> executes the statement of process \<open>t\<close> at
  \<open>pc\<close>: the new program counter, the shared object and the events of the statement; it is \<open>None\<close> outside the
  operations. Every access to a shared variable is a statement of its own; a section that holds a spinlock runs
  with interrupts disabled on the one processor of the kernel and is one statement. Processes are named by their
  PID, which is less than \<open>PID_MAX\<close>.
\<close>

type_synonym tid = nat

definition PID_MAX :: nat where "PID_MAX = 32768"

inductive interleaves ::
  "('pc \<Rightarrow> 'pc \<Rightarrow> bool) \<Rightarrow> (tid \<Rightarrow> 'pc \<Rightarrow> 'm \<Rightarrow> ('pc \<times> 'm \<times> 'e list) option) \<Rightarrow>
   (tid \<Rightarrow> 'pc) \<times> 'm \<Rightarrow> 'e list \<Rightarrow> (tid \<Rightarrow> 'pc) \<times> 'm \<Rightarrow> bool"
  for call run s where
  start: "interleaves call run s [] s"
| call: "interleaves call run s es (ps, m) \<Longrightarrow> t < PID_MAX \<Longrightarrow> call (ps t) pc \<Longrightarrow>
    interleaves call run s es (ps(t := pc), m)"
| run: "interleaves call run s es (ps, m) \<Longrightarrow> run t (ps t) m = Some (pc, m', e) \<Longrightarrow>
    interleaves call run s (es @ e) (ps(t := pc), m')"

text \<open>One given interleaving: each element names a process and the operation it begins, if any.\<close>

fun execute ::
  "('pc \<Rightarrow> 'pc \<Rightarrow> bool) \<Rightarrow> (tid \<Rightarrow> 'pc \<Rightarrow> 'm \<Rightarrow> ('pc \<times> 'm \<times> 'e list) option) \<Rightarrow>
   (tid \<times> 'pc option) list \<Rightarrow> 'e list \<Rightarrow> (tid \<Rightarrow> 'pc) \<times> 'm \<Rightarrow> ('e list \<times> (tid \<Rightarrow> 'pc) \<times> 'm) option" where
  "execute call run [] es s = Some (es, s)"
| "execute call run ((t, Some pc) # as) es (ps, m) =
     (if t < PID_MAX \<and> call (ps t) pc then execute call run as es (ps(t := pc), m) else None)"
| "execute call run ((t, None) # as) es (ps, m) =
     (case run t (ps t) m of None \<Rightarrow> None
      | Some (pc, m', e) \<Rightarrow> execute call run as (es @ e) (ps(t := pc), m'))"

lemma execute_interleaves:
  assumes "interleaves call run s es s'" "execute call run as es s' = Some (es'', s'')"
  shows "interleaves call run s es'' s''"
  using assms
proof (induction as arbitrary: es s')
  case (Cons a as)
  obtain t c ps m where [simp]: "a = (t, c)" "s' = (ps, m)"
    by (cases a; cases s')
  show ?case
  proof (cases c)
    case None
    then show ?thesis
      using Cons.prems Cons.IH [OF interleaves.run] by (auto split: option.splits)
  next
    case (Some pc)
    then show ?thesis
      using Cons.prems Cons.IH [OF interleaves.call] by (auto split: if_splits)
  qed
qed simp

text \<open>An invariant of the statements is an invariant of every interleaving.\<close>

locale interleaving_invariant =
  fixes call :: "'pc \<Rightarrow> 'pc \<Rightarrow> bool"
    and run :: "tid \<Rightarrow> 'pc \<Rightarrow> 'm \<Rightarrow> ('pc \<times> 'm \<times> 'e list) option"
    and inv :: "'e list \<Rightarrow> (tid \<Rightarrow> 'pc) \<Rightarrow> 'm \<Rightarrow> bool"
  assumes inv_call: "inv es ps m \<Longrightarrow> t < PID_MAX \<Longrightarrow> call (ps t) pc \<Longrightarrow> inv es (ps(t := pc)) m"
    and inv_run: "inv es ps m \<Longrightarrow> run t (ps t) m = Some (pc, m', e) \<Longrightarrow> inv (es @ e) (ps(t := pc)) m'"
begin

lemma invariant:
  assumes "interleaves call run (ps0, m0) es s" "inv [] ps0 m0"
  shows "inv es (fst s) (snd s)"
  using assms by (induction rule: interleaves.induct) (auto intro: inv_call inv_run)

end

end
