(* ===== verification/Locks.thy ===== *)
theory Locks
  imports Interleave Atomic
begin

unbundle bit_operations_syntax

text \<open>
  The locks of \<open>kernel/sync\<close>: spinlocks, mutexes, semaphores and reader-writer locks.

  A blocking lock is modelled by its data and, for each operation, the statements that access the data, as
  functions on the program counter of the calling process (theory \<open>Interleave\<close>). A wait list is the list of the
  waiting processes; each process waits at most once, so the list node on its stack is named by the process.
  \<open>sleep_on\<close> gives up the processor; the model lets it return at any later time, because \<open>schedule\<close> returns at
  once to the caller when no other process is ready and otherwise after a wake-up. What \<open>mutex_unlock\<close> and
  \<open>sem_post\<close> do with the first waiter, make it ready and put it on the run queue, is the event \<open>Woken\<close>.
\<close>

subsection \<open>Spinlocks\<close>

record spinlock =
  sl_locked :: u32

text \<open>The built-in operations access the byte at the address of the lock; the result of the first is its old value.\<close>

definition test_and_set :: "spinlock \<Rightarrow> bool \<times> spinlock" where
  "test_and_set l = (sl_locked l AND 0xFF \<noteq> 0, l\<lparr>sl_locked := sl_locked l AND NOT 0xFF OR 1\<rparr>)"

definition atomic_clear :: "spinlock \<Rightarrow> spinlock" where
  "atomic_clear l = l\<lparr>sl_locked := sl_locked l AND NOT 0xFF\<rparr>"

definition spin_lock_init :: "spinlock \<Rightarrow> spinlock" where
  "spin_lock_init l = l\<lparr>sl_locked := 0\<rparr>"

definition spin_is_locked :: "spinlock \<Rightarrow> bool" where
  "spin_is_locked l \<longleftrightarrow> sl_locked l \<noteq> 0"

text \<open>Nobody else changes the lock while the processor spins, so a lock that is taken is waited for forever.\<close>

partial_function (option) spin_lock_raw :: "spinlock \<Rightarrow> spinlock option" where
  "spin_lock_raw l = (let (was, l) = test_and_set l in if was then spin_lock_raw l else Some l)"

definition spin_unlock_raw :: "spinlock \<Rightarrow> spinlock" where
  "spin_unlock_raw l = atomic_clear l"

definition spin_lock :: "spinlock \<Rightarrow> spinlock option" where
  "spin_lock l = do { ccos_assert (\<not> spin_is_locked l); spin_lock_raw l }"

definition spin_trylock :: "spinlock \<Rightarrow> bool \<times> spinlock" where
  "spin_trylock l = (let (was, l) = test_and_set l in (\<not> was, l))"

definition spin_unlock :: "spinlock \<Rightarrow> spinlock" where
  "spin_unlock l = atomic_clear l"

text \<open>The flags register; bit 9 is the interrupt flag.\<close>

definition interrupt_enable :: "u64 \<Rightarrow> u64" where "interrupt_enable rflags = rflags OR 0x200"
definition interrupt_disable :: "u64 \<Rightarrow> u64" where "interrupt_disable rflags = rflags AND NOT 0x200"

definition spin_lock_irq :: "spinlock \<Rightarrow> u64 \<Rightarrow> (spinlock \<times> u64) option" where
  "spin_lock_irq l rflags = do { let rflags = interrupt_disable rflags; l \<leftarrow> spin_lock l; Some (l, rflags) }"

definition spin_unlock_irq :: "spinlock \<Rightarrow> u64 \<Rightarrow> spinlock \<times> u64" where
  "spin_unlock_irq l rflags = (spin_unlock l, interrupt_enable rflags)"

definition spin_lock_irqsave :: "spinlock \<Rightarrow> u64 \<Rightarrow> (u64 \<times> spinlock \<times> u64) option" where
  "spin_lock_irqsave l rflags = do {
     let flags = rflags;
     let rflags = interrupt_disable rflags;
     l \<leftarrow> spin_lock l;
     Some (flags, l, rflags)
   }"

definition spin_unlock_irqrestore :: "spinlock \<Rightarrow> u64 \<Rightarrow> u64 \<Rightarrow> spinlock \<times> u64" where
  "spin_unlock_irqrestore l flags rflags =
     (let l = spin_unlock l in (l, if flags AND 0x200 \<noteq> 0 then interrupt_enable rflags else rflags))"

definition spin_lock_irqsave_raw :: "spinlock \<Rightarrow> u64 \<Rightarrow> (u64 \<times> spinlock \<times> u64) option" where
  "spin_lock_irqsave_raw l rflags = do {
     let flags = rflags;
     let rflags = interrupt_disable rflags;
     l \<leftarrow> spin_lock_raw l;
     Some (flags, l, rflags)
   }"

definition spin_unlock_irqrestore_raw :: "spinlock \<Rightarrow> u64 \<Rightarrow> u64 \<Rightarrow> spinlock \<times> u64" where
  "spin_unlock_irqrestore_raw l flags rflags =
     (let l = spin_unlock_raw l in (l, if flags AND 0x200 \<noteq> 0 then interrupt_enable rflags else rflags))"

subsection \<open>Mutexes\<close>

record mutex =
  m_locked :: atomic
  m_owner :: "tid option"
  m_count :: u32
  m_wait_list :: "tid list"

datatype mutex_pc =
  MIdle | MHeld
| MFast | MFastOwner | MFastCount | MSlow | MTestLocked | MTestOwner | MSleep | MTake | MTakeOwner | MTakeCount | MRemove
| MTry
| MUnlock | MDropOwner | MDropCount | MDropLocked | MWake

datatype wake_event = Woken tid

definition mutex_init :: "mutex \<Rightarrow> mutex" where
  "mutex_init m = m\<lparr>m_locked := atomic_write 0 (m_locked m), m_owner := None, m_count := 0, m_wait_list := []\<rparr>"

text \<open>\<open>MHeld\<close>: the operation has returned and the caller takes the mutex for its own.\<close>

definition mutex_lock :: "tid \<Rightarrow> mutex_pc \<Rightarrow> mutex \<Rightarrow> (mutex_pc \<times> mutex \<times> wake_event list) option" where
  "mutex_lock current pc m = (case pc of
     MFast \<Rightarrow> let (ok, l) = atomic_compare_and_swap 0 1 (m_locked m)
       in Some (if ok then MFastOwner else MSlow, m\<lparr>m_locked := l\<rparr>, [])
   | MFastOwner \<Rightarrow> Some (MFastCount, m\<lparr>m_owner := Some current\<rparr>, [])
   | MFastCount \<Rightarrow> Some (MHeld, m\<lparr>m_count := 1\<rparr>, [])
   | MSlow \<Rightarrow> let (ok, l) = atomic_compare_and_swap 0 1 (m_locked m); m = m\<lparr>m_locked := l\<rparr>
       in if ok then Some (MHeld, m\<lparr>m_owner := Some current, m_count := 1\<rparr>, [])
          else Some (MTestLocked, m\<lparr>m_wait_list := m_wait_list m @ [current]\<rparr>, [])
   | MTestLocked \<Rightarrow> Some (if atomic_read (m_locked m) \<noteq> 0 then MSleep else MTestOwner, m, [])
   | MTestOwner \<Rightarrow> Some (if m_owner m \<noteq> None then MSleep else MTake, m, [])
   | MSleep \<Rightarrow> Some (MTestLocked, m, [])
   | MTake \<Rightarrow> Some (MTakeOwner, m\<lparr>m_locked := atomic_write 1 (m_locked m)\<rparr>, [])
   | MTakeOwner \<Rightarrow> Some (MTakeCount, m\<lparr>m_owner := Some current\<rparr>, [])
   | MTakeCount \<Rightarrow> Some (MRemove, m\<lparr>m_count := 1\<rparr>, [])
   | MRemove \<Rightarrow> Some (MHeld, m\<lparr>m_wait_list := removeAll current (m_wait_list m)\<rparr>, [])
   | _ \<Rightarrow> None)"

text \<open>After the compare-and-swap \<open>mutex_trylock\<close> has the statements of the fast path of \<open>mutex_lock\<close>.\<close>

definition mutex_trylock :: "tid \<Rightarrow> mutex_pc \<Rightarrow> mutex \<Rightarrow> (mutex_pc \<times> mutex \<times> wake_event list) option" where
  "mutex_trylock current pc m = (case pc of
     MTry \<Rightarrow> let (ok, l) = atomic_compare_and_swap 0 1 (m_locked m)
       in Some (if ok then MFastOwner else MIdle, m\<lparr>m_locked := l\<rparr>, [])
   | _ \<Rightarrow> None)"

definition mutex_unlock :: "tid \<Rightarrow> mutex_pc \<Rightarrow> mutex \<Rightarrow> (mutex_pc \<times> mutex \<times> wake_event list) option" where
  "mutex_unlock current pc m = (case pc of
     MUnlock \<Rightarrow> Some (if m_owner m \<noteq> Some current then MIdle else MDropOwner, m, [])
   | MDropOwner \<Rightarrow> Some (MDropCount, m\<lparr>m_owner := None\<rparr>, [])
   | MDropCount \<Rightarrow> Some (MDropLocked, m\<lparr>m_count := 0\<rparr>, [])
   | MDropLocked \<Rightarrow> Some (MWake, m\<lparr>m_locked := atomic_write 0 (m_locked m)\<rparr>, [])
   | MWake \<Rightarrow> (case m_wait_list m of
       [] \<Rightarrow> Some (MIdle, m, [])
     | w # ws \<Rightarrow> Some (MIdle, m\<lparr>m_wait_list := ws\<rparr>, [Woken w]))
   | _ \<Rightarrow> None)"

definition mutex_is_locked :: "mutex \<Rightarrow> bool" where
  "mutex_is_locked m \<longleftrightarrow> atomic_read (m_locked m) \<noteq> 0"

definition mutex_owner :: "mutex \<Rightarrow> tid option" where
  "mutex_owner m = m_owner m"

text \<open>A process may lock or try to lock when it does not hold the mutex, and unlock at any time.\<close>

fun mutex_call :: "mutex_pc \<Rightarrow> mutex_pc \<Rightarrow> bool" where
  "mutex_call MIdle pc \<longleftrightarrow> pc = MFast \<or> pc = MTry \<or> pc = MUnlock"
| "mutex_call MHeld pc \<longleftrightarrow> pc = MUnlock"
| "mutex_call _ pc \<longleftrightarrow> False"

definition mutex_run :: "tid \<Rightarrow> mutex_pc \<Rightarrow> mutex \<Rightarrow> (mutex_pc \<times> mutex \<times> wake_event list) option" where
  "mutex_run t pc m =
     (if pc = MTry then mutex_trylock t pc m
      else if pc \<in> {MUnlock, MDropOwner, MDropCount, MDropLocked, MWake} then mutex_unlock t pc m
      else mutex_lock t pc m)"

subsection \<open>Semaphores\<close>

record semaphore =
  s_count :: atomic
  s_wait_list :: "tid list"

datatype sem_pc =
  SIdle
| SFastRead | SFastCas u32 | SSlow | STestCount | SSleep | SRetry | SRemove
| STryRead | STryCas u32
| SInc | SWake

text \<open>\<open>Acquired t\<close>: the process has taken a unit. \<open>Posted t\<close>: the process has returned one.\<close>

datatype sem_event = Acquired tid | Posted tid | SemWoken tid

definition sem_init :: "u32 \<Rightarrow> semaphore \<Rightarrow> semaphore" where
  "sem_init val s = s\<lparr>s_count := atomic_write val (s_count s), s_wait_list := []\<rparr>"

definition sem_wait :: "tid \<Rightarrow> sem_pc \<Rightarrow> semaphore \<Rightarrow> (sem_pc \<times> semaphore \<times> sem_event list) option" where
  "sem_wait current pc s = (case pc of
     SFastRead \<Rightarrow> let old_val = atomic_read (s_count s) in Some (if 0 <s old_val then SFastCas old_val else SSlow, s, [])
   | SFastCas old_val \<Rightarrow> let (ok, c) = atomic_compare_and_swap old_val (old_val - 1) (s_count s); s = s\<lparr>s_count := c\<rparr>
       in if ok then Some (SIdle, s, [Acquired current]) else Some (SFastRead, s, [])
   | SSlow \<Rightarrow> let old_val = atomic_read (s_count s);
           (ok, c) = (if 0 <s old_val then atomic_compare_and_swap old_val (old_val - 1) (s_count s) else (False, s_count s));
           s = s\<lparr>s_count := c\<rparr>
       in if ok then Some (SIdle, s, [Acquired current])
          else Some (STestCount, s\<lparr>s_wait_list := s_wait_list s @ [current]\<rparr>, [])
   | STestCount \<Rightarrow> Some (if atomic_read (s_count s) = 0 then SSleep else SRetry, s, [])
   | SSleep \<Rightarrow> Some (STestCount, s, [])
   | SRetry \<Rightarrow> let (ok, c) = atomic_compare_and_swap 1 0 (s_count s); s = s\<lparr>s_count := c\<rparr>
       in if ok then Some (SRemove, s, [Acquired current]) else Some (SRetry, s, [])
   | SRemove \<Rightarrow> Some (SIdle, s\<lparr>s_wait_list := removeAll current (s_wait_list s)\<rparr>, [])
   | _ \<Rightarrow> None)"

definition sem_trywait :: "tid \<Rightarrow> sem_pc \<Rightarrow> semaphore \<Rightarrow> (sem_pc \<times> semaphore \<times> sem_event list) option" where
  "sem_trywait current pc s = (case pc of
     STryRead \<Rightarrow> let old_val = atomic_read (s_count s) in Some (if 0 <s old_val then STryCas old_val else SIdle, s, [])
   | STryCas old_val \<Rightarrow> let (ok, c) = atomic_compare_and_swap old_val (old_val - 1) (s_count s); s = s\<lparr>s_count := c\<rparr>
       in Some (SIdle, s, if ok then [Acquired current] else [])
   | _ \<Rightarrow> None)"

definition sem_post :: "tid \<Rightarrow> sem_pc \<Rightarrow> semaphore \<Rightarrow> (sem_pc \<times> semaphore \<times> sem_event list) option" where
  "sem_post current pc s = (case pc of
     SInc \<Rightarrow> Some (SWake, s\<lparr>s_count := atomic_inc (s_count s)\<rparr>, [Posted current])
   | SWake \<Rightarrow> (case s_wait_list s of
       [] \<Rightarrow> Some (SIdle, s, [])
     | w # ws \<Rightarrow> Some (SIdle, s\<lparr>s_wait_list := ws\<rparr>, [SemWoken w]))
   | _ \<Rightarrow> None)"

definition sem_getvalue :: "semaphore \<Rightarrow> u32" where
  "sem_getvalue s = atomic_read (s_count s)"

fun sem_call :: "sem_pc \<Rightarrow> sem_pc \<Rightarrow> bool" where
  "sem_call SIdle pc \<longleftrightarrow> pc = SFastRead \<or> pc = STryRead \<or> pc = SInc"
| "sem_call _ pc \<longleftrightarrow> False"

definition sem_run :: "tid \<Rightarrow> sem_pc \<Rightarrow> semaphore \<Rightarrow> (sem_pc \<times> semaphore \<times> sem_event list) option" where
  "sem_run t pc s = (case pc of
     STryRead \<Rightarrow> sem_trywait t pc s | STryCas _ \<Rightarrow> sem_trywait t pc s
   | SInc \<Rightarrow> sem_post t pc s | SWake \<Rightarrow> sem_post t pc s
   | _ \<Rightarrow> sem_wait t pc s)"

subsection \<open>Reader-writer locks\<close>

record rwlock =
  readers :: atomic
  writers :: atomic

datatype rw_pc =
  RIdle | RReading | RWriting
| RReadTest | RReadEnter
| RTryReadTest | RTryReadEnter
| RReadLeave
| RWriteClaim | RWriteDrain
| RTryWrite
| RWriteLeave
| RDowngrade | RDowngraded

definition rwlock_init :: "rwlock \<Rightarrow> rwlock" where
  "rwlock_init rw = rw\<lparr>readers := atomic_write 0 (readers rw), writers := atomic_write 0 (writers rw)\<rparr>"

definition rwlock_read_lock :: "rw_pc \<Rightarrow> rwlock \<Rightarrow> (rw_pc \<times> rwlock) option" where
  "rwlock_read_lock pc rw = (case pc of
     RReadTest \<Rightarrow> Some (if 0 <s atomic_read (writers rw) then RReadTest else RReadEnter, rw)
   | RReadEnter \<Rightarrow> Some (RReading, rw\<lparr>readers := atomic_inc (readers rw)\<rparr>)
   | _ \<Rightarrow> None)"

definition rwlock_read_trylock :: "rw_pc \<Rightarrow> rwlock \<Rightarrow> (rw_pc \<times> rwlock) option" where
  "rwlock_read_trylock pc rw = (case pc of
     RTryReadTest \<Rightarrow> Some (if 0 <s atomic_read (writers rw) then RIdle else RTryReadEnter, rw)
   | RTryReadEnter \<Rightarrow> if 0 <s atomic_read (writers rw) then Some (RIdle, rw)
       else Some (RReading, rw\<lparr>readers := atomic_inc (readers rw)\<rparr>)
   | _ \<Rightarrow> None)"

definition rwlock_read_unlock :: "rw_pc \<Rightarrow> rwlock \<Rightarrow> (rw_pc \<times> rwlock) option" where
  "rwlock_read_unlock pc rw = (case pc of
     RReadLeave \<Rightarrow> Some (RIdle, rw\<lparr>readers := atomic_dec (readers rw)\<rparr>)
   | _ \<Rightarrow> None)"

definition rwlock_write_lock :: "rw_pc \<Rightarrow> rwlock \<Rightarrow> (rw_pc \<times> rwlock) option" where
  "rwlock_write_lock pc rw = (case pc of
     RWriteClaim \<Rightarrow> if 0 <s atomic_read (writers rw) then Some (RWriteClaim, rw)
       else Some (RWriteDrain, rw\<lparr>writers := atomic_inc (writers rw)\<rparr>)
   | RWriteDrain \<Rightarrow> Some (if 0 <s atomic_read (readers rw) then RWriteDrain else RWriting, rw)
   | _ \<Rightarrow> None)"

definition rwlock_write_trylock :: "rw_pc \<Rightarrow> rwlock \<Rightarrow> (rw_pc \<times> rwlock) option" where
  "rwlock_write_trylock pc rw = (case pc of
     RTryWrite \<Rightarrow> if 0 <s atomic_read (writers rw) \<or> 0 <s atomic_read (readers rw) then Some (RIdle, rw)
       else Some (RWriting, rw\<lparr>writers := atomic_inc (writers rw)\<rparr>)
   | _ \<Rightarrow> None)"

definition rwlock_write_unlock :: "rw_pc \<Rightarrow> rwlock \<Rightarrow> (rw_pc \<times> rwlock) option" where
  "rwlock_write_unlock pc rw = (case pc of
     RWriteLeave \<Rightarrow> Some (RIdle, rw\<lparr>writers := atomic_dec (writers rw)\<rparr>)
   | _ \<Rightarrow> None)"

definition rwlock_write_downgrade :: "rw_pc \<Rightarrow> rwlock \<Rightarrow> (rw_pc \<times> rwlock) option" where
  "rwlock_write_downgrade pc rw = (case pc of
     RDowngrade \<Rightarrow> Some (RDowngraded, rw\<lparr>readers := atomic_inc (readers rw)\<rparr>)
   | RDowngraded \<Rightarrow> Some (RReading, rw\<lparr>writers := atomic_dec (writers rw)\<rparr>)
   | _ \<Rightarrow> None)"

definition rwlock_is_read_locked :: "rwlock \<Rightarrow> bool" where
  "rwlock_is_read_locked rw \<longleftrightarrow> 0 <s atomic_read (readers rw)"

definition rwlock_is_write_locked :: "rwlock \<Rightarrow> bool" where
  "rwlock_is_write_locked rw \<longleftrightarrow> 0 <s atomic_read (writers rw)"

definition rwlock_is_locked :: "rwlock \<Rightarrow> bool" where
  "rwlock_is_locked rw \<longleftrightarrow> rwlock_is_read_locked rw \<or> rwlock_is_write_locked rw"

text \<open>
  Readers leave what they have entered, and writers leave or downgrade. With \<open>blocking\<close> false no process calls
  \<open>rwlock_read_lock\<close>.
\<close>

fun rw_call :: "bool \<Rightarrow> rw_pc \<Rightarrow> rw_pc \<Rightarrow> bool" where
  "rw_call blocking RIdle pc \<longleftrightarrow> (blocking \<and> pc = RReadTest) \<or> pc = RTryReadTest \<or> pc = RWriteClaim \<or> pc = RTryWrite"
| "rw_call blocking RReading pc \<longleftrightarrow> pc = RReadLeave"
| "rw_call blocking RWriting pc \<longleftrightarrow> pc = RWriteLeave \<or> pc = RDowngrade"
| "rw_call blocking _ pc \<longleftrightarrow> False"

definition rw_run :: "tid \<Rightarrow> rw_pc \<Rightarrow> rwlock \<Rightarrow> (rw_pc \<times> rwlock \<times> unit list) option" where
  "rw_run t pc rw = map_option (\<lambda>(pc, rw). (pc, rw, [])) (case pc of
     RReadTest \<Rightarrow> rwlock_read_lock pc rw | RReadEnter \<Rightarrow> rwlock_read_lock pc rw
   | RTryReadTest \<Rightarrow> rwlock_read_trylock pc rw | RTryReadEnter \<Rightarrow> rwlock_read_trylock pc rw
   | RReadLeave \<Rightarrow> rwlock_read_unlock pc rw
   | RWriteClaim \<Rightarrow> rwlock_write_lock pc rw | RWriteDrain \<Rightarrow> rwlock_write_lock pc rw
   | RTryWrite \<Rightarrow> rwlock_write_trylock pc rw
   | RWriteLeave \<Rightarrow> rwlock_write_unlock pc rw
   | RDowngrade \<Rightarrow> rwlock_write_downgrade pc rw | RDowngraded \<Rightarrow> rwlock_write_downgrade pc rw
   | _ \<Rightarrow> None)"

end
