(* ===== verification/Locks_Props.thy ===== *)
theory Locks_Props
  imports Locks
begin

text \<open>
  Properties of the locks: which of them keep processes apart, and under which conditions.
\<close>

subsection \<open>Spinlocks\<close>

lemma spin_lock_raw_free: "sl_locked l = 0 \<Longrightarrow> spin_lock_raw l = Some (l\<lparr>sl_locked := 1\<rparr>)"
  by (subst spin_lock_raw.simps) (simp add: test_and_set_def)

lemma clear_restore_bit:
  fixes w :: "'a :: len word"
  shows "(if bit w k then w AND NOT (2 ^ k) OR 2 ^ k else w AND NOT (2 ^ k)) = w" and "\<not> bit (w AND NOT (2 ^ k)) k"
  by (rule bit_eqI) (auto simp: bit_simps)

lemma spin_irqsave_restore:
  assumes "sl_locked l = 0"
  shows "\<exists>l' r. spin_lock_irqsave l rflags = Some (rflags, l', r) \<and> spin_is_locked l' \<and> \<not> bit r 9 \<and>
    spin_lock_irqsave l' r = None \<and> spin_unlock_irqrestore l' rflags r = (l, rflags)"
proof -
  have n: "(0x200 :: u64) = 2 ^ 9"
    by simp
  have b: "rflags AND 0x200 \<noteq> 0 \<longleftrightarrow> bit rflags 9"
    unfolding n by (simp only: and_exp_eq_0_iff_not_bit not_not)
  have r: "(if bit rflags 9 then rflags AND NOT 0x200 OR 0x200 else rflags AND NOT 0x200) = rflags"
    unfolding n by (rule clear_restore_bit)
  have "\<not> bit (rflags AND NOT 0x200) 9"
    unfolding n by (rule clear_restore_bit)
  then show ?thesis
    using assms r by (auto simp: spin_lock_irqsave_def spin_lock_def spin_is_locked_def spin_lock_raw_free
      spin_unlock_irqrestore_def spin_unlock_def atomic_clear_def interrupt_disable_def interrupt_enable_def b split: if_splits)
qed

subsection \<open>Reader-writer locks\<close>

text \<open>The processes at the given program counters.\<close>

definition at :: "'pc set \<Rightarrow> (tid \<Rightarrow> 'pc) \<Rightarrow> tid set" where
  "at P ps = {t. ps t \<in> P}"

lemma at_upd: "at P (ps(t := pc)) = (if pc \<in> P then insert t (at P ps) else at P ps - {t})"
  by (auto simp: at_def)

lemma at_iff [simp]: "t \<in> at P ps \<longleftrightarrow> ps t \<in> P"
  by (simp add: at_def)

definition writer_pcs :: "rw_pc set" where
  "writer_pcs = {RWriteDrain, RWriting, RWriteLeave, RDowngrade, RDowngraded}"

definition reader_pcs :: "rw_pc set" where
  "reader_pcs = {RReading, RReadLeave, RDowngraded}"

text \<open>Those that must not meet: a process that is reading, and a writer that has waited for the readers.\<close>

definition exclusive_pcs :: "rw_pc set" where
  "exclusive_pcs = {RWriting, RWriteLeave, RDowngrade}"

definition rw_inv :: "unit list \<Rightarrow> (tid \<Rightarrow> rw_pc) \<Rightarrow> rwlock \<Rightarrow> bool" where
  "rw_inv es ps rw \<longleftrightarrow> (\<forall>t. ps t \<noteq> RIdle \<longrightarrow> t < PID_MAX) \<and>
     writers rw = of_nat (card (at writer_pcs ps)) \<and> card (at writer_pcs ps) \<le> 1 \<and>
     readers rw = of_nat (card (at reader_pcs ps))"

lemma small_positive: "n \<le> PID_MAX \<Longrightarrow> 0 <s (of_nat n :: u32) \<longleftrightarrow> n \<noteq> 0"
proof -
  assume n: "n \<le> PID_MAX"
  then have "sint (of_nat n :: u32) = int n"
    by (simp add: PID_MAX_def signed_of_nat signed_take_bit_int_eq_self)
  then show ?thesis
    by (simp add: word_sless_alt)
qed

lemma card_at_upd:
  assumes "finite (at P ps)"
  shows "card (at P (ps(t := pc))) + of_bool (ps t \<in> P) = card (at P ps) + of_bool (pc \<in> P)"
proof (cases "ps t \<in> P")
  case True
  then have "card (at P ps) = Suc (card (at P ps - {t}))"
    using card.remove [OF assms, of t] by simp
  then show ?thesis
    using True by (simp add: at_upd insert_absorb)
qed (use assms in \<open>simp add: at_upd\<close>)

lemma finite_at:
  assumes "\<forall>t. ps t \<noteq> idle \<longrightarrow> t < PID_MAX" "idle \<notin> P"
  shows "finite (at P ps)" and "card (at P ps) \<le> PID_MAX"
proof -
  have s: "at P ps \<subseteq> {..<PID_MAX}"
    using assms by (auto simp: at_def)
  then show "finite (at P ps)"
    by (rule finite_subset) simp
  show "card (at P ps) \<le> PID_MAX"
    using card_mono [OF _ s] by simp
qed

lemma counter_upd:
  fixes a :: "'a :: len word"
  assumes "a' = a + of_bool q - of_bool p" "a = of_nat n" "n' + of_bool p = n + of_bool q"
  shows "a' = of_nat n'"
  using assms by (cases p; cases q) (auto simp: add.commute)

lemma rw_invD:
  assumes "rw_inv es ps rw"
  shows "finite (at writer_pcs ps)" "finite (at reader_pcs ps)"
    and "0 <s writers rw \<longleftrightarrow> at writer_pcs ps \<noteq> {}" "0 <s readers rw \<longleftrightarrow> at reader_pcs ps \<noteq> {}"
proof -
  have i: "\<forall>t. ps t \<noteq> RIdle \<longrightarrow> t < PID_MAX" and w: "writers rw = of_nat (card (at writer_pcs ps))"
    and r: "readers rw = of_nat (card (at reader_pcs ps))"
    using assms by (auto simp: rw_inv_def)
  have n: "RIdle \<notin> writer_pcs" "RIdle \<notin> reader_pcs"
    by (auto simp: writer_pcs_def reader_pcs_def)
  show f: "finite (at writer_pcs ps)" "finite (at reader_pcs ps)"
    using finite_at(1) [OF i] n by blast+
  show "0 <s writers rw \<longleftrightarrow> at writer_pcs ps \<noteq> {}" "0 <s readers rw \<longleftrightarrow> at reader_pcs ps \<noteq> {}"
    using small_positive finite_at(2) [OF i] n f by (simp_all add: w r card_gt_0_iff)
qed

lemmas rw_ops = rwlock_read_lock_def rwlock_read_trylock_def rwlock_read_unlock_def rwlock_write_lock_def
  rwlock_write_trylock_def rwlock_write_unlock_def rwlock_write_downgrade_def

lemma rw_call_cases:
  assumes "rw_call b p pc"
  shows "(p \<in> writer_pcs \<longleftrightarrow> pc \<in> writer_pcs) \<and> (p \<in> reader_pcs \<longleftrightarrow> pc \<in> reader_pcs)"
  using assms by (cases p) (auto simp: writer_pcs_def reader_pcs_def)

text \<open>What a statement does to the two counters.\<close>

lemma rw_run_cases:
  assumes "rw_run t p rw = Some (pc, rw', e)"
  shows "p \<noteq> RIdle"
    and "writers rw' = writers rw + of_bool (pc \<in> writer_pcs) - of_bool (p \<in> writer_pcs)"
    and "readers rw' = readers rw + of_bool (pc \<in> reader_pcs) - of_bool (p \<in> reader_pcs)"
    and "p \<notin> writer_pcs \<Longrightarrow> pc \<in> writer_pcs \<Longrightarrow> \<not> 0 <s writers rw"
  using assms
  by (cases p; auto simp: rw_run_def rw_ops writer_pcs_def reader_pcs_def atomic_read_def atomic_inc_def atomic_dec_def
      split: if_splits)+

interpretation rw: interleaving_invariant "rw_call b" rw_run rw_inv
proof
  fix es ps rw t pc
  assume inv: "rw_inv es ps rw" and c: "rw_call b (ps t) pc" "t < PID_MAX"
  have "card (at writer_pcs (ps(t := pc))) = card (at writer_pcs ps)" "card (at reader_pcs (ps(t := pc))) = card (at reader_pcs ps)"
    using card_at_upd [OF rw_invD(1) [OF inv], of t pc] card_at_upd [OF rw_invD(2) [OF inv], of t pc] rw_call_cases [OF c(1)] by auto
  then show "rw_inv es (ps(t := pc)) rw"
    using inv c by (auto simp: rw_inv_def)
next
  fix es ps rw t pc rw' e
  assume inv: "rw_inv es ps rw" and r: "rw_run t (ps t) rw = Some (pc, rw', e)"
  note i = inv [unfolded rw_inv_def] and d = rw_invD [OF inv] and c = rw_run_cases [OF r]
  note u = card_at_upd [OF d(1), of t pc] card_at_upd [OF d(2), of t pc]
  have "writers rw' = of_nat (card (at writer_pcs (ps(t := pc))))"
    using counter_upd [OF c(2) _ u(1)] i by blast
  moreover have "readers rw' = of_nat (card (at reader_pcs (ps(t := pc))))"
    using counter_upd [OF c(3) _ u(2)] i by blast
  moreover have "card (at writer_pcs (ps(t := pc))) \<le> 1"
  proof (cases "ps t \<notin> writer_pcs \<and> pc \<in> writer_pcs")
    case True
    then have "at writer_pcs ps = {}" using c(4) d(3) by blast
    then show ?thesis using u(1) True by simp
  next
    case False
    then show ?thesis using u(1) i by (cases "pc \<in> writer_pcs") auto
  qed
  ultimately show "rw_inv (es @ e) (ps(t := pc)) rw'"
    using i c(1) by (auto simp: rw_inv_def)
qed

lemma rw_one_writer:
  assumes inv: "rw_inv es ps rw" and w: "u \<in> at writer_pcs ps" "t \<in> at writer_pcs ps"
  shows "u = t"
proof -
  have "card (at writer_pcs ps) \<le> Suc 0"
    using inv by (simp add: rw_inv_def)
  then have "\<forall>a \<in> at writer_pcs ps. \<forall>b \<in> at writer_pcs ps. a = b"
    using card_le_Suc0_iff_eq [OF rw_invD(1) [OF inv]] by blast
  then show ?thesis
    using w by blast
qed

text \<open>With readers that only use \<open>rwlock_read_trylock\<close>, no reader meets a writer.\<close>

definition rw_excl :: "unit list \<Rightarrow> (tid \<Rightarrow> rw_pc) \<Rightarrow> rwlock \<Rightarrow> bool" where
  "rw_excl es ps rw \<longleftrightarrow> rw_inv es ps rw \<and> (\<forall>t. ps t \<noteq> RReadTest \<and> ps t \<noteq> RReadEnter) \<and>
     (at exclusive_pcs ps = {} \<or> at reader_pcs ps = {})"

lemma rw_run_excl:
  assumes "rw_run t p rw = Some (pc, rw', e)" "p \<noteq> RReadTest" "p \<noteq> RReadEnter"
  shows "pc \<noteq> RReadTest \<and> pc \<noteq> RReadEnter"
    and "p \<notin> reader_pcs \<Longrightarrow> pc \<in> reader_pcs \<Longrightarrow> p = RDowngrade \<or> \<not> 0 <s writers rw"
    and "p \<notin> exclusive_pcs \<Longrightarrow> pc \<in> exclusive_pcs \<Longrightarrow> \<not> 0 <s readers rw"
  using assms
  by (cases p; auto simp: rw_run_def rw_ops exclusive_pcs_def reader_pcs_def atomic_read_def split: if_splits)+

lemma exclusive_writer: "at exclusive_pcs ps \<subseteq> at writer_pcs ps"
  by (auto simp: at_def exclusive_pcs_def writer_pcs_def)

interpretation rwt: interleaving_invariant "rw_call False" rw_run rw_excl
proof
  fix es ps rw t pc
  assume x: "rw_excl es ps rw" and c: "t < PID_MAX" "rw_call False (ps t) pc"
  have "pc \<noteq> RReadTest \<and> pc \<noteq> RReadEnter" "pc \<in> exclusive_pcs \<longleftrightarrow> ps t \<in> exclusive_pcs" "pc \<in> reader_pcs \<longleftrightarrow> ps t \<in> reader_pcs"
    using c(2) by (cases "ps t"; auto simp: exclusive_pcs_def reader_pcs_def)+
  then show "rw_excl es (ps(t := pc)) rw"
    using x rw.inv_call [of es ps rw t False pc] c by (auto simp: rw_excl_def at_upd insert_absorb)
next
  fix es ps rw t pc rw' e
  assume x: "rw_excl es ps rw" and r: "rw_run t (ps t) rw = Some (pc, rw', e)"
  have inv: "rw_inv es ps rw" using x by (simp add: rw_excl_def)
  note d = rw_invD [OF inv]
  have p: "ps t \<noteq> RReadTest" "ps t \<noteq> RReadEnter" using x by (auto simp: rw_excl_def)
  note c = rw_run_excl [OF r p]
  have "at exclusive_pcs (ps(t := pc)) = {} \<or> at reader_pcs (ps(t := pc)) = {}"
  proof (cases "ps t = RDowngrade")
    case True
    then have w: "t \<in> at writer_pcs ps"
      by (simp add: writer_pcs_def)
    have "at writer_pcs ps = {t}"
      using rw_one_writer [OF inv _ w] w by blast
    moreover have "pc = RDowngraded" using r True by (simp add: rw_run_def rw_ops)
    ultimately have "at exclusive_pcs (ps(t := pc)) = {}"
      using exclusive_writer [of ps] by (auto simp: at_upd exclusive_pcs_def)
    then show ?thesis ..
  next
    case False
    show ?thesis
    proof (cases "(ps t \<notin> reader_pcs \<and> pc \<in> reader_pcs) \<or> (ps t \<notin> exclusive_pcs \<and> pc \<in> exclusive_pcs)")
      case True
      then have "at exclusive_pcs ps = {} \<and> pc \<in> reader_pcs \<or> at reader_pcs ps = {} \<and> pc \<in> exclusive_pcs"
        using c(2,3) d(3,4) False exclusive_writer [of ps] by blast
      then show ?thesis by (auto simp: at_upd reader_pcs_def exclusive_pcs_def)
    next
      case False
      then show ?thesis using x by (auto simp: rw_excl_def at_def)
    qed
  qed
  then show "rw_excl (es @ e) (ps(t := pc)) rw'"
    using x c(1) rw.inv_run [OF inv r] by (auto simp: rw_excl_def)
qed

lemma rw_start: "rw_inv [] (\<lambda>_. RIdle) (rwlock_init rw)" "rw_excl [] (\<lambda>_. RIdle) (rwlock_init rw)"
  by (simp_all add: rw_inv_def rw_excl_def at_def rwlock_init_def writer_pcs_def reader_pcs_def atomic_write_def)

text \<open>
  C18: in every interleaving of the operations on a reader-writer lock at most one process is writing. When the
  readers use only \<^verbatim>\<open>rwlock_read_trylock\<close>, which tests for a writer again after taking the internal lock, no
  process reads while another writes. The counters are exact, so a lock with a writer reports that it is
  locked for writing.
\<close>

theorem rwlock_exclusion:
  assumes "interleaves (rw_call blocking) rw_run (\<lambda>_. RIdle, rwlock_init rw) es (ps, rw')" and "ps t = RWriting"
  shows "rwlock_is_write_locked rw' \<and> (ps u = RWriting \<longrightarrow> u = t) \<and> (\<not> blocking \<longrightarrow> ps u \<noteq> RReading)"
proof (intro conjI impI)
  have inv: "rw_inv es ps rw'"
    using rw.invariant [OF assms(1) rw_start(1)] by simp
  have t: "t \<in> at writer_pcs ps"
    using assms(2) by (simp add: writer_pcs_def)
  then show "rwlock_is_write_locked rw'"
    using rw_invD(3) [OF inv] unfolding rwlock_is_write_locked_def atomic_read_def by blast
  show "u = t" if "ps u = RWriting"
    using rw_one_writer [OF inv _ t] that by (simp add: writer_pcs_def)
  assume "\<not> blocking"
  then have "rw_excl es ps rw'"
    using rwt.invariant [of _ _ es "(ps, rw')"] assms(1) rw_start(2) by simp
  then show "ps u \<noteq> RReading"
    using assms(2) by (force simp: rw_excl_def at_def exclusive_pcs_def reader_pcs_def)
qed

theorem rwlock_exclusion_witness:
  "\<exists>es ps rw. interleaves (rw_call False) rw_run (\<lambda>_. RIdle, rwlock_init \<lparr>readers = 7, writers = 7\<rparr>) es (ps, rw) \<and>
     ps 1 = RWriting \<and> rwlock_is_write_locked rw"
proof -
  let ?s = "(\<lambda>_. RIdle, rwlock_init \<lparr>readers = 7, writers = 7\<rparr>)"
  have "\<exists>es ps rw. execute (rw_call False) rw_run [(1, Some RWriteClaim), (1, None), (1, None)] [] ?s = Some (es, ps, rw) \<and>
      ps 1 = RWriting"
    by (simp add: PID_MAX_def rw_run_def rw_ops rwlock_init_def atomic_write_def atomic_read_def atomic_inc_def)
  then show ?thesis
    using execute_interleaves [OF interleaves.start] rwlock_exclusion by blast
qed

text \<open>
  A process in \<^verbatim>\<open>rwlock_read_lock\<close> tests for a writer only before it takes the internal lock. When a writer
  gets the lock between the test and the increment, both are inside.
\<close>

theorem rwlock_reader_meets_writer:
  "\<exists>es ps rw'. interleaves (rw_call True) rw_run (\<lambda>_. RIdle, rwlock_init rw) es (ps, rw') \<and> ps 1 = RReading \<and> ps 2 = RWriting"
proof -
  have "\<exists>es ps rw'. execute (rw_call True) rw_run
      [(1, Some RReadTest), (1, None), (2, Some RWriteClaim), (2, None), (2, None), (1, None)] [] (\<lambda>_. RIdle, rwlock_init rw) =
        Some (es, ps, rw') \<and> ps 1 = RReading \<and> ps 2 = RWriting"
    by (simp add: PID_MAX_def rw_run_def rw_ops rwlock_init_def atomic_write_def atomic_read_def atomic_inc_def)
  then show ?thesis
    using execute_interleaves [OF interleaves.start] by blast
qed

end
