(* ===== verification/Locks_Blocking.thy ===== *)
theory Locks_Blocking
  imports Locks_Props
begin

text \<open>
  Properties of the blocking locks: semaphores conserve their units, and a mutex keeps processes apart as long as
  no process leaves the sleeping loop of \<open>mutex_lock\<close>.
\<close>

subsection \<open>Semaphores\<close>

definition acquired :: "sem_event list \<Rightarrow> nat" where
  "acquired es = length (filter (\<lambda>e. case e of Acquired _ \<Rightarrow> True | _ \<Rightarrow> False) es)"

definition posted :: "sem_event list \<Rightarrow> nat" where
  "posted es = length (filter (\<lambda>e. case e of Posted _ \<Rightarrow> True | _ \<Rightarrow> False) es)"

lemma event_counts [simp]:
  "acquired [] = 0" "posted [] = 0" "acquired (xs @ ys) = acquired xs + acquired ys" "posted (xs @ ys) = posted xs + posted ys"
  "acquired [Acquired t] = 1" "acquired [Posted t] = 0" "acquired [SemWoken t] = 0"
  "posted [Acquired t] = 0" "posted [Posted t] = 1" "posted [SemWoken t] = 0"
  by (simp_all add: acquired_def posted_def)

text \<open>The units that are available after the events, with \<open>v\<close> of them at the start.\<close>

definition units :: "int \<Rightarrow> sem_event list \<Rightarrow> int" where
  "units v es = v + int (posted es) - int (acquired es)"

definition sem_inv :: "int \<Rightarrow> sem_event list \<Rightarrow> (tid \<Rightarrow> sem_pc) \<Rightarrow> semaphore \<Rightarrow> bool" where
  "sem_inv v es ps s \<longleftrightarrow> (\<forall>t old. ps t = SFastCas old \<or> ps t = STryCas old \<longrightarrow> 0 <s old) \<and>
     (v + int (posted es) < 2 ^ 31 \<longrightarrow> sint (s_count s) = units v es \<and> 0 \<le> units v es)"

lemmas sem_ops = sem_wait_def sem_trywait_def sem_post_def

lemma sem_run_cases:
  assumes "sem_run t p s = Some (pc, s', e)" "\<And>old. p = SFastCas old \<or> p = STryCas old \<Longrightarrow> 0 <s old"
  shows "s_count s' = s_count s \<and> acquired e = 0 \<and> posted e = 0 \<or>
      s_count s' = s_count s - 1 \<and> acquired e = 1 \<and> posted e = 0 \<and> 0 <s s_count s \<or>
      s_count s' = s_count s + 1 \<and> acquired e = 0 \<and> posted e = 1"
    and "pc = SFastCas old \<or> pc = STryCas old \<Longrightarrow> 0 <s old"
proof -
  note d = sem_run_def sem_ops Let_def atomic_compare_and_swap_def atomic_read_def atomic_inc_def
  have one: "0 <s (1 :: u32)" by (simp add: word_sless_alt)
  show "s_count s' = s_count s \<and> acquired e = 0 \<and> posted e = 0 \<or>
      s_count s' = s_count s - 1 \<and> acquired e = 1 \<and> posted e = 0 \<and> 0 <s s_count s \<or>
      s_count s' = s_count s + 1 \<and> acquired e = 0 \<and> posted e = 1"
  proof (cases p)
    case (SFastCas x)
    then show ?thesis using assms(1) assms(2) [of x] by (auto simp: d split: if_splits)
  next
    case (STryCas x)
    then show ?thesis using assms(1) assms(2) [of x] by (auto simp: d split: if_splits)
  qed (use assms(1) one in \<open>auto simp: d split: if_splits list.splits\<close>)
  show "0 <s old" if "pc = SFastCas old \<or> pc = STryCas old"
    using assms(1) that by (cases p) (auto simp: d split: if_splits list.splits)
qed

lemma sint_step:
  fixes c :: u32
  shows "0 < sint c \<Longrightarrow> sint (c - 1) = sint c - 1" and "sint c < 2 ^ 31 - 1 \<Longrightarrow> sint (c + 1) = sint c + 1"
proof -
  have r: "- (2 ^ 31) \<le> sint c" "sint c < 2 ^ 31"
    using sint_greater_eq [of c] sint_less [of c] by simp_all
  show "sint (c - 1) = sint c - 1" if "0 < sint c"
    using that r by (simp add: sint_word_ariths signed_take_bit_int_eq_self)
  show "sint (c + 1) = sint c + 1" if "sint c < 2 ^ 31 - 1"
    using that r by (simp add: sint_word_ariths signed_take_bit_int_eq_self)
qed

lemma sem_inv_run:
  assumes inv: "sem_inv v es ps s" and r: "sem_run t (ps t) s = Some (pc, s', e)"
  shows "sem_inv v (es @ e) (ps(t := pc)) s'"
proof -
  have old: "0 <s old" if "ps u = SFastCas old \<or> ps u = STryCas old" for u old
    using inv that by (auto simp: sem_inv_def)
  have "0 <s old" if "ps t = SFastCas old \<or> ps t = STryCas old" for old
    by (rule old [OF that])
  note c = sem_run_cases [OF r this]
  have "sint (s_count s') = units v (es @ e) \<and> 0 \<le> units v (es @ e)" if b: "v + int (posted (es @ e)) < 2 ^ 31"
  proof -
    have i: "sint (s_count s) = units v es" "0 \<le> units v es"
      using inv b by (simp_all add: sem_inv_def)
    consider "s_count s' = s_count s" "acquired e = 0" "posted e = 0"
      | "s_count s' = s_count s - 1" "acquired e = 1" "posted e = 0" "0 < sint (s_count s)"
      | "s_count s' = s_count s + 1" "acquired e = 0" "posted e = 1"
      using c(1) by (auto simp: word_sless_alt)
    then show ?thesis
    proof cases
      case 3
      then have "sint (s_count s) < 2 ^ 31 - 1"
        using i b by (simp add: units_def)
      then show ?thesis using 3 i sint_step(2) by (simp add: units_def)
    qed (use i sint_step(1) in \<open>simp_all add: units_def\<close>)
  qed
  moreover have "0 <s old" if "(ps(t := pc)) u = SFastCas old \<or> (ps(t := pc)) u = STryCas old" for u old
    using that old c(2) by (cases "u = t") simp_all
  ultimately show ?thesis
    unfolding sem_inv_def by blast
qed

interpretation sm: interleaving_invariant sem_call sem_run "sem_inv v"
proof
  fix es ps s t pc
  assume "sem_inv v es ps s" "sem_call (ps t) pc"
  moreover have "pc \<noteq> SFastCas old" "pc \<noteq> STryCas old" for old
    using calculation(2) by (cases "ps t"; auto)+
  ultimately show "sem_inv v es (ps(t := pc)) s"
    by (simp add: sem_inv_def)
qed (rule sem_inv_run)

text \<open>
  C19: a semaphore neither loses nor invents units. In every interleaving, as long as the posts do not overflow the
  counter, its value is the initial value plus the posts minus the completed waits, and is never negative: no
  more processes get through \<^verbatim>\<open>sem_wait\<close> and \<^verbatim>\<open>sem_trywait\<close> than there were units.
\<close>

theorem sem_conserves_units:
  assumes "interleaves sem_call sem_run (\<lambda>_. SIdle, sem_init val s) es (ps, s')"
    and "0 \<le> sint val" and "sint val + int (posted es) < 2 ^ 31"
  shows "sint (sem_getvalue s') = sint val + int (posted es) - int (acquired es) \<and>
    int (acquired es) \<le> sint val + int (posted es)"
proof -
  have "sem_inv (sint val) [] (\<lambda>_. SIdle) (sem_init val s)"
    using assms(2) by (simp add: sem_inv_def sem_init_def units_def atomic_write_def)
  then have "sem_inv (sint val) es ps s'"
    using sm.invariant [OF assms(1)] by simp
  then show ?thesis
    using assms(3) by (simp add: sem_inv_def units_def sem_getvalue_def atomic_read_def)
qed

lemmas sem_eval = sem_run_def sem_ops Let_def atomic_compare_and_swap_def atomic_read_def atomic_write_def atomic_inc_def
  sem_init_def PID_MAX_def word_sless_alt

theorem sem_conserves_units_witness:
  "\<exists>es ps s'. interleaves sem_call sem_run (\<lambda>_. SIdle, sem_init 1 \<lparr>s_count = 0, s_wait_list = []\<rparr>) es (ps, s') \<and>
     acquired es = 1 \<and> sint (sem_getvalue s') = 0"
proof -
  let ?s = "(\<lambda>_. SIdle, sem_init 1 \<lparr>s_count = 0, s_wait_list = []\<rparr>)"
  have "\<exists>ps s'. execute sem_call sem_run [(3, Some SFastRead), (3, None), (3, None)] [] ?s = Some ([Acquired 3], ps, s')"
    by (simp add: sem_eval)
  then obtain ps s' where "interleaves sem_call sem_run ?s [Acquired 3] (ps, s')"
    using execute_interleaves [OF interleaves.start] by blast
  then show ?thesis
    using sem_conserves_units [of 1 "\<lparr>s_count = 0, s_wait_list = []\<rparr>" "[Acquired 3]" ps s'] by fastforce
qed

text \<open>
  A process that was woken in \<^verbatim>\<open>sem_wait\<close> takes its unit only when the counter is exactly one. After two
  posts the counter is two; the process then spins and no statement of its own ever gets it out, although two
  units are free.
\<close>

theorem sem_wait_spins:
  "\<exists>es ps s'. interleaves sem_call sem_run (\<lambda>_. SIdle, sem_init 0 s) es (ps, s') \<and>
     ps 1 = SRetry \<and> sint (sem_getvalue s') = 2 \<and> acquired es = 0 \<and>
     (\<forall>n. execute sem_call sem_run (replicate n (1, None)) es (ps, s') = Some (es, ps, s'))"
proof -
  let ?as = "[(1, Some SFastRead), (1, None), (1, None), (1, None), (2, Some SInc), (2, None), (2, None),
    (2, Some SInc), (2, None), (2, None), (1, None), (1, None)]"
  obtain ps s' where e: "execute sem_call sem_run ?as [] (\<lambda>_. SIdle, sem_init 0 s) = Some ([Posted 2, SemWoken 1, Posted 2], ps, s')"
    and s: "ps 1 = SRetry" "s_count s' = 2"
    by (simp add: sem_eval)
  have r: "sem_run 1 (ps 1) s' = Some (SRetry, s', [])"
    using s by (simp add: sem_run_def sem_wait_def atomic_compare_and_swap_def)
  have "execute sem_call sem_run (replicate n (1, None)) es (ps, s') = Some (es, ps, s')" for n es
    using r s(1) by (induction n) (auto simp: fun_upd_idem)
  then show ?thesis
    using execute_interleaves [OF interleaves.start e] s
    by (intro exI [of _ "[Posted 2, SemWoken 1, Posted 2]"] exI [of _ ps] exI [of _ s'])
      (simp add: sem_getvalue_def atomic_read_def acquired_def)
qed

subsection \<open>Mutexes\<close>

text \<open>The statements without the one by which a process leaves the sleeping loop and takes the mutex.\<close>

definition mutex_run_awake :: "tid \<Rightarrow> mutex_pc \<Rightarrow> mutex \<Rightarrow> (mutex_pc \<times> mutex \<times> wake_event list) option" where
  "mutex_run_awake t pc m = (if pc = MTake then None else mutex_run t pc m)"

definition outside_pcs :: "mutex_pc set" where
  "outside_pcs = {MIdle, MFast, MSlow, MTestLocked, MTestOwner, MSleep, MTake, MTry, MUnlock, MWake}"

text \<open>The program counter of the process that has the mutex, and the field \<open>owner\<close>.\<close>

definition inside_pcs :: "tid \<Rightarrow> (mutex_pc \<times> tid option) set" where
  "inside_pcs h = {(MFastOwner, None), (MFastCount, Some h), (MHeld, Some h), (MUnlock, Some h), (MDropOwner, Some h),
     (MDropCount, None), (MDropLocked, None)}"

definition held_by :: "tid option \<Rightarrow> (tid \<Rightarrow> mutex_pc) \<Rightarrow> mutex \<Rightarrow> bool" where
  "held_by h ps m \<longleftrightarrow> (\<forall>t. h \<noteq> Some t \<longrightarrow> ps t \<in> outside_pcs) \<and>
     (case h of None \<Rightarrow> m_locked m = 0 \<and> m_owner m = None | Some h \<Rightarrow> m_locked m = 1 \<and> (ps h, m_owner m) \<in> inside_pcs h)"

definition mutex_inv :: "wake_event list \<Rightarrow> (tid \<Rightarrow> mutex_pc) \<Rightarrow> mutex \<Rightarrow> bool" where
  "mutex_inv es ps m \<longleftrightarrow> (\<exists>h. held_by h ps m)"

lemmas mutex_ops = mutex_lock_def mutex_trylock_def mutex_unlock_def Let_def atomic_compare_and_swap_def atomic_read_def
  atomic_write_def

text \<open>A process outside can enter only when the mutex is free.\<close>

lemma outside_run:
  assumes "mutex_run_awake t p m = Some (pc, m', e)" "p \<in> outside_pcs" "m_owner m \<noteq> Some t"
  obtains "pc \<in> outside_pcs" "m_locked m' = m_locked m" "m_owner m' = m_owner m"
  | "m_locked m = 0" "m_locked m' = 1" "m_owner m = None \<Longrightarrow> (pc, m_owner m') \<in> inside_pcs t"
  using assms
  by (cases p) (auto simp: mutex_run_awake_def mutex_run_def mutex_ops outside_pcs_def inside_pcs_def split: if_splits list.splits)

lemma inside_run:
  assumes "mutex_run_awake h p m = Some (pc, m', e)" "(p, m_owner m) \<in> inside_pcs h" "m_locked m = 1"
  obtains "(pc, m_owner m') \<in> inside_pcs h" "m_locked m' = 1"
  | "pc \<in> outside_pcs" "m_owner m' = None" "m_locked m' = 0"
  using assms
  by (cases p) (auto simp: mutex_run_awake_def mutex_run_def mutex_ops outside_pcs_def inside_pcs_def split: if_splits list.splits)

lemma mutex_call_pcs:
  assumes "mutex_call p pc"
  shows "p \<in> outside_pcs \<Longrightarrow> pc \<in> outside_pcs" and "(p, x) \<in> inside_pcs h \<Longrightarrow> (pc, x) \<in> inside_pcs h"
  using assms by (cases p; auto simp: outside_pcs_def inside_pcs_def)+

interpretation mx: interleaving_invariant mutex_call mutex_run_awake mutex_inv
proof
  fix es ps m t pc
  assume "mutex_inv es ps m" and c: "mutex_call (ps t) pc"
  then obtain h where h: "held_by h ps m" by (auto simp: mutex_inv_def)
  then have "held_by h (ps(t := pc)) m"
    using mutex_call_pcs [OF c] unfolding held_by_def by (auto split: option.splits)
  then show "mutex_inv es (ps(t := pc)) m" by (auto simp: mutex_inv_def)
next
  fix es ps m t pc m' e
  assume "mutex_inv es ps m" and r: "mutex_run_awake t (ps t) m = Some (pc, m', e)"
  then obtain h where h: "held_by h ps m" by (auto simp: mutex_inv_def)
  have "\<exists>h'. held_by h' (ps(t := pc)) m'"
  proof (cases "h = Some t")
    case True
    then have "(ps t, m_owner m) \<in> inside_pcs t" "m_locked m = 1" using h by (simp_all add: held_by_def)
    from inside_run [OF r this] show ?thesis
    proof cases
      case 1
      then have "held_by (Some t) (ps(t := pc)) m'" using h True by (simp add: held_by_def)
      then show ?thesis ..
    next
      case 2
      then have "held_by None (ps(t := pc)) m'" using h True by (simp add: held_by_def)
      then show ?thesis ..
    qed
  next
    case False
    have o: "ps t \<in> outside_pcs" "m_owner m \<noteq> Some t"
      using h False by (auto simp: held_by_def inside_pcs_def split: option.splits)
    from outside_run [OF r o] show ?thesis
    proof cases
      case 1
      then have "held_by h (ps(t := pc)) m'"
        using h False unfolding held_by_def by (auto split: option.splits)
      then show ?thesis ..
    next
      case 2
      then have "h = None" using h by (auto simp: held_by_def split: option.splits)
      then have "held_by (Some t) (ps(t := pc)) m'" using h 2 by (simp add: held_by_def)
      then show ?thesis ..
    qed
  qed
  then show "mutex_inv (es @ e) (ps(t := pc)) m'" by (simp add: mutex_inv_def)
qed

text \<open>
  C17: a mutex keeps processes apart in every interleaving in which no process leaves the sleeping loop of
  \<^verbatim>\<open>mutex_lock\<close>: at most one process holds it, and the fields tell which one. The operations that decide by a
  compare-and-swap (the fast path, the second test under the internal lock and \<^verbatim>\<open>mutex_trylock\<close>) and
  \<^verbatim>\<open>mutex_unlock\<close>, also by a process that does not own the mutex, are safe.
\<close>

theorem mutex_exclusive:
  assumes "interleaves mutex_call mutex_run_awake (\<lambda>_. MIdle, mutex_init m) es (ps, m')" and "ps t = MHeld"
  shows "mutex_owner m' = Some t \<and> mutex_is_locked m' \<and> (ps u = MHeld \<longrightarrow> u = t)"
proof -
  have "held_by None (\<lambda>_. MIdle) (mutex_init m)"
    by (simp add: held_by_def mutex_init_def outside_pcs_def atomic_write_def)
  then have "mutex_inv [] (\<lambda>_. MIdle) (mutex_init m)"
    unfolding mutex_inv_def ..
  then have "mutex_inv es ps m'"
    using mx.invariant [OF assms(1)] by simp
  then obtain h where h: "held_by h ps m'" by (auto simp: mutex_inv_def)
  have "h = Some v" if "ps v = MHeld" for v
  proof (rule ccontr)
    assume "h \<noteq> Some v"
    then have "ps v \<in> outside_pcs" using h by (simp add: held_by_def)
    then show False using that by (simp add: outside_pcs_def)
  qed
  then show ?thesis
    using h assms(2) by (auto simp: held_by_def inside_pcs_def mutex_owner_def mutex_is_locked_def atomic_read_def)
qed

lemmas mutex_eval = mutex_run_awake_def mutex_run_def mutex_ops mutex_init_def PID_MAX_def

theorem mutex_exclusive_witness:
  "\<exists>es ps m'. interleaves mutex_call mutex_run_awake
       (\<lambda>_. MIdle, mutex_init \<lparr>m_locked = 5, m_owner = Some 9, m_count = 0, m_wait_list = []\<rparr>) es (ps, m') \<and>
     ps 4 = MHeld \<and> mutex_owner m' = Some 4"
proof -
  let ?m = "\<lparr>m_locked = 5, m_owner = Some 9, m_count = 0, m_wait_list = []\<rparr>"
  have "\<exists>es ps m'. execute mutex_call mutex_run_awake [(4, Some MFast), (4, None), (4, None), (4, None)] []
      (\<lambda>_. MIdle, mutex_init ?m) = Some (es, ps, m') \<and> ps 4 = MHeld"
    by (simp add: mutex_eval)
  then show ?thesis
    using execute_interleaves [OF interleaves.start] mutex_exclusive by blast
qed

text \<open>
  A process that leaves the sleeping loop of \<^verbatim>\<open>mutex_lock\<close> takes the mutex with a plain write. When another
  process has locked the mutex after the test, both hold it.
\<close>

theorem mutex_sleeper_breaks_exclusion:
  "\<exists>es ps m'. interleaves mutex_call mutex_run (\<lambda>_. MIdle, mutex_init m) es (ps, m') \<and> ps 2 = MHeld \<and> ps 3 = MHeld"
proof -
  let ?as = "[(1, Some MFast), (1, None), (1, None), (1, None), (2, Some MFast), (2, None), (2, None), (2, None),
    (1, Some MUnlock), (1, None), (1, None), (1, None), (1, None), (1, None), (2, None), (2, None), (2, None),
    (3, Some MFast), (3, None), (3, None), (3, None), (2, None), (2, None), (2, None), (2, None)]"
  have "\<exists>es ps m'. execute mutex_call mutex_run ?as [] (\<lambda>_. MIdle, mutex_init m) = Some (es, ps, m') \<and> ps 2 = MHeld \<and> ps 3 = MHeld"
    by (simp add: mutex_eval)
  then show ?thesis
    using execute_interleaves [OF interleaves.start] by blast
qed

end
