(* ===== verification/Waitqueue.thy ===== *)
theory Waitqueue
  imports Sched_Props
begin

text \<open>
  Wait queues (\<open>kernel/sync/waitqueue.c\<close>, \<open>waitqueue.h\<close>) and condition variables (\<open>kernel/sync/condvar.c\<close>) on
  top of the scheduler. A wait queue is the list of its entries; the entry of a sleeping process lies on its
  stack and is named by its address. Each operation holds the spinlock of the queue, so it is one transition.
\<close>

subsection \<open>Wait queues\<close>

record wait_queue_entry =
  wq_at :: addr
  wq_task :: "addr option"
  wq_old_state :: process_state
  wq_exclusive :: bool

type_synonym wait_queue = "wait_queue_entry list"

definition init_waitqueue_head :: wait_queue where
  "init_waitqueue_head = []"

definition init_waitqueue_entry :: "addr \<Rightarrow> bool \<Rightarrow> scheduler \<Rightarrow> wait_queue_entry" where
  "init_waitqueue_entry a exclusive s =
     \<lparr>wq_at = a, wq_task = current s, wq_old_state = PROC_READY, wq_exclusive = exclusive\<rparr>"

definition add_wait_queue :: "wait_queue_entry \<Rightarrow> wait_queue \<Rightarrow> wait_queue" where
  "add_wait_queue e wq = wq @ [e]"

definition remove_wait_queue :: "wait_queue_entry \<Rightarrow> wait_queue \<Rightarrow> wait_queue" where
  "remove_wait_queue e wq = filter (\<lambda>x. wq_at x \<noteq> wq_at e) wq"

definition waitqueue_active :: "wait_queue \<Rightarrow> bool" where
  "waitqueue_active wq \<longleftrightarrow> wq \<noteq> []"

text \<open>The process gives up the processor in \<open>schedule\<close>; the operation ends there.\<close>

definition add_to_waitqueue_and_block :: "addr \<Rightarrow> bool \<Rightarrow> wait_queue \<times> scheduler \<Rightarrow> (wait_queue \<times> scheduler) option" where
  "add_to_waitqueue_and_block a exclusive = (\<lambda>(wq, s). do {
     let wq_entry = init_waitqueue_entry a exclusive s;
     let wq = add_wait_queue wq_entry wq;
     p \<leftarrow> current s;
     let s = set_state p PROC_BLOCKED s;
     (_, s) \<leftarrow> schedule s;
     Some (wq, s)
   })"

definition sleep_on :: "addr \<Rightarrow> wait_queue option \<times> scheduler \<Rightarrow> (wait_queue option \<times> scheduler) option" where
  "sleep_on a = (\<lambda>(wq, s). case wq of None \<Rightarrow> Some (None, s)
     | Some wq \<Rightarrow> map_option (apfst Some) (add_to_waitqueue_and_block a False (wq, s)))"

definition interruptible_sleep_on ::
  "addr \<Rightarrow> wait_queue option \<times> scheduler \<Rightarrow> (int \<times> wait_queue option \<times> scheduler) option" where
  "interruptible_sleep_on a = (\<lambda>(wq, s). case wq of None \<Rightarrow> Some (- 1, None, s)
     | Some wq \<Rightarrow> map_option (\<lambda>(wq, s). (0, Some wq, s)) (add_to_waitqueue_and_block a False (wq, s)))"

text \<open>Waking the process of an entry that has been removed.\<close>

definition wake_entry :: "wait_queue_entry \<Rightarrow> int \<times> scheduler \<Rightarrow> (int \<times> scheduler) option" where
  "wake_entry e = (\<lambda>(woken, s). case wq_task e of None \<Rightarrow> Some (woken, s)
     | Some p \<Rightarrow> do {
         let s = set_state p PROC_READY s;
         s \<leftarrow> sched_enqueue_task (Some p) False s;
         Some (woken + 1, s)
       })"

text \<open>The first loop of \<open>__wake_up_common\<close>, over the exclusive waiters.\<close>

fun wake_exclusive_loop ::
  "bool \<Rightarrow> int \<Rightarrow> wait_queue \<Rightarrow> int \<times> scheduler \<Rightarrow> (wait_queue \<times> int \<times> scheduler) option" where
  "wake_exclusive_loop exclusive_only nr_to_wake [] ws = Some ([], ws)"
| "wake_exclusive_loop exclusive_only nr_to_wake (e # es) (woken, s) =
     (if nr_to_wake > 0 \<and> woken \<ge> nr_to_wake then Some (e # es, woken, s)
      else if exclusive_only \<and> \<not> wq_exclusive e then
        map_option (apfst ((#) e)) (wake_exclusive_loop exclusive_only nr_to_wake es (woken, s))
      else if wq_exclusive e then do {
        (woken, s) \<leftarrow> wake_entry e (woken, s);
        if \<not> exclusive_only then Some (es, woken, s) else wake_exclusive_loop exclusive_only nr_to_wake es (woken, s)
      }
      else map_option (apfst ((#) e)) (wake_exclusive_loop exclusive_only nr_to_wake es (woken, s)))"

text \<open>The second loop, over the other waiters.\<close>

fun wake_normal_loop :: "int \<Rightarrow> wait_queue \<Rightarrow> int \<times> scheduler \<Rightarrow> (wait_queue \<times> int \<times> scheduler) option" where
  "wake_normal_loop nr_to_wake [] ws = Some ([], ws)"
| "wake_normal_loop nr_to_wake (e # es) (woken, s) =
     (if nr_to_wake > 0 \<and> woken \<ge> nr_to_wake then Some (e # es, woken, s)
      else if wq_exclusive e then map_option (apfst ((#) e)) (wake_normal_loop nr_to_wake es (woken, s))
      else do {
        (woken, s) \<leftarrow> wake_entry e (woken, s);
        wake_normal_loop nr_to_wake es (woken, s)
      })"

definition wake_up_common ::
  "bool \<Rightarrow> int \<Rightarrow> wait_queue option \<times> scheduler \<Rightarrow> (int \<times> wait_queue option \<times> scheduler) option" where
  "wake_up_common exclusive_only nr_to_wake = (\<lambda>(wq, s). case wq of None \<Rightarrow> Some (0, None, s)
     | Some q \<Rightarrow>
       if \<not> waitqueue_active q then Some (0, Some q, s)
       else do {
         (q, woken, s) \<leftarrow> wake_exclusive_loop exclusive_only nr_to_wake q (0, s);
         (q, woken, s) \<leftarrow> (if woken < nr_to_wake \<or> nr_to_wake = 0 then wake_normal_loop nr_to_wake q (woken, s)
           else Some (q, woken, s));
         let s = (if woken > 0 then sched_set_resched s else s);
         Some (woken, Some q, s)
       })"

definition wake_up :: "wait_queue option \<times> scheduler \<Rightarrow> (wait_queue option \<times> scheduler) option" where
  "wake_up x = map_option snd (wake_up_common False 1 x)"

definition wake_up_all :: "wait_queue option \<times> scheduler \<Rightarrow> (wait_queue option \<times> scheduler) option" where
  "wake_up_all x = map_option snd (wake_up_common False 0 x)"

definition wake_up_exclusive :: "wait_queue option \<times> scheduler \<Rightarrow> (wait_queue option \<times> scheduler) option" where
  "wake_up_exclusive x = map_option snd (wake_up_common True 1 x)"

subsection \<open>Condition variables\<close>

text \<open>
  A waiter lies on the stack of its process and points to a wait queue there. The state has the list of waiters,
  the wait queues by address and the scheduler.
\<close>

record condvar_waiter =
  cw_at :: addr
  cw_task :: "addr option"
  cw_wq :: "addr option"

record condvar_state =
  waiters :: "condvar_waiter list"
  wait_queues :: "addr \<Rightarrow> wait_queue"
  sched :: scheduler

definition condvar_init :: "condvar_state \<Rightarrow> condvar_state" where
  "condvar_init s = s\<lparr>waiters := []\<rparr>"

text \<open>
  \<open>condvar_wait\<close> in three parts, between which it calls \<open>mutex_unlock\<close> and \<open>mutex_lock\<close>: it puts a waiter with
  a new wait queue on the list; it sleeps on the queue; it takes the waiter from the list.
\<close>

definition condvar_wait_enqueue :: "addr \<Rightarrow> addr \<Rightarrow> condvar_state \<Rightarrow> condvar_state" where
  "condvar_wait_enqueue a wq s =
     s\<lparr>wait_queues := (wait_queues s)(wq := init_waitqueue_head),
       waiters := waiters s @ [\<lparr>cw_at = a, cw_task = current (sched s), cw_wq = Some wq\<rparr>]\<rparr>"

definition condvar_wait_sleep :: "addr \<Rightarrow> addr \<Rightarrow> condvar_state \<Rightarrow> condvar_state option" where
  "condvar_wait_sleep e wq s = do {
     (q, sch) \<leftarrow> sleep_on e (Some (wait_queues s wq), sched s);
     q \<leftarrow> q;
     Some (s\<lparr>wait_queues := (wait_queues s)(wq := q), sched := sch\<rparr>)
   }"

definition condvar_wait_dequeue :: "addr \<Rightarrow> condvar_state \<Rightarrow> condvar_state" where
  "condvar_wait_dequeue a s = s\<lparr>waiters := filter (\<lambda>w. cw_at w \<noteq> a) (waiters s)\<rparr>"

definition condvar_wake :: "addr \<Rightarrow> condvar_state \<Rightarrow> condvar_state option" where
  "condvar_wake wq s = do {
     (q, sch) \<leftarrow> wake_up (Some (wait_queues s wq), sched s);
     q \<leftarrow> q;
     Some (s\<lparr>wait_queues := (wait_queues s)(wq := q), sched := sch\<rparr>)
   }"

definition condvar_signal :: "condvar_state \<Rightarrow> condvar_state option" where
  "condvar_signal s = (case waiters s of [] \<Rightarrow> Some s
     | w # ws \<Rightarrow>
       let s = s\<lparr>waiters := ws\<rparr> in
       case cw_wq w of Some wq \<Rightarrow> condvar_wake wq s | None \<Rightarrow> Some s)"

text \<open>The loop over the waiters collects the wait queues into an array of 32 elements.\<close>

fun collect_wqs :: "condvar_waiter list \<Rightarrow> addr list \<Rightarrow> addr list" where
  "collect_wqs [] wq_list = wq_list"
| "collect_wqs (w # ws) wq_list =
     (case cw_wq w of Some wq \<Rightarrow> if length wq_list < 32 then collect_wqs ws (wq_list @ [wq]) else collect_wqs ws wq_list
      | None \<Rightarrow> collect_wqs ws wq_list)"

definition condvar_broadcast :: "condvar_state \<Rightarrow> condvar_state option" where
  "condvar_broadcast s = do {
     let wq_list = collect_wqs (waiters s) [];
     let s = s\<lparr>waiters := []\<rparr>;
     fold_opt condvar_wake wq_list s
   }"

end
