(* ===== verification/Waitqueue_Props.thy ===== *)
theory Waitqueue_Props
  imports Waitqueue
begin

text \<open>
  Properties of wait queues and condition variables: which waiters an operation wakes, and that waking keeps the
  scheduler well formed.
\<close>

subsection \<open>Waking\<close>

text \<open>The scheduler after the given tasks have been made ready and queued, in this order.\<close>

definition awake :: "addr list \<Rightarrow> scheduler \<Rightarrow> scheduler \<Rightarrow> bool" where
  "awake ts s s' \<longleftrightarrow> queues_inv s' \<and> run_queue s' = run_queue s @ ts \<and> current s' = current s \<and>
     (\<forall>p. se (pcbs s' p) = se (pcbs s p) \<and> state (pcbs s' p) = (if p \<in> set ts then PROC_READY else state (pcbs s p)))"

text \<open>The entries of a queue belong to different tasks that are on no run queue.\<close>

definition sleepers :: "wait_queue \<Rightarrow> scheduler \<Rightarrow> bool" where
  "sleepers q s \<longleftrightarrow> queues_inv s \<and> length (run_queue s) + length q + 1 < 2 ^ 32 \<and> distinct (map wq_task q) \<and>
     (\<forall>e \<in> set q. \<exists>p. wq_task e = Some p \<and> p \<notin> set (run_queue s) \<and> entity_ok (se (pcbs s p)))"

abbreviation tasks :: "wait_queue \<Rightarrow> addr list" where
  "tasks q \<equiv> map (\<lambda>e. the (wq_task e)) q"

lemma awake_refl: "queues_inv s \<Longrightarrow> awake [] s s"
  by (simp add: awake_def)

lemma awake_trans: "awake ts s s1 \<Longrightarrow> awake us s1 s2 \<Longrightarrow> awake (ts @ us) s s2"
  unfolding awake_def by simp

lemma awake_resched: "awake ts s s' \<Longrightarrow> awake ts s (sched_set_resched s')"
proof -
  assume a: "awake ts s s'"
  then have "queues_inv s'"
    by (simp add: awake_def)
  then have "queues_inv (sched_set_resched s')"
    by (intro queues_inv_cong [of s' "sched_set_resched s'"]) (simp_all add: sched_set_resched_def)
  then show ?thesis using a by (simp add: awake_def sched_set_resched_def)
qed

lemma sleepersD:
  "sleepers q s \<Longrightarrow> e \<in> set q \<Longrightarrow> \<exists>p. wq_task e = Some p \<and> p \<notin> set (run_queue s) \<and> entity_ok (se (pcbs s p))"
  unfolding sleepers_def by blast

lemma sleepers_awake:
  assumes s: "sleepers (e # q) s" and a: "awake [the (wq_task e)] s s'"
  shows "sleepers q s'"
proof -
  obtain p where p: "wq_task e = Some p"
    using sleepersD [OF s] by auto
  have "\<exists>u. wq_task x = Some u \<and> u \<notin> set (run_queue s') \<and> entity_ok (se (pcbs s' u))" if x: "x \<in> set q" for x
  proof -
    obtain u where u: "wq_task x = Some u" "u \<notin> set (run_queue s)" "entity_ok (se (pcbs s u))"
      using sleepersD [OF s, of x] x by auto
    moreover have "u \<noteq> p"
      using s x u(1) p imageI [of x "set q" wq_task] by (auto simp: sleepers_def)
    ultimately show ?thesis
      using a p by (simp add: awake_def)
  qed
  then show ?thesis
    using s a by (simp add: sleepers_def awake_def)
qed

lemma wake_entry_ok:
  assumes "sleepers (e # q) s"
  shows "\<exists>s'. wake_entry e (w, s) = Some (w + 1, s') \<and> awake [the (wq_task e)] s s' \<and> sleepers q s'"
proof -
  obtain p where p: "wq_task e = Some p" "p \<notin> set (run_queue s)" "entity_ok (se (pcbs s p))"
    and inv: "queues_inv s" and len: "length (run_queue s) + 1 < 2 ^ 32"
    using assms by (auto simp: sleepers_def)
  let ?s = "set_state p PROC_READY s"
  have "queues_inv ?s"
    using p(2) by (intro queues_inv_cong [OF inv]) (auto simp: set_state_def)
  then obtain s' where s': "sched_enqueue_task (Some p) False ?s = Some s'" "queues_inv s'" "run_queue s' = run_queue s @ [p]"
      "pcbs s' = pcbs ?s" "current s' = current s"
    using enqueue_inv [of ?s p False] len p by auto
  then have a: "awake [p] s s'"
    by (auto simp: awake_def)
  have "sleepers q s'"
    using sleepers_awake [OF assms] a p(1) by simp
  then show ?thesis
    using a s'(1) p(1) by (simp add: wake_entry_def)
qed

lemma sleepers_sub: "sleepers (xs @ ys) s \<Longrightarrow> sleepers ys s"
  by (auto simp: sleepers_def)

lemma sleepers_remove: "sleepers (xs @ e # ys) s \<Longrightarrow> sleepers (e # xs @ ys) s"
  by (auto simp: sleepers_def)

text \<open>The first loop wakes the first exclusive waiter, if there is one.\<close>

lemma exclusive_loop:
  assumes "\<forall>e \<in> set xs. \<not> wq_exclusive e" "nr \<le> 0 \<or> w < nr"
  shows "wake_exclusive_loop False nr (xs @ ys) (w, s) =
    map_option (apfst ((@) xs)) (wake_exclusive_loop False nr ys (w, s))"
  using assms
proof (induction xs)
  case (Cons x xs)
  then show ?case
    by (cases "wake_exclusive_loop False nr ys (w, s)") auto
qed (cases "wake_exclusive_loop False nr ys (w, s)"; auto)

lemma exclusive_loop_first:
  assumes "sleepers (xs @ e # ys) s" "\<forall>x \<in> set xs. \<not> wq_exclusive x" "wq_exclusive e" "nr = 0 \<or> nr = 1"
  shows "\<exists>s'. wake_exclusive_loop False nr (xs @ e # ys) (0, s) = Some (xs @ ys, 1, s') \<and>
    awake [the (wq_task e)] s s' \<and> sleepers (xs @ ys) s'"
  using wake_entry_ok [OF sleepers_remove [OF assms(1)], of 0] exclusive_loop [OF assms(2), of nr 0 "e # ys" s] assms(3,4)
  by auto

lemma exclusive_loop_none:
  assumes "\<forall>x \<in> set xs. \<not> wq_exclusive x" "nr = 0 \<or> nr = 1"
  shows "wake_exclusive_loop False nr xs (0, s) = Some (xs, 0, s)"
  using exclusive_loop [OF assms(1), of nr 0 "[]" s] assms(2) by auto

text \<open>The second loop without a limit wakes all waiters that are not exclusive.\<close>

lemma normal_loop_all:
  assumes "sleepers q s"
  shows "\<exists>s' w'. wake_normal_loop 0 q (w, s) = Some (filter wq_exclusive q, w', s') \<and> w \<le> w' \<and>
    awake (tasks (filter (\<lambda>e. \<not> wq_exclusive e) q)) s s'"
  using assms
proof (induction q arbitrary: w s)
  case Nil
  then show ?case by (simp add: awake_refl sleepers_def)
next
  case (Cons e q)
  show ?case
  proof (cases "wq_exclusive e")
    case True
    then show ?thesis using Cons.IH [OF sleepers_sub [of "[e]" q s], of w] Cons.prems by auto
  next
    case False
    obtain s1 where s1: "wake_entry e (w, s) = Some (w + 1, s1)" "awake [the (wq_task e)] s s1" "sleepers q s1"
      using wake_entry_ok [OF Cons.prems] by blast
    obtain s' w' where "wake_normal_loop 0 q (w + 1, s1) = Some (filter wq_exclusive q, w', s')" "w + 1 \<le> w'"
        "awake (tasks (filter (\<lambda>e. \<not> wq_exclusive e) q)) s1 s'"
      using Cons.IH [OF s1(3), of "w + 1"] by blast
    then show ?thesis
      using False s1(1) awake_trans [OF s1(2)] by auto
  qed
qed

text \<open>The waiter that \<open>wake_up\<close> chooses.\<close>

definition wake_choice :: "wait_queue \<Rightarrow> wait_queue_entry" where
  "wake_choice q = (case find wq_exclusive q of Some e \<Rightarrow> e | None \<Rightarrow> hd q)"

lemma wake_up_one:
  assumes "sleepers q s" "q \<noteq> []"
  shows "\<exists>s'. wake_up (Some q, s) = Some (Some (remove1 (wake_choice q) q), s') \<and>
    awake [the (wq_task (wake_choice q))] s s' \<and> need_resched s'"
proof (cases "\<exists>e \<in> set q. wq_exclusive e")
  case True
  then obtain xs e ys where q: "q = xs @ e # ys" "wq_exclusive e" "\<forall>x \<in> set xs. \<not> wq_exclusive x"
    by (metis split_list_first_prop)
  obtain s' where s': "wake_exclusive_loop False 1 q (0, s) = Some (xs @ ys, 1, s')" "awake [the (wq_task e)] s s'"
    using exclusive_loop_first [of xs e ys s 1] assms(1) q by auto
  have "find wq_exclusive q = Some e"
    unfolding q(1) using q(2,3) by (induction xs) auto
  then have "wake_choice q = e" "remove1 e q = xs @ ys"
    using q by (auto simp: wake_choice_def remove1_append)
  then show ?thesis
    using s'(1) awake_resched [OF s'(2)] assms(2)
    by (simp add: wake_up_def wake_up_common_def waitqueue_active_def sched_set_resched_def)
next
  case False
  then obtain e ys where q: "q = e # ys" "\<not> wq_exclusive e" and n: "\<forall>x \<in> set q. \<not> wq_exclusive x"
    using assms(2) by (cases q) auto
  obtain s' where s': "wake_entry e (0, s) = Some (1, s')" "awake [the (wq_task e)] s s'"
    using wake_entry_ok [of e ys s 0] assms(1) q by auto
  have "wake_normal_loop 1 q (0, s) = Some (ys, 1, s')"
    using q s'(1) by (cases ys) auto
  moreover have "find wq_exclusive q = None"
    using n by (simp add: find_None_iff)
  then have "wake_choice q = e" "remove1 e q = ys"
    using q by (auto simp: wake_choice_def)
  ultimately show ?thesis
    using exclusive_loop_none [OF n, of 1 s] awake_resched [OF s'(2)] assms(2)
    by (simp add: wake_up_def wake_up_common_def waitqueue_active_def sched_set_resched_def)
qed

lemma wake_up_all_others:
  assumes "sleepers q s"
  shows "\<exists>s'. wake_up_all (Some q, s) = Some (Some (drop 1 (filter wq_exclusive q)), s') \<and>
    awake (tasks (take 1 (filter wq_exclusive q) @ filter (\<lambda>e. \<not> wq_exclusive e) q)) s s'"
proof (cases "\<exists>e \<in> set q. wq_exclusive e")
  case True
  then obtain xs e ys where q: "q = xs @ e # ys" "wq_exclusive e" "\<forall>x \<in> set xs. \<not> wq_exclusive x"
    by (metis split_list_first_prop)
  obtain s1 where s1: "wake_exclusive_loop False 0 q (0, s) = Some (xs @ ys, 1, s1)" "awake [the (wq_task e)] s s1" "sleepers (xs @ ys) s1"
    using exclusive_loop_first [of xs e ys s 0] assms q by auto
  obtain s' w' where s': "wake_normal_loop 0 (xs @ ys) (1, s1) = Some (filter wq_exclusive (xs @ ys), w', s')" "1 \<le> w'"
      "awake (tasks (filter (\<lambda>e. \<not> wq_exclusive e) (xs @ ys))) s1 s'"
    using normal_loop_all [OF s1(3), of 1] by blast
  have f: "filter wq_exclusive q = e # filter wq_exclusive ys" "filter (\<lambda>e. \<not> wq_exclusive e) q = filter (\<lambda>e. \<not> wq_exclusive e) (xs @ ys)"
    using q by simp_all
  have "filter wq_exclusive xs = []" using q(3) by (simp add: filter_empty_conv)
  then show ?thesis
    using s1(1) s'(1,2) awake_resched [OF awake_trans [OF s1(2) s'(3)]] q(1) f
    by (simp add: wake_up_all_def wake_up_common_def waitqueue_active_def)
next
  case False
  then have n: "\<forall>x \<in> set q. \<not> wq_exclusive x" by simp
  then have f: "filter wq_exclusive q = []" "filter (\<lambda>e. \<not> wq_exclusive e) q = q"
    by (simp_all add: filter_empty_conv)
  obtain s' w' where "wake_normal_loop 0 q (0, s) = Some (filter wq_exclusive q, w', s')"
      "awake (tasks (filter (\<lambda>e. \<not> wq_exclusive e) q)) s s'"
    using normal_loop_all [OF assms, of 0] by blast
  then show ?thesis
    using exclusive_loop_none [OF n, of 0 s] awake_resched [of "tasks q" s s'] assms f awake_refl [of s]
    by (cases "q = []") (auto simp: wake_up_all_def wake_up_common_def waitqueue_active_def sleepers_def)
qed

text \<open>
  C20: what waking does to a queue of sleeping processes. \<^verbatim>\<open>wake_up\<close> wakes exactly one, the first exclusive waiter
  or else the first waiter. \<^verbatim>\<open>wake_up_all\<close> wakes the first exclusive waiter and then all that are not exclusive, and
  leaves the other exclusive waiters asleep. A woken process is taken from the queue, made ready and put at the end
  of the run queue; the others keep their order and state, and the scheduler stays well formed.
\<close>

theorem wake_up_spec:
  assumes "sleepers q s" and "q \<noteq> []"
  shows "(\<exists>s'. wake_up (Some q, s) = Some (Some (remove1 (wake_choice q) q), s') \<and>
      awake [the (wq_task (wake_choice q))] s s' \<and> need_resched s') \<and>
    (\<exists>s'. wake_up_all (Some q, s) = Some (Some (drop 1 (filter wq_exclusive q)), s') \<and>
      awake (tasks (take 1 (filter wq_exclusive q) @ filter (\<lambda>e. \<not> wq_exclusive e) q)) s s')"
  using wake_up_one [OF assms] wake_up_all_others [OF assms(1)] by blast

text \<open>Two processes sleep, the second of them exclusively; processes 2 and 3 are ready.\<close>

definition demo_entry_of :: "addr \<Rightarrow> bool \<Rightarrow> wait_queue_entry" where
  "demo_entry_of p x = \<lparr>wq_at = p, wq_task = Some p, wq_old_state = PROC_READY, wq_exclusive = x\<rparr>"

lemma demo_sleepers: "sleepers [demo_entry_of 7 False, demo_entry_of 8 True] demo_sched"
proof -
  have "queues_inv demo_sched"
    using demo_running(1) by (simp add: rr_running_def sched_inv_def)
  then show ?thesis
    by (simp add: sleepers_def demo_entry_of_def demo_sched_def entity_ok_def class_for_def demo_pcb_def)
qed

theorem wake_up_spec_witness:
  "\<exists>s'. wake_up (Some [demo_entry_of 7 False, demo_entry_of 8 True], demo_sched) = Some (Some [demo_entry_of 7 False], s') \<and>
     run_queue s' = [2, 3, 8]"
proof -
  have "wake_choice [demo_entry_of 7 False, demo_entry_of 8 True] = demo_entry_of 8 True" "run_queue demo_sched = [2, 3]"
    by (simp_all add: wake_choice_def demo_entry_of_def demo_sched_def)
  then show ?thesis
    using wake_up_spec [OF demo_sleepers] by (auto simp: awake_def demo_entry_of_def)
qed

subsection \<open>Condition variables\<close>

lemma condvar_wake_one:
  assumes "sleepers (e # q) (sched s)" "wait_queues s wq = [e]"
  shows "\<exists>s'. condvar_wake wq s = Some s' \<and> awake [the (wq_task e)] (sched s) (sched s') \<and> sleepers q (sched s') \<and>
    waiters s' = waiters s \<and> wait_queues s' = (wait_queues s)(wq := [])"
proof -
  have "sleepers [e] (sched s)"
    using assms(1) by (auto simp: sleepers_def)
  moreover have "wake_choice [e] = e"
    by (simp add: wake_choice_def)
  ultimately obtain s' where s': "wake_up (Some [e], sched s) = Some (Some [], s')" "awake [the (wq_task e)] (sched s) s'"
    using wake_up_one [of "[e]" "sched s"] by auto
  have "sleepers q s'"
    by (rule sleepers_awake [OF assms(1) s'(2)])
  then show ?thesis
    using s' assms(2) by (simp add: condvar_wake_def)
qed

lemma condvar_wake_all:
  assumes "sleepers (map e wqs) (sched s)" "\<And>wq. wq \<in> set wqs \<Longrightarrow> wait_queues s wq = [e wq]" "distinct wqs"
  shows "\<exists>s'. fold_opt condvar_wake wqs s = Some s' \<and> awake (tasks (map e wqs)) (sched s) (sched s') \<and>
    waiters s' = waiters s \<and> wait_queues s' = (\<lambda>wq. if wq \<in> set wqs then [] else wait_queues s wq)"
  using assms
proof (induction wqs arbitrary: s)
  case Nil
  then show ?case by (simp add: awake_refl sleepers_def)
next
  case (Cons wq wqs)
  obtain s1 where s1: "condvar_wake wq s = Some s1" "awake [the (wq_task (e wq))] (sched s) (sched s1)" "sleepers (map e wqs) (sched s1)"
      "waiters s1 = waiters s" "wait_queues s1 = (wait_queues s)(wq := [])"
    using condvar_wake_one [of "e wq" "map e wqs" s wq] Cons.prems by auto
  have "wait_queues s1 w = [e w]" if "w \<in> set wqs" for w
    using that Cons.prems(2,3) s1(5) by auto
  then obtain s' where s': "fold_opt condvar_wake wqs s1 = Some s'" "awake (tasks (map e wqs)) (sched s1) (sched s')"
      "waiters s' = waiters s1" "wait_queues s' = (\<lambda>w. if w \<in> set wqs then [] else wait_queues s1 w)"
    using Cons.IH [OF s1(3)] Cons.prems(3) by auto
  then show ?case
    using s1 awake_trans [OF s1(2) s'(2)] by (auto simp: fun_eq_iff)
qed

lemma collect_wqs_32:
  assumes "\<forall>w \<in> set ws. cw_wq w \<noteq> None" "length acc \<le> 32"
  shows "collect_wqs ws acc = acc @ take (32 - length acc) (map (\<lambda>w. the (cw_wq w)) ws)"
  using assms by (induction ws arbitrary: acc) (auto split: if_splits simp: take_Cons' Suc_diff_le)

text \<open>
  C21: \<^verbatim>\<open>condvar_broadcast\<close> takes all waiters from the list but wakes at most 32 of them. The processes of the first 32
  waiters become ready; the wait queues of the others are left as they are, and since no list refers to them any
  more, no later signal or broadcast reaches them.
\<close>

theorem condvar_broadcast_wakes_32:
  assumes "distinct (map cw_wq (waiters s))" and "\<forall>w \<in> set (waiters s). cw_wq w \<noteq> None \<and> wait_queues s (the (cw_wq w)) = [e w]"
    and "sleepers (map e (take 32 (waiters s))) (sched s)"
  shows "\<exists>s'. condvar_broadcast s = Some s' \<and> waiters s' = [] \<and>
    awake (tasks (map e (take 32 (waiters s)))) (sched s) (sched s') \<and>
    (\<forall>w \<in> set (drop 32 (waiters s)). wait_queues s' (the (cw_wq w)) = [e w]) \<and> condvar_broadcast s' = Some s'"
proof -
  let ?wq = "\<lambda>w. the (cw_wq w)" and ?ws = "take 32 (waiters s)"
  let ?s = "s\<lparr>waiters := []\<rparr>"
  have d: "distinct (waiters s)" and "inj_on cw_wq (set (waiters s))"
    using assms(1) by (simp_all add: distinct_map)
  then have inj: "inj_on ?wq (set (waiters s))"
    using assms(2) by (intro inj_onI) (metis inj_on_def option.expand)
  define f where "f = (\<lambda>wq. e (the_inv_into (set (waiters s)) ?wq wq))"
  have f: "f (?wq w) = e w" if "w \<in> set (waiters s)" for w
    using the_inv_into_f_f [OF inj that] by (simp add: f_def)
  have sub: "set ?ws \<subseteq> set (waiters s)" by (rule set_take_subset)
  have m: "map f (map ?wq ?ws) = map e ?ws"
    using f sub by auto
  have fq: "wait_queues s q = [f q]" if "q \<in> set (map ?wq ?ws)" for q
    using that f sub assms(2) by auto
  have "distinct (map ?wq ?ws)"
    using inj_on_subset [OF inj sub] d by (simp add: distinct_map)
  then obtain s' where s': "fold_opt condvar_wake (map ?wq ?ws) ?s = Some s'" "awake (tasks (map e ?ws)) (sched s) (sched s')"
      "waiters s' = []" "wait_queues s' = (\<lambda>wq. if wq \<in> set (map ?wq ?ws) then [] else wait_queues s wq)"
    using condvar_wake_all [of f "map ?wq ?ws" ?s, unfolded m] assms(3) fq by (auto cong: if_cong)
  have "wait_queues s' (?wq w) = [e w]" if w: "w \<in> set (drop 32 (waiters s))" for w
  proof -
    have "w \<in> set (waiters s)" "w \<notin> set ?ws"
      using in_set_dropD [OF w] set_take_disj_set_drop_if_distinct [OF d, of 32 32] w by auto
    then show ?thesis
      using s'(4) assms(2) inj sub by (auto simp: inj_on_def)
  qed
  moreover have "condvar_broadcast s = Some s'"
    using s'(1) collect_wqs_32 [of "waiters s" "[]"] assms(2) by (simp add: condvar_broadcast_def take_map)
  moreover have "condvar_broadcast s' = Some s'"
    using s'(3) by (simp add: condvar_broadcast_def)
  ultimately show ?thesis using s' by blast
qed

theorem condvar_broadcast_wakes_32_witness:
  "\<exists>s'. condvar_broadcast \<lparr>waiters = [\<lparr>cw_at = 1, cw_task = Some 7, cw_wq = Some 100\<rparr>],
       wait_queues = (\<lambda>_. [demo_entry_of 7 False]), sched = demo_sched\<rparr> = Some s' \<and> waiters s' = [] \<and> run_queue (sched s') = [2, 3, 7]"
proof -
  let ?s = "\<lparr>waiters = [\<lparr>cw_at = 1, cw_task = Some 7, cw_wq = Some 100\<rparr>],
    wait_queues = (\<lambda>_. [demo_entry_of 7 False]), sched = demo_sched\<rparr>"
  have "sleepers [demo_entry_of 7 False] demo_sched"
    using demo_sleepers by (simp add: sleepers_def)
  moreover have "run_queue demo_sched = [2, 3]"
    by (simp add: demo_sched_def)
  ultimately show ?thesis
    using condvar_broadcast_wakes_32 [of ?s "\<lambda>_. demo_entry_of 7 False"] by (auto simp: awake_def demo_entry_of_def)
qed

text \<open>
  \<^verbatim>\<open>condvar_wait\<close> releases the mutex before it sleeps. A signal in between takes the waiter from the list and
  finds its wait queue empty; the process then sleeps although it was signalled, and neither a later signal nor a
  broadcast wakes it.
\<close>

theorem condvar_signal_lost:
  assumes "sched_inv (sched s)" and "current (sched s) = Some p" and "waiters s = []"
  shows "\<exists>s2 s3. condvar_signal (condvar_wait_enqueue a wq s) = Some s2 \<and> sched s2 = sched s \<and>
    condvar_wait_sleep b wq s2 = Some s3 \<and> wait_queues s3 wq \<noteq> [] \<and> p \<notin> runnable (sched s3) \<and>
    condvar_signal s3 = Some s3 \<and> condvar_broadcast s3 = Some s3"
proof -
  let ?s2 = "s\<lparr>wait_queues := (wait_queues s)(wq := [])\<rparr>"
  have s2: "condvar_signal (condvar_wait_enqueue a wq s) = Some ?s2"
    using assms(3) by (simp add: condvar_signal_def condvar_wait_enqueue_def condvar_wake_def wake_up_def wake_up_common_def
      waitqueue_active_def init_waitqueue_head_def)
  let ?sch = "set_state p PROC_BLOCKED (sched s)"
  have "queues_inv ?sch"
    using assms(1,2) by (intro queues_inv_cong [of "sched s" ?sch]) (auto simp: sched_inv_def set_state_def)
  then have "sched_inv ?sch"
    using assms(1) by (simp add: sched_inv_def)
  then obtain r sch' where sch: "schedule ?sch = Some (r, sch')" "runnable sch' = runnable ?sch"
    using schedule_inv by blast
  have "p \<notin> runnable ?sch"
    using assms(1,2) by (auto simp: runnable_def sched_inv_def)
  moreover have "\<exists>s3. condvar_wait_sleep b wq ?s2 = Some s3 \<and> wait_queues s3 wq \<noteq> [] \<and> sched s3 = sch' \<and> waiters s3 = []"
    using sch assms(2,3) by (simp add: condvar_wait_sleep_def sleep_on_def add_to_waitqueue_and_block_def add_wait_queue_def)
  ultimately obtain s3 where "condvar_wait_sleep b wq ?s2 = Some s3" "wait_queues s3 wq \<noteq> []" "p \<notin> runnable (sched s3)" "waiters s3 = []"
    using sch(2) by auto
  then show ?thesis
    using s2 by (intro exI [of _ ?s2] exI [of _ s3]) (auto simp: condvar_signal_def condvar_broadcast_def)
qed

theorem condvar_signal_lost_witness:
  "\<exists>s2 s3. condvar_signal (condvar_wait_enqueue 5 6 \<lparr>waiters = [], wait_queues = (\<lambda>_. []), sched = demo_sched\<rparr>) = Some s2 \<and>
     condvar_wait_sleep 7 6 s2 = Some s3 \<and> 1 \<notin> runnable (sched s3)"
proof -
  have "sched_inv demo_sched" "current demo_sched = Some 1"
    using demo_running(1) by (simp_all add: rr_running_def demo_sched_def)
  then show ?thesis
    using condvar_signal_lost [of "\<lparr>waiters = [], wait_queues = (\<lambda>_. []), sched = demo_sched\<rparr>" 1 5 6 7] by auto
qed

end
