(* ===== verification/Vmm.thy ===== *)
theory Vmm
  imports Cow
begin

text \<open>
  The virtual memory manager (\<open>kernel/mm/vmm/vmm.c\<close>, \<open>vmm.h\<close>, \<open>vmm_config.h\<close>).

  The state holds the static variables of \<open>vmm.c\<close> and the state of the page tables. The array \<open>s_regions\<close> and
  \<open>s_region_count\<close> are the list of the tracked regions. \<open>s_vmm_lock\<close> protects the variables; the operations are
  transitions. \<open>cr3_loads\<close> counts the reloads of CR3 that flush the TLB.
\<close>

subsection \<open>Data\<close>

datatype vmm_result =
  VMM_OK | VMM_ERR_NOT_INIT | VMM_ERR_OOM | VMM_ERR_INVALID | VMM_ERR_PERM | VMM_ERR_NOT_MAPPED | VMM_ERR_ALREADY_MAPPED

record memory_region =
  mr_start :: virtual_addr
  mr_end :: virtual_addr
  mr_phys_start :: physical_addr
  mr_flags :: u64
  mr_name :: string

record vmm_stats =
  total_pages :: u64
  mapped_pages :: u64
  kernel_pages :: u64
  user_pages :: u64
  page_tables :: u64

record vmm_state =
  vm_kernel_pml4 :: physical_addr
  vm_stats :: vmm_stats
  vm_regions :: "memory_region list"
  virt_hint :: virtual_addr
  vm_initialized :: bool
  pgs :: page_state
  cr3_loads :: nat

definition KERNEL_VIRT_BASE :: u64 where "KERNEL_VIRT_BASE = 0xFFFF800000000000"
definition KERNEL_TEXT_BASE :: u64 where "KERNEL_TEXT_BASE = 0xFFFFFFFF80000000"
definition KERNEL_TEXT_SIZE :: u64 where "KERNEL_TEXT_SIZE = 2 * 1024 * 1024"
definition KERNEL_DATA_BASE :: u64 where "KERNEL_DATA_BASE = KERNEL_TEXT_BASE + KERNEL_TEXT_SIZE"
definition KERNEL_DATA_SIZE :: u64 where "KERNEL_DATA_SIZE = 2 * 1024 * 1024"
definition HEAP_BASE :: u64 where "HEAP_BASE = 0xFFFFFFFF81000000"
definition HEAP_MAX :: u64 where "HEAP_MAX = HEAP_BASE + 128 * 1024 * 1024"
definition KERNEL_GENERAL_BASE :: u64 where "KERNEL_GENERAL_BASE = 0xFFFFFFFF88000000"
definition KERNEL_GENERAL_MAX :: u64 where "KERNEL_GENERAL_MAX = KERNEL_GENERAL_BASE + 128 * 1024 * 1024"
definition MAX_REGIONS :: nat where "MAX_REGIONS = 64"

definition upd_vstats :: "(vmm_stats \<Rightarrow> vmm_stats) \<Rightarrow> vmm_state \<Rightarrow> vmm_state" where
  "upd_vstats f s = s\<lparr>vm_stats := f (vm_stats s)\<rparr>"

definition vmm_is_kernel_addr :: "virtual_addr \<Rightarrow> bool" where
  "vmm_is_kernel_addr addr \<longleftrightarrow> addr \<ge> KERNEL_VIRT_BASE"

subsection \<open>Regions\<close>

definition check_region_collision :: "virtual_addr \<Rightarrow> virtual_addr \<Rightarrow> vmm_state \<Rightarrow> bool" where
  "check_region_collision start end s \<longleftrightarrow> list_ex (\<lambda>r. start < mr_end r \<and> end > mr_start r) (vm_regions s)"

text \<open>The search of \<open>find_free_virt_range\<close>; it returns the address found, or nothing at the end of the region.\<close>

partial_function (option) free_range_loop :: "vmm_state \<Rightarrow> u64 \<Rightarrow> u64 \<Rightarrow> virtual_addr \<Rightarrow> virtual_addr option option" where
  "free_range_loop s sz alignment hint =
     (if hint + sz \<le> KERNEL_GENERAL_MAX then
        if \<not> check_region_collision hint (hint + sz) s then Some (Some hint)
        else free_range_loop s sz alignment (hint + alignment)
      else Some None)"

definition find_free_virt_range :: "u64 \<Rightarrow> vmm_state \<Rightarrow> (vmm_result \<times> virtual_addr \<times> vmm_state) option" where
  "find_free_virt_range sz s = do {
     let hint = virt_hint s;
     let alignment = (if sz \<ge> PAGE_SIZE_2MB then PAGE_SIZE_2MB else PAGE_SIZE);
     let hint = (hint + alignment - 1) AND NOT (alignment - 1);
     found \<leftarrow> free_range_loop s sz alignment hint;
     case found of Some hint \<Rightarrow> Some (VMM_OK, hint, s\<lparr>virt_hint := hint + sz\<rparr>)
     | None \<Rightarrow> Some (VMM_ERR_OOM, 0, s)
   }"

definition add_region ::
  "virtual_addr \<Rightarrow> virtual_addr \<Rightarrow> physical_addr \<Rightarrow> u64 \<Rightarrow> string \<Rightarrow> vmm_state \<Rightarrow> vmm_state" where
  "add_region start end phys_start flags name s =
     (if length (vm_regions s) \<ge> MAX_REGIONS then s
      else s\<lparr>vm_regions := vm_regions s @ [\<lparr>mr_start = start, mr_end = end, mr_phys_start = phys_start, mr_flags = flags,
        mr_name = take 31 name\<rparr>]\<rparr>)"

definition find_region :: "virtual_addr \<Rightarrow> vmm_state \<Rightarrow> memory_region option" where
  "find_region addr s = find (\<lambda>r. addr \<ge> mr_start r \<and> addr < mr_end r) (vm_regions s)"

subsection \<open>Initialisation and address spaces\<close>

definition vmm_init :: "vmm_state \<Rightarrow> (vmm_result \<times> vmm_state) option" where
  "vmm_init s =
     (if vm_initialized s then Some (VMM_OK, s)
      else do {
        pml4 \<leftarrow> page_get_pml4 (pgs s);
        let s = s\<lparr>vm_kernel_pml4 := pml4\<rparr>;
        let s = add_region KERNEL_TEXT_BASE (KERNEL_TEXT_BASE + KERNEL_TEXT_SIZE) 0 0 ''kernel_text'' s;
        let s = add_region KERNEL_DATA_BASE (KERNEL_DATA_BASE + KERNEL_DATA_SIZE) 0 VMAP_FLAG_WRITE ''kernel_data'' s;
        let s = add_region HEAP_BASE HEAP_MAX 0 0 ''kernel_heap'' s;
        Some (VMM_OK, s\<lparr>vm_initialized := True\<rparr>)
      })"

definition vmm_get_kernel_pml4 :: "vmm_state \<Rightarrow> physical_addr option" where
  "vmm_get_kernel_pml4 s = do { ccos_assert (vm_initialized s); Some (vm_kernel_pml4 s) }"

definition vmm_load_pml4 :: "physical_addr \<Rightarrow> vmm_state \<Rightarrow> vmm_state" where
  "vmm_load_pml4 pml4_phys s = s\<lparr>pgs := (pgs s)\<lparr>cr3 := pml4_phys AND NOT 0xFFF\<rparr>\<rparr>"

definition vmm_get_stats :: "vmm_stats option \<Rightarrow> vmm_state \<Rightarrow> (vmm_result \<times> vmm_stats) option" where
  "vmm_get_stats stats s = do {
     ccos_assert (vm_initialized s);
     ccos_assert (stats \<noteq> None);
     Some (VMM_OK, vm_stats s)
   }"

subsection \<open>Single mappings\<close>

definition vmm_map_physical :: "physical_addr \<Rightarrow> u64 \<Rightarrow> vmm_state \<Rightarrow> (virtual_addr \<times> vmm_state) option" where
  "vmm_map_physical phys flags s = do {
     ccos_assert (vm_initialized s);
     (result, vaddr, s) \<leftarrow> find_free_virt_range PAGE_SIZE s;
     if result \<noteq> VMM_OK then Some (0, s)
     else do {
       (page_result, ps) \<leftarrow> page_map_page (vm_kernel_pml4 s) vaddr phys (flags OR VMAP_FLAG_WRITE) True (pgs s);
       let s = s\<lparr>pgs := ps\<rparr>;
       if page_result \<noteq> PAGE_OK then Some (0, s)
       else do {
         let s = add_region vaddr (vaddr + PAGE_SIZE) phys flags ''temp_mapping'' s;
         Some (vaddr, upd_vstats (\<lambda>t. t\<lparr>mapped_pages := mapped_pages t + 1, kernel_pages := kernel_pages t + 1\<rparr>) s)
       }
     }
   }"

definition vmm_unmap_physical :: "virtual_addr \<Rightarrow> vmm_state \<Rightarrow> (vmm_result \<times> vmm_state) option" where
  "vmm_unmap_physical virt s = do {
     ccos_assert (vm_initialized s);
     if find_region virt s = None then Some (VMM_ERR_NOT_MAPPED, s)
     else do {
       (result, ps) \<leftarrow> page_unmap_page (vm_kernel_pml4 s) virt False (pgs s);
       let s = s\<lparr>pgs := ps\<rparr>;
       if result \<noteq> PAGE_OK then Some (VMM_ERR_INVALID, s)
       else Some (VMM_OK, upd_vstats (\<lambda>t. t\<lparr>mapped_pages := mapped_pages t - 1, kernel_pages := kernel_pages t - 1\<rparr>) s)
     }
   }"

subsection \<open>Allocation\<close>

text \<open>The body of the loop of \<open>vmm_free_pages\<close>.\<close>

definition free_one :: "physical_addr \<Rightarrow> virtual_addr \<Rightarrow> page_state \<Rightarrow> page_state option" where
  "free_one pml4 vaddr ps = do {
     (result, paddr) \<leftarrow> page_virt_to_phys pml4 vaddr (Some 0) ps;
     ps \<leftarrow> (if result = PAGE_OK then do {
         paddr \<leftarrow> paddr;
         (_, P) \<leftarrow> pframe_free paddr (pool ps);
         Some (ps\<lparr>pool := P\<rparr>)
       } else Some ps);
     (_, ps) \<leftarrow> page_unmap_page pml4 vaddr False ps;
     Some ps
   }"

definition vmm_free_pages :: "virtual_addr \<Rightarrow> u64 \<Rightarrow> vmm_state \<Rightarrow> (vmm_result \<times> vmm_state) option" where
  "vmm_free_pages virt cnt s = do {
     ccos_assert (vm_initialized s);
     if cnt = 0 then Some (VMM_ERR_INVALID, s)
     else if virt AND (PAGE_SIZE - 1) \<noteq> 0 then Some (VMM_ERR_INVALID, s)
     else do {
       ps \<leftarrow> fold_opt (\<lambda>i. free_one (vm_kernel_pml4 s) (virt + of_nat i * PAGE_SIZE)) [0..<unat cnt] (pgs s);
       Some (VMM_OK, upd_vstats (\<lambda>t. t\<lparr>mapped_pages := mapped_pages t - cnt, kernel_pages := kernel_pages t - cnt\<rparr>) (s\<lparr>pgs := ps\<rparr>))
     }
   }"

text \<open>
  The search for an aligned run of frames of a huge page, with the number of retries that are left. It returns the
  aligned address, or \<open>None\<close> when the frames cannot be allocated or the retries are used up.
\<close>

fun alloc_aligned :: "nat \<Rightarrow> u64 \<Rightarrow> pframe_state \<Rightarrow> (physical_addr option \<times> pframe_state) option" where
  "alloc_aligned 0 page_size P = Some (None, P)"
| "alloc_aligned (Suc retries) page_size P = do {
     let frames_needed = page_size div PAGE_SIZE;
     let alloc_frames = frames_needed * 2;
     (pf_result, temp, P) \<leftarrow> pframe_alloc_n (Some 0) alloc_frames P;
     (pf_result, temp, P) \<leftarrow> (if pf_result \<noteq> PFRAME_OK then pframe_alloc_n temp frames_needed P else Some (pf_result, temp, P));
     if pf_result \<noteq> PFRAME_OK then Some (None, P)
     else do {
       temp \<leftarrow> temp;
       let paddr = (temp + page_size - 1) AND NOT (page_size - 1);
       if paddr + page_size \<le> temp + alloc_frames * PAGE_SIZE then do {
         let unused_count = (paddr - temp) div PAGE_SIZE;
         (_, P) \<leftarrow> (if unused_count > 0 then pframe_free_n temp unused_count P else Some (PFRAME_OK, P));
         let unused_end_count = alloc_frames - unused_count - frames_needed;
         (_, P) \<leftarrow> (if unused_end_count > 0 then pframe_free_n (paddr + page_size) unused_end_count P else Some (PFRAME_OK, P));
         Some (Some paddr, P)
       }
       else do {
         (_, P) \<leftarrow> pframe_free_n temp alloc_frames P;
         alloc_aligned retries page_size P
       }
     }
   }"

definition page_size_of :: "u64 \<Rightarrow> u64" where
  "page_size_of flags =
     (if flags AND VMAP_FLAG_HUGE_1GB \<noteq> 0 then PAGE_SIZE_1GB
      else if flags AND VMAP_FLAG_HUGE_2MB \<noteq> 0 then PAGE_SIZE_2MB else PAGE_SIZE)"

text \<open>The frames of one page, \<open>None\<close> when there are not enough.\<close>

definition alloc_frame_for :: "u64 \<Rightarrow> page_state \<Rightarrow> (physical_addr option \<times> page_state) option" where
  "alloc_frame_for page_size ps =
     (if page_size div PAGE_SIZE > 1 then do {
        (paddr, P) \<leftarrow> alloc_aligned 10 page_size (pool ps);
        Some (paddr, ps\<lparr>pool := P\<rparr>)
      } else do {
        (pf_result, paddr, P) \<leftarrow> pframe_alloc (Some 0) (pool ps);
        Some (if pf_result \<noteq> PFRAME_OK then None else paddr, ps\<lparr>pool := P\<rparr>)
      })"

text \<open>
  The loop of \<open>vmm_alloc_pages\<close> and \<open>vmm_alloc_pages_at\<close>, over the indices still to be mapped; the result says
  whether all pages are mapped. A failure frees the pages mapped so far.
\<close>

fun alloc_loop :: "virtual_addr \<Rightarrow> u64 \<Rightarrow> u64 \<Rightarrow> nat list \<Rightarrow> vmm_state \<Rightarrow> (bool \<times> vmm_state) option" where
  "alloc_loop vaddr page_size flags [] s = Some (True, s)"
| "alloc_loop vaddr page_size flags (i # is) s = do {
     (paddr, ps) \<leftarrow> alloc_frame_for page_size (pgs s);
     let s = s\<lparr>pgs := ps\<rparr>;
     case paddr of
       None \<Rightarrow> do {
         (_, s) \<leftarrow> vmm_free_pages vaddr (of_nat i) s;
         Some (False, s)
       }
     | Some paddr \<Rightarrow> do {
         (page_result, ps) \<leftarrow> page_map_page (vm_kernel_pml4 s) (vaddr + of_nat i * page_size) paddr (flags OR VMAP_FLAG_WRITE) True (pgs s);
         let s = s\<lparr>pgs := ps\<rparr>;
         if page_result \<noteq> PAGE_OK then do {
           (_, P) \<leftarrow> (if page_size div PAGE_SIZE > 1 then pframe_free_n paddr (page_size div PAGE_SIZE) (pool (pgs s))
             else pframe_free paddr (pool (pgs s)));
           let s = s\<lparr>pgs := (pgs s)\<lparr>pool := P\<rparr>\<rparr>;
           (_, s) \<leftarrow> vmm_free_pages vaddr (of_nat i) s;
           Some (False, s)
         } else alloc_loop vaddr page_size flags is s
       }
   }"

definition vmm_alloc_pages :: "u64 \<Rightarrow> u64 \<Rightarrow> vmm_state \<Rightarrow> (virtual_addr \<times> vmm_state) option" where
  "vmm_alloc_pages cnt flags s = do {
     ccos_assert (vm_initialized s);
     if cnt = 0 then Some (0, s)
     else do {
       let page_size = page_size_of flags;
       (result, vaddr, s) \<leftarrow> find_free_virt_range (cnt * page_size) s;
       if result \<noteq> VMM_OK then Some (0, s)
       else do {
         (ok, s) \<leftarrow> alloc_loop vaddr page_size flags [0..<unat cnt] s;
         if \<not> ok then Some (0, s)
         else do {
           let s = add_region vaddr (vaddr + cnt * page_size) 0 flags ''allocated_pages'' s;
           let s = upd_vstats (\<lambda>t. t\<lparr>mapped_pages := mapped_pages t + cnt, kernel_pages := kernel_pages t + cnt,
             total_pages := total_pages t + cnt\<rparr>) s;
           Some (vaddr, s\<lparr>cr3_loads := cr3_loads s + 1\<rparr>)
         }
       }
     }
   }"

definition vmm_alloc_pages_at :: "virtual_addr \<Rightarrow> u64 \<Rightarrow> u64 \<Rightarrow> vmm_state \<Rightarrow> (vmm_result \<times> vmm_state) option" where
  "vmm_alloc_pages_at vaddr cnt flags s = do {
     ccos_assert (vm_initialized s);
     if cnt = 0 then Some (VMM_ERR_INVALID, s)
     else do {
       let page_size = page_size_of flags;
       if vaddr AND (page_size - 1) \<noteq> 0 then Some (VMM_ERR_INVALID, s)
       else if \<not> vmm_is_kernel_addr vaddr then Some (VMM_ERR_INVALID, s)
       else do {
         (ok, s) \<leftarrow> alloc_loop vaddr page_size flags [0..<unat cnt] s;
         if \<not> ok then Some (VMM_ERR_OOM, s)
         else do {
           let s = add_region vaddr (vaddr + cnt * page_size) 0 flags ''allocated_pages'' s;
           let region_end = vaddr + cnt * page_size;
           let s = (if virt_hint s < region_end then s\<lparr>virt_hint := region_end\<rparr> else s);
           let s = upd_vstats (\<lambda>t. t\<lparr>mapped_pages := mapped_pages t + cnt, kernel_pages := kernel_pages t + cnt,
             total_pages := total_pages t + cnt\<rparr>) s;
           Some (VMM_OK, s\<lparr>cr3_loads := cr3_loads s + 1\<rparr>)
         }
       }
     }
   }"

subsection \<open>User address spaces\<close>

definition vmm_create_user_space ::
  "physical_addr option \<Rightarrow> vmm_state \<Rightarrow> (vmm_result \<times> physical_addr option \<times> vmm_state) option" where
  "vmm_create_user_space out_pml4 s = do {
     ccos_assert (vm_initialized s);
     ccos_assert (out_pml4 \<noteq> None);
     (result, out_pml4, ps) \<leftarrow> page_create_table out_pml4 (pgs s);
     let s = s\<lparr>pgs := ps\<rparr>;
     if result \<noteq> PAGE_OK then Some (VMM_ERR_OOM, out_pml4, s)
     else do {
       pml4 \<leftarrow> out_pml4;
       let ps = fold (\<lambda>i ps. set_entry pml4 (of_nat i) (pt_entry ps (vm_kernel_pml4 s) (of_nat i)) ps) [256..<512] (pgs s);
       Some (VMM_OK, Some pml4, upd_vstats (\<lambda>t. t\<lparr>page_tables := page_tables t + 1\<rparr>) (s\<lparr>pgs := ps\<rparr>))
     }
   }"

text \<open>The tables below an entry are freed before the table itself; the frames of the data are kept.\<close>

definition destroy_pd :: "physical_addr \<Rightarrow> page_state \<Rightarrow> page_state option" where
  "destroy_pd pd = fold_opt (\<lambda>k ps.
     let pde = pt_entry ps pd (of_nat k) in
     if pte_present pde \<and> \<not> pte_pat pde then map_option snd (page_free_table (pte_phys pde) ps) else Some ps) [0..<512]"

definition destroy_pdpt :: "physical_addr \<Rightarrow> page_state \<Rightarrow> page_state option" where
  "destroy_pdpt pdpt = fold_opt (\<lambda>j ps.
     let pdpte = pt_entry ps pdpt (of_nat j) in
     if pte_present pdpte then do {
       ps \<leftarrow> destroy_pd (pte_phys pdpte) ps;
       map_option snd (page_free_table (pte_phys pdpte) ps)
     } else Some ps) [0..<512]"

definition vmm_destroy_user_space :: "physical_addr \<Rightarrow> vmm_state \<Rightarrow> (vmm_result \<times> vmm_state) option" where
  "vmm_destroy_user_space pml4 s = do {
     ccos_assert (vm_initialized s);
     ps \<leftarrow> fold_opt (\<lambda>i ps.
       let pml4e = pt_entry ps pml4 (of_nat i) in
       if pte_present pml4e then do {
         ps \<leftarrow> destroy_pdpt (pte_phys pml4e) ps;
         map_option snd (page_free_table (pte_phys pml4e) ps)
       } else Some ps) [0..<256] (pgs s);
     (_, ps) \<leftarrow> page_free_table pml4 ps;
     Some (VMM_OK, upd_vstats (\<lambda>t. t\<lparr>page_tables := page_tables t - 1\<rparr>) (s\<lparr>pgs := ps\<rparr>))
   }"

text \<open>The loop of \<open>vmm_map_to_user\<close>.\<close>

fun map_user_loop ::
  "physical_addr \<Rightarrow> virtual_addr \<Rightarrow> physical_addr \<Rightarrow> u64 \<Rightarrow> nat list \<Rightarrow> page_state \<Rightarrow> (bool \<times> page_state) option" where
  "map_user_loop pml4 vaddr paddr flags [] ps = Some (True, ps)"
| "map_user_loop pml4 vaddr paddr flags (i # is) ps = do {
     (result, ps) \<leftarrow> page_map_page pml4 (vaddr + of_nat i * PAGE_SIZE) (paddr + of_nat i * PAGE_SIZE) flags True ps;
     if result \<noteq> PAGE_OK then do {
       (_, ps) \<leftarrow> page_unmap_range pml4 vaddr (of_nat i) ps;
       Some (False, ps)
     } else map_user_loop pml4 vaddr paddr flags is ps
   }"

definition vmm_map_to_user ::
  "physical_addr \<Rightarrow> virtual_addr \<Rightarrow> physical_addr \<Rightarrow> u64 \<Rightarrow> u64 \<Rightarrow> vmm_state \<Rightarrow> (vmm_result \<times> vmm_state) option" where
  "vmm_map_to_user pml4 vaddr paddr cnt flags s = do {
     ccos_assert (vm_initialized s);
     if \<not> vmm_is_user_addr vaddr then Some (VMM_ERR_INVALID, s)
     else do {
       let flags = flags OR VMAP_FLAG_USER;
       (ok, ps) \<leftarrow> map_user_loop pml4 vaddr paddr flags [0..<unat cnt] (pgs s);
       let s = s\<lparr>pgs := ps\<rparr>;
       if \<not> ok then Some (VMM_ERR_OOM, s)
       else Some (VMM_OK, upd_vstats (\<lambda>t. t\<lparr>mapped_pages := mapped_pages t + cnt, user_pages := user_pages t + cnt\<rparr>) s)
     }
   }"

end
