(* ===== verification/Vmm_Props.thy ===== *)
theory Vmm_Props
  imports Vmm Page_Main Bits
begin

text \<open>
  Properties of the virtual memory manager: the search for a free range of addresses, and the address spaces of
  user processes.
\<close>

subsection \<open>The search for a free range\<close>

text \<open>The bytes of a region and of a candidate range.\<close>

definition region_bytes :: "memory_region \<Rightarrow> nat set" where
  "region_bytes r = {unat (mr_start r)..<unat (mr_end r)}"

abbreviation general_max :: nat where
  "general_max \<equiv> unat KERNEL_GENERAL_MAX"

lemma general_max: "general_max = 0xFFFFFFFF90000000"
  by (simp add: KERNEL_GENERAL_MAX_def KERNEL_GENERAL_BASE_def)

lemma no_collision:
  assumes "\<not> check_region_collision v w s" "r \<in> set (vm_regions s)"
  shows "{unat v..<unat w} \<inter> region_bytes r = {}"
  using assms by (auto simp: check_region_collision_def list_ex_iff region_bytes_def word_less_nat_alt word_le_nat_alt)

lemma collision:
  assumes "check_region_collision v w s"
  shows "\<exists>r \<in> set (vm_regions s). unat v < unat (mr_end r) \<and> unat (mr_start r) < unat w"
  using assms by (auto simp: check_region_collision_def list_ex_iff word_less_nat_alt)

lemma free_range_loop_ok:
  assumes "unat sz \<le> 0x60000000" "0 < unat al" "unat al \<le> 2 ^ 21" "unat hint \<le> general_max + 2 ^ 21"
  shows "\<exists>found. free_range_loop s sz al hint = Some found \<and>
    (case found of
       Some v \<Rightarrow> (\<exists>k. unat v = unat hint + k * unat al) \<and> unat v + unat sz \<le> general_max \<and> \<not> check_region_collision v (v + sz) s
     | None \<Rightarrow> \<forall>k v. unat v = unat hint + k * unat al \<longrightarrow> unat v + unat sz \<le> general_max \<longrightarrow> check_region_collision v (v + sz) s)"
  using assms(4)
proof (induction "general_max + 2 ^ 21 - unat hint" arbitrary: hint rule: less_induct)
  case less
  have sum: "unat (hint + sz) = unat hint + unat sz"
    using less.prems assms(1) by (intro unat_add_small) (simp add: general_max)
  then have fits: "hint + sz \<le> KERNEL_GENERAL_MAX \<longleftrightarrow> unat hint + unat sz \<le> general_max"
    by (simp add: word_le_nat_alt)
  consider (full) "\<not> unat hint + unat sz \<le> general_max" | (free) "unat hint + unat sz \<le> general_max" "\<not> check_region_collision hint (hint + sz) s"
    | (taken) "unat hint + unat sz \<le> general_max" "check_region_collision hint (hint + sz) s"
    by blast
  then show ?case
  proof cases
    case full
    then show ?thesis
      by (subst free_range_loop.simps) (auto simp: fits)
  next
    case free
    then show ?thesis
      by (subst free_range_loop.simps) (auto simp: fits intro: exI [of _ 0])
  next
    case taken
    have h: "unat (hint + al) = unat hint + unat al"
      using taken(1) assms(3) by (intro unat_add_small) (simp add: general_max)
    have "general_max + 2 ^ 21 - unat (hint + al) < general_max + 2 ^ 21 - unat hint" "unat (hint + al) \<le> general_max + 2 ^ 21"
      using h taken(1) assms(2,3) by linarith+
    then obtain found where f: "free_range_loop s sz al (hint + al) = Some found"
      and c: "case found of
         Some v \<Rightarrow> (\<exists>k. unat v = unat (hint + al) + k * unat al) \<and> unat v + unat sz \<le> general_max \<and> \<not> check_region_collision v (v + sz) s
       | None \<Rightarrow> \<forall>k v. unat v = unat (hint + al) + k * unat al \<longrightarrow> unat v + unat sz \<le> general_max \<longrightarrow> check_region_collision v (v + sz) s"
      using less.hyps [of "hint + al"] by blast
    have e: "free_range_loop s sz al hint = Some found"
      using f taken by (subst free_range_loop.simps) (simp add: fits)
    show ?thesis
    proof (cases found)
      case None
      have "check_region_collision v (v + sz) s"
        if v: "unat v = unat hint + k * unat al" "unat v + unat sz \<le> general_max" for k v
      proof (cases k)
        case 0
        then have "v = hint" using v(1) by (simp add: word_unat_eq_iff)
        then show ?thesis using taken(2) by simp
      next
        case (Suc j)
        then have "unat v = unat (hint + al) + j * unat al" using v(1) h by simp
        then show ?thesis using c None v(2) by auto
      qed
      then show ?thesis using e None by auto
    next
      case (Some v)
      then obtain k where "unat v = unat (hint + al) + k * unat al" using c by auto
      then have "unat v = unat hint + Suc k * unat al" using h by simp
      then show ?thesis using e Some c by (auto intro: exI [of _ "Suc k"])
    qed
  qed
qed

definition range_alignment :: "u64 \<Rightarrow> u64" where
  "range_alignment sz = (if sz \<ge> PAGE_SIZE_2MB then PAGE_SIZE_2MB else PAGE_SIZE)"

lemma range_alignment: "\<exists>k. range_alignment sz = 2 ^ k \<and> (k = 12 \<or> k = 21)"
proof -
  have "PAGE_SIZE_2MB = 2 ^ 21" "PAGE_SIZE = 2 ^ 12" by (simp_all add: page_consts)
  then show ?thesis unfolding range_alignment_def by metis
qed

lemma multiple_from:
  fixes a b d :: nat
  assumes "d dvd a" "d dvd b" "a \<le> b"
  shows "\<exists>k. b = a + k * d"
proof -
  have "d dvd b - a" using assms by simp
  then obtain k where "b - a = d * k" by blast
  then show ?thesis using assms(3) by (intro exI [of _ k]) (simp add: mult.commute)
qed


definition demo_vmm :: vmm_state where
  "demo_vmm = \<lparr>vm_kernel_pml4 = 0x1000, vm_stats = \<lparr>total_pages = 0, mapped_pages = 0, kernel_pages = 0, user_pages = 0, page_tables = 0\<rparr>,
     vm_regions = [\<lparr>mr_start = KERNEL_GENERAL_BASE, mr_end = KERNEL_GENERAL_BASE + 0x1000, mr_phys_start = 0, mr_flags = 0, mr_name = ''x''\<rparr>],
     virt_hint = KERNEL_GENERAL_BASE, vm_initialized = True, pgs = demo_pages, cr3_loads = 0\<rparr>"


end
