(* ===== verification/Vmm_Space.thy ===== *)
theory Vmm_Space
  imports Vmm_Props Cow_Fault
begin

text \<open>
  Creation and destruction of user address spaces: \<open>vmm_create_user_space\<close> and \<open>vmm_destroy_user_space\<close> of
  \<open>kernel/mm/vmm.c\<close> over the tree of page tables, with the exact set of page frames each of them takes or gives back.
\<close>

subsection \<open>User address spaces\<close>

abbreviation copy_upper :: "physical_addr \<Rightarrow> physical_addr \<Rightarrow> nat list \<Rightarrow> page_state \<Rightarrow> page_state" where
  "copy_upper n k \<equiv> fold (\<lambda>i ps. set_entry n (of_nat i) (pt_entry ps k (of_nat i)) ps)"

lemma copy_upper_entry:
  assumes "is_page_aligned n" "is_page_aligned k" "n \<noteq> k" "a \<le> b" "b \<le> 512" "is_page_aligned t" "j < 512"
  shows "pt_entry (copy_upper n k [a..<b] ps) t j =
    (if t = n \<and> a \<le> unat j \<and> unat j < b then pt_entry ps k j else pt_entry ps t j)"
  using assms(4-7)
proof (induction b arbitrary: t j)
  case (Suc b)
  show ?case
  proof (cases "a = Suc b")
    case False
    let ?ps = "copy_upper n k [a..<b] ps"
    have b: "(of_nat b :: u64) < 512" "unat (of_nat b :: u64) = b"
      using Suc.prems by (simp_all add: word_less_nat_alt unat_of_nat_small)
    have IH: "pt_entry ?ps u i = (if u = n \<and> a \<le> unat i \<and> unat i < b then pt_entry ps k i else pt_entry ps u i)"
      if "is_page_aligned u" "i < 512" for u i
      using Suc.IH [of u i] Suc.prems(1,2) False that by simp
    have "pt_entry (set_entry n (of_nat b) x ?ps) t j = (if t = n \<and> j = of_nat b then x else pt_entry ?ps t j)" for x
      using pt_entry_set_same pt_entry_set_other [OF assms(1) Suc.prems(3) b(1) Suc.prems(4)] by auto
    moreover have "j = of_nat b \<longleftrightarrow> unat j = b"
      using b(2) by (metis word_unat_eq_iff)
    ultimately show ?thesis
      using IH [OF Suc.prems(3,4)] IH [OF assms(2) b(1)] assms(3) False Suc.prems(1) by auto
  qed auto
qed auto

lemma copy_upper_simps [simp]:
  "pool (copy_upper n k is ps) = pool ps" "s_initialized (copy_upper n k is ps) = s_initialized ps"
  "s_direct_map_established (copy_upper n k is ps) = s_direct_map_established ps"
  by (induction "is" arbitrary: ps) simp_all

lemma shared_upper_inv:
  assumes inv: "pt_inv k ps" and n: "n \<notin> tables (pt_entry ps) k" "n \<in> pf_in_use (pool ps)" "n \<noteq> 0" "is_page_aligned n"
    and e: "\<And>i. i < 512 \<Longrightarrow> pt_entry ps n i = (if 256 \<le> i then pt_entry ps k i else 0)"
  shows "pt_inv n ps"
proof -
  note I = pt_invD [OF inv]
  let ?e = "pt_entry ps"
  have nd: "node ?e n (i # q) = (if 256 \<le> i then node ?e k (i # q) else None)" if "i < 512" for i q
    using e [OF that] by (simp add: no_table_0)
  have node: "t = n \<and> p = [] \<or> p \<noteq> [] \<and> 256 \<le> hd p \<and> node ?e k p = Some t" if "path p" "node ?e n p = Some t" for p t
    using that nd by (cases p) (auto simp: path_def split: if_splits)
  have sub: "t = n \<or> t \<in> tables ?e k" if "t \<in> tables ?e n" for t
    using that node tables_node by (fastforce simp: tables_def)
  have "p = q" if "path p" "path q" "node ?e n p = Some t" "node ?e n q = Some t" for p q t
    using node [OF that(1,3)] node [OF that(2,4)] treeD [OF I(4) that(1,2)] tables_node [OF that(1)] tables_node [OF that(2)] n(1)
    by blast
  then have "tree ?e n"
    unfolding tree_def using sub I(5) n(4) by blast
  moreover have "\<not> pte_pat (?e n i)" if "i < 512" "pte_present (?e n i)" for i
    using e [OF that(1)] that I(7) by (auto simp: no_table_0 split: if_splits)
  moreover have "pte_frame (?e t i) = 0"
    if p: "path (p @ [i])" "node ?e n p = Some t" "\<not> pte_present (?e t i)" for p i t
  proof -
    have pi: "path p" "i < 512" using p(1) by (auto simp: path_snoc)
    consider "p = []" "t = n" | "node ?e k p = Some t" using node [OF pi(1) p(2)] by blast
    then show ?thesis
    proof cases
      case 1
      then show ?thesis
        using e [OF pi(2)] p(3) I(8) [of "[]" i k] pi(2) by (auto simp: path_def indices_def pte_frame_def split: if_splits)
    next
      case 2
      then show ?thesis using I(8) [OF p(1) _ p(3)] by simp
    qed
  qed
  moreover have "tables ?e n \<subseteq> pf_in_use (pool ps) - {0}"
    using sub I(5) n(2,3) by blast
  ultimately show ?thesis
    unfolding pt_inv_def using I(1-3,6) by blast
qed

lemma create_user_space_ok:
  assumes inv: "pt_inv k (pgs s)" and s: "vm_initialized s" "vm_kernel_pml4 s = k"
  obtains (oom) "vmm_create_user_space (Some 0) s = Some (VMM_ERR_OOM, Some 0, s)"
  | (created) n s' where "vmm_create_user_space (Some 0) s = Some (VMM_OK, Some n, s')" "n \<notin> pf_in_use (pool (pgs s))"
      "pf_in_use (pool (pgs s')) = insert n (pf_in_use (pool (pgs s)))" "pt_inv k (pgs s')" "pt_inv n (pgs s')" "vm_initialized s'"
      "\<And>v. translation k (pgs s') v = translation k (pgs s) v"
      "\<And>v. translation n (pgs s') v = (if 256 \<le> PML4_INDEX v then translation k (pgs s) v else None)"
      "\<And>i. i < 256 \<Longrightarrow> pt_entry (pgs s') n i = 0" "is_page_aligned n" "n \<notin> tables (pt_entry (pgs s')) k"
proof -
  note I = pt_invD [OF inv]
  show thesis
  proof (rule page_create_table_cases [OF I(1-3)])
    assume "page_create_table (Some 0) (pgs s) = Some (PAGE_ERR_OOM, Some 0, pgs s)"
    then show thesis using s by (intro oom) (simp add: vmm_create_user_space_def cong: if_weak_cong)
  next
    fix n P
    let ?ps = "(pgs s)\<lparr>pool := P, dmem := clear_page n (dmem (pgs s))\<rparr>"
    assume c: "page_create_table (Some 0) (pgs s) = Some (PAGE_OK, Some n, ?ps)"
      and n: "n \<notin> pf_in_use (pool (pgs s))" "pframe_ok P" "pf_in_use P = insert n (pf_in_use (pool (pgs s)))" "frame_addr_ok n"
    define up where "up = [256..<512 :: nat]"
    let ?ps' = "copy_upper n k up ?ps"
    have al: "is_page_aligned n" using n(4) by (rule frame_addr_ok_aligned)
    have root: "k \<in> tables (pt_entry (pgs s)) k" by (rule tables_node [of "[]"]) simp_all
    have k: "is_page_aligned k" "n \<noteq> k" using I(5) [OF root] n(1) by auto
    have clear: "pt_entry ?ps t i = (if t = n then 0 else pt_entry (pgs s) t i)" if "is_page_aligned t" "i < 512" for t i
      using that clear_page_entry clear_page_other [OF al that(1) _ that(2)] by (auto simp: pt_entry_def)
    have e: "pt_entry ?ps' t i = (if t = n then if 256 \<le> i then pt_entry (pgs s) k i else 0 else pt_entry (pgs s) t i)"
      if "is_page_aligned t" "i < 512" for t i
      using copy_upper_entry [OF al k, of 256 512 t i ?ps, folded up_def] clear [OF that] clear [OF k(1) that(2)] that k(2)
      by (auto simp: word_le_nat_alt word_less_nat_alt)
    have e': "pt_entry ?ps' t i = pt_entry (pgs s) t i" if "t \<in> tables (pt_entry (pgs s)) k" "i < 512" for t i
      using e [of t i] I(5) [OF that(1)] n(1) that(2) by auto
    have inv': "pt_inv k ?ps'" and tr: "translation k ?ps' v = translation k (pgs s) v"
      and tab: "tables (pt_entry ?ps') k = tables (pt_entry (pgs s)) k" for v
      using pt_inv_cong [OF inv e'] I(1,2) n(2,3) by auto
    have apart: "n \<notin> tables (pt_entry ?ps') k" using tab I(5) n(1) by auto
    have "pt_inv n ?ps'"
    proof (rule shared_upper_inv [OF inv' apart])
      show "pt_entry ?ps' n i = (if 256 \<le> i then pt_entry ?ps' k i else 0)" if "i < 512" for i
        using e [OF al that] e' [OF root that] by simp
    qed (use al n I(6) in auto)
    moreover have "translation n ?ps' v = (if 256 \<le> PML4_INDEX v then translation k (pgs s) v else None)" for v
    proof -
      have "pt_entry ?ps' n (PML4_INDEX v) = (if 256 \<le> PML4_INDEX v then pt_entry ?ps' k (PML4_INDEX v) else 0)"
        using e [OF al index_less(1), of v] e' [OF root index_less(1), of v] by simp
      then have "translation n ?ps' v = (if 256 \<le> PML4_INDEX v then translation k ?ps' v else None)"
        by (simp add: translation_def idx_def no_table_0)
      then show ?thesis using tr by simp
    qed
    moreover have "pt_entry ?ps' n i = 0" if "i < 256" for i
      using e [OF al, of i] that by (auto simp: word_less_nat_alt word_le_nat_alt)
    moreover have "vmm_create_user_space (Some 0) s =
        Some (VMM_OK, Some n, upd_vstats (\<lambda>t. t\<lparr>page_tables := page_tables t + 1\<rparr>) (s\<lparr>pgs := ?ps'\<rparr>))"
      unfolding vmm_create_user_space_def up_def [symmetric] using c s by simp
    ultimately show thesis
      using n(1,3) inv' tr al s(1) apart by (intro created [of n "upd_vstats (\<lambda>t. t\<lparr>page_tables := page_tables t + 1\<rparr>) (s\<lparr>pgs := ?ps'\<rparr>)"])
        (simp_all add: upd_vstats_def)
  qed
qed

text \<open>
  \<open>f\<close> releases exactly the frames in \<open>A\<close> and changes nothing but the frame allocator; \<open>ps\<close> gives the rest of the
  state, whose page tables \<open>f\<close> reads.
\<close>

definition releases :: "page_state \<Rightarrow> physical_addr set \<Rightarrow> (page_state \<Rightarrow> page_state option) \<Rightarrow> bool" where
  "releases ps A f \<longleftrightarrow> (\<forall>P. pframe_ok P \<longrightarrow> A \<subseteq> pf_in_use P \<longrightarrow>
     (\<exists>P'. f (ps\<lparr>pool := P\<rparr>) = Some (ps\<lparr>pool := P'\<rparr>) \<and> pframe_ok P' \<and> pf_in_use P' = pf_in_use P - A))"

lemma pt_entry_pool [simp]: "pt_entry (ps\<lparr>pool := P\<rparr>) = pt_entry ps"
  by (simp add: pt_entry_def fun_eq_iff)

lemma releases_none: "releases ps {} Some"
  by (auto simp: releases_def)

lemma releases_table:
  assumes "s_initialized ps"
  shows "releases ps {t} (\<lambda>ps. map_option snd (page_free_table t ps))"
  unfolding releases_def
proof (intro allI impI)
  fix P
  assume P: "pframe_ok P" "{t} \<subseteq> pf_in_use P"
  then have t: "is_page_aligned t \<and> unat (addr_to_frame t) \<in> allocated P"
    using in_use_iff [OF P(1)] by simp
  then obtain P' where P': "pframe_free t P = Some (PFRAME_OK, P')" "pframe_ok P'" "frames P' = frames P"
      "allocated P' = allocated P - {unat (addr_to_frame t)}"
    using pframe_free_ok [OF P(1), of t] by auto
  have "pf_in_use P' = pf_in_use P - {t}"
    using in_use_delete [OF P(1)] P'(4) t by (simp add: pf_in_use_def)
  then show "\<exists>P'. map_option snd (page_free_table t (ps\<lparr>pool := P\<rparr>)) = Some (ps\<lparr>pool := P'\<rparr>) \<and> pframe_ok P' \<and>
      pf_in_use P' = pf_in_use P - {t}"
    using P'(1,2) assms by (intro exI [of _ P']) (simp add: page_free_table_def)
qed

lemma releases_seq:
  assumes "releases ps A f" "releases ps B g" "A \<inter> B = {}"
  shows "releases ps (A \<union> B) (\<lambda>ps. do { ps \<leftarrow> f ps; g ps })"
  unfolding releases_def
proof (intro allI impI)
  fix P
  assume P: "pframe_ok P" "A \<union> B \<subseteq> pf_in_use P"
  then obtain P1 where P1: "f (ps\<lparr>pool := P\<rparr>) = Some (ps\<lparr>pool := P1\<rparr>)" "pframe_ok P1" "pf_in_use P1 = pf_in_use P - A"
    using assms(1) unfolding releases_def by blast
  moreover obtain P2 where "g (ps\<lparr>pool := P1\<rparr>) = Some (ps\<lparr>pool := P2\<rparr>)" "pframe_ok P2" "pf_in_use P2 = pf_in_use P1 - B"
    using assms(2,3) P1(2,3) P(2) unfolding releases_def by blast
  ultimately show "\<exists>P'. do { ps \<leftarrow> f (ps\<lparr>pool := P\<rparr>); g ps } = Some (ps\<lparr>pool := P'\<rparr>) \<and> pframe_ok P' \<and>
      pf_in_use P' = pf_in_use P - (A \<union> B)"
    by auto
qed

lemma releases_fold:
  assumes "\<And>i. i \<in> set is \<Longrightarrow> releases ps (A i) (f i)" "distinct is"
    and "\<And>i j. i \<in> set is \<Longrightarrow> j \<in> set is \<Longrightarrow> i \<noteq> j \<Longrightarrow> A i \<inter> A j = {}"
  shows "releases ps (\<Union>i \<in> set is. A i) (fold_opt f is)"
  using assms
proof (induction "is")
  case Nil
  then show ?case by (auto simp: releases_def)
next
  case (Cons i "is")
  have "A i \<inter> A j = {}" if "j \<in> set is" for j
    using Cons.prems(2,3) that by auto
  then have "A i \<inter> (\<Union>j \<in> set is. A j) = {}"
    by blast
  then have "releases ps (A i \<union> (\<Union>j \<in> set is. A j)) (\<lambda>ps. do { ps \<leftarrow> f i ps; fold_opt f is ps })"
    using Cons.prems Cons.IH by (intro releases_seq) auto
  moreover have "fold_opt f (i # is) = (\<lambda>ps. do { ps \<leftarrow> f i ps; fold_opt f is ps })"
    by (auto simp: fun_eq_iff split: option.splits bind_splits)
  ultimately show ?case by (simp only: list.set UN_insert)
qed

lemma releases_upt:
  assumes "\<And>i. i < n \<Longrightarrow> releases ps (A i) (f i)" "\<And>i j. i < n \<Longrightarrow> j < n \<Longrightarrow> i \<noteq> j \<Longrightarrow> A i \<inter> A j = {}"
  shows "releases ps (\<Union>i < n. A i) (fold_opt f [0..<n])"
  using releases_fold [of "[0..<n]" ps A f] assms by (simp add: atLeast0LessThan)

lemma releases_cong:
  "releases ps A f \<Longrightarrow> (\<And>P. g (ps\<lparr>pool := P\<rparr>) = f (ps\<lparr>pool := P\<rparr>)) \<Longrightarrow> releases ps A g"
  by (simp add: releases_def)

text \<open>The tables on the paths that extend \<open>p\<close> by the index \<open>i\<close>.\<close>

definition sub_tables :: "ents \<Rightarrow> physical_addr \<Rightarrow> u64 list \<Rightarrow> nat \<Rightarrow> physical_addr set" where
  "sub_tables e n p i = {t. \<exists>q. path (p @ of_nat i # q) \<and> node e n (p @ of_nat i # q) = Some t}"

lemma sub_tables_none:
  assumes "node e n p = Some t" "\<not> has_table (e t (of_nat i))"
  shows "sub_tables e n p i = {}"
  using assms by (auto simp: sub_tables_def node_append)

lemma less_of_nat: "i < 512 \<Longrightarrow> (of_nat i :: u64) < 512" "i < 512 \<Longrightarrow> j < 512 \<Longrightarrow> (of_nat i :: u64) = of_nat j \<longleftrightarrow> i = j"
  by (simp_all add: word_less_nat_alt unat_of_nat_small word_unat_eq_iff)

lemma sub_tables_some:
  assumes n: "node e n p = Some t" "has_table (e t (of_nat i))" and p: "path (p @ [of_nat i])"
  shows "sub_tables e n p i = insert (pte_phys (e t (of_nat i))) (\<Union>j < 512. sub_tables e n (p @ [of_nat i]) j)"
proof (intro equalityI subsetI)
  fix u
  assume "u \<in> sub_tables e n p i"
  then obtain q where q: "path (p @ of_nat i # q)" "node e n (p @ of_nat i # q) = Some u"
    by (auto simp: sub_tables_def)
  show "u \<in> insert (pte_phys (e t (of_nat i))) (\<Union>j < 512. sub_tables e n (p @ [of_nat i]) j)"
  proof (cases q)
    case Nil
    then show ?thesis using q(2) n by (simp add: node_append)
  next
    case (Cons j q')
    then have "j < 512" using q(1) by (simp add: path_def)
    then have "unat j < 512" "of_nat (unat j) = j" by (simp_all add: word_less_nat_alt)
    then have "u \<in> sub_tables e n (p @ [of_nat i]) (unat j)"
      using q Cons by (auto simp: sub_tables_def)
    then show ?thesis using \<open>unat j < 512\<close> by blast
  qed
next
  fix u
  assume "u \<in> insert (pte_phys (e t (of_nat i))) (\<Union>j < 512. sub_tables e n (p @ [of_nat i]) j)"
  then consider "u = pte_phys (e t (of_nat i))" | j where "u \<in> sub_tables e n (p @ [of_nat i]) j" by blast
  then show "u \<in> sub_tables e n p i"
  proof cases
    case 1
    then have "node e n (p @ of_nat i # []) = Some u" using n by (simp add: node_append)
    then show ?thesis using p unfolding sub_tables_def by blast
  next
    case 2
    then show ?thesis by (auto simp: sub_tables_def)
  qed
qed

lemma sub_tables_disjoint:
  assumes "tree e n" "i < 512" "j < 512" "i \<noteq> j"
  shows "sub_tables e n p i \<inter> sub_tables e n p j = {}"
proof -
  have False if u: "u \<in> sub_tables e n p i" "u \<in> sub_tables e n p j" for u
  proof -
    obtain q q' where "path (p @ of_nat i # q)" "path (p @ of_nat j # q')"
        "node e n (p @ of_nat i # q) = Some u" "node e n (p @ of_nat j # q') = Some u"
      using u by (auto simp: sub_tables_def)
    then have "p @ of_nat i # q = p @ of_nat j # q'" by (rule treeD [OF assms(1)])
    then show False using assms less_of_nat(2) by simp
  qed
  then show ?thesis by blast
qed

lemma sub_tables_apart:
  assumes "tree e n" "path p" "node e n p = Some t"
  shows "t \<notin> sub_tables e n p j"
proof
  assume "t \<in> sub_tables e n p j"
  then obtain q where "path (p @ of_nat j # q)" "node e n (p @ of_nat j # q) = Some t"
    by (auto simp: sub_tables_def)
  then have "p = p @ of_nat j # q" using assms(2,3) treeD [OF assms(1)] by blast
  then show False by simp
qed

lemma sub_tables_deep: "3 \<le> length p \<Longrightarrow> sub_tables e n p j = {}"
  by (simp add: sub_tables_def path_def)


text \<open>What the loops of \<open>vmm_destroy_user_space\<close> release.\<close>

lemma destroy_pd_releases:
  assumes ps: "s_initialized ps" and tree: "tree (pt_entry ps) n"
    and p: "path p" "length p = 2" and t: "node (pt_entry ps) n p = Some t"
  shows "releases ps (\<Union>k < 512. sub_tables (pt_entry ps) n p k) (destroy_pd t)"
  unfolding destroy_pd_def
proof (rule releases_upt [OF _ sub_tables_disjoint [OF tree]])
  fix k :: nat
  assume k: "k < 512"
  let ?e = "pt_entry ps t (of_nat k)"
  have p': "path (p @ [of_nat k])" using p less_of_nat(1) [OF k] by (simp add: path_def indices_def)
  show "releases ps (sub_tables (pt_entry ps) n p k) (\<lambda>ps. let pde = pt_entry ps t (of_nat k) in
      if pte_present pde \<and> \<not> pte_pat pde then map_option snd (page_free_table (pte_phys pde) ps) else Some ps)"
  proof (cases "has_table ?e")
    case True
    have "sub_tables (pt_entry ps) n p k = {pte_phys ?e}"
      using sub_tables_some [OF t True p'] sub_tables_deep [of "p @ [of_nat k]"] p(2) by simp
    then show ?thesis
      using True by (auto intro!: releases_cong [OF releases_table [OF ps, of "pte_phys ?e"]])
  next
    case False
    then show ?thesis
      using sub_tables_none [OF t False] by (auto intro!: releases_cong [OF releases_none])
  qed
qed


lemma destroy_entry_releases:
  assumes ps: "s_initialized ps" and tree: "tree (pt_entry ps) n"
    and p: "path (p @ [of_nat i])" and t: "node (pt_entry ps) n p = Some t"
    and no_huge: "pte_present (pt_entry ps t (of_nat i)) \<Longrightarrow> \<not> pte_pat (pt_entry ps t (of_nat i))"
    and g: "\<And>u. node (pt_entry ps) n (p @ [of_nat i]) = Some u \<Longrightarrow>
      releases ps (\<Union>j < 512. sub_tables (pt_entry ps) n (p @ [of_nat i]) j) (g u)"
  shows "releases ps (sub_tables (pt_entry ps) n p i) (\<lambda>ps. let x = pt_entry ps t (of_nat i) in
    if pte_present x then do { ps \<leftarrow> g (pte_phys x) ps; map_option snd (page_free_table (pte_phys x) ps) } else Some ps)"
proof (cases "has_table (pt_entry ps t (of_nat i))")
  case True
  let ?u = "pte_phys (pt_entry ps t (of_nat i))"
  have u: "node (pt_entry ps) n (p @ [of_nat i]) = Some ?u" using t True by (simp add: node_append)
  have "(\<Union>j < 512. sub_tables (pt_entry ps) n (p @ [of_nat i]) j) \<inter> {?u} = {}"
    using sub_tables_apart [OF tree p u] by blast
  note seq = releases_seq [OF g [OF u] releases_table [OF ps, of ?u] this]
  have "sub_tables (pt_entry ps) n p i = (\<Union>j < 512. sub_tables (pt_entry ps) n (p @ [of_nat i]) j) \<union> {?u}"
    using sub_tables_some [OF t True p] by simp
  then show ?thesis
    using True by (simp only:) (rule releases_cong [OF seq], simp add: Let_def)
next
  case False
  then show ?thesis
    using sub_tables_none [OF t False] no_huge by (auto intro!: releases_cong [OF releases_none])
qed

text \<open>No present entry of the page directory pointer tables in the user half maps a 1 GB page.\<close>

definition no_huge_user :: "page_state \<Rightarrow> physical_addr \<Rightarrow> bool" where
  "no_huge_user ps n \<longleftrightarrow> (\<forall>i < 256. \<not> (pte_present (pt_entry ps n i) \<and> pte_pat (pt_entry ps n i)) \<and>
     (pte_present (pt_entry ps n i) \<longrightarrow> (\<forall>j < 512. \<not> (pte_present (pt_entry ps (pte_phys (pt_entry ps n i)) j) \<and>
        pte_pat (pt_entry ps (pte_phys (pt_entry ps n i)) j)))))"

lemma destroy_pdpt_releases:
  assumes ps: "s_initialized ps" and tree: "tree (pt_entry ps) n" and h: "no_huge_user ps n"
    and i: "i < 256" and t: "node (pt_entry ps) n [i] = Some t"
  shows "releases ps (\<Union>k < 512. sub_tables (pt_entry ps) n [i] k) (destroy_pdpt t)"
  unfolding destroy_pdpt_def
proof (rule releases_upt [OF _ sub_tables_disjoint [OF tree]])
  fix j :: nat
  assume "j < 512"
  note j = less_of_nat(1) [OF this]
  have p: "path ([i] @ [of_nat j])" using i j by (simp add: path_def indices_def word_less_nat_alt)
  have "pte_present (pt_entry ps n i)" "t = pte_phys (pt_entry ps n i)" using t by (auto split: if_splits)
  then have "\<not> (pte_present (pt_entry ps t (of_nat j)) \<and> pte_pat (pt_entry ps t (of_nat j)))"
    using h i j unfolding no_huge_user_def by blast
  then show "releases ps (sub_tables (pt_entry ps) n [i] j) (\<lambda>ps. let pdpte = pt_entry ps t (of_nat j) in
      if pte_present pdpte then do { ps \<leftarrow> destroy_pd (pte_phys pdpte) ps; map_option snd (page_free_table (pte_phys pdpte) ps) }
      else Some ps)"
    by (intro destroy_entry_releases [OF ps tree p t] destroy_pd_releases [OF ps tree p]) auto
qed

lemma destroy_user_releases:
  assumes ps: "s_initialized ps" and tree: "tree (pt_entry ps) n" and h: "no_huge_user ps n"
  shows "releases ps ((\<Union>i < 256. sub_tables (pt_entry ps) n [] i) \<union> {n}) (\<lambda>ps. do {
     ps \<leftarrow> fold_opt (\<lambda>i ps. let pml4e = pt_entry ps n (of_nat i) in
       if pte_present pml4e then do {
         ps \<leftarrow> destroy_pdpt (pte_phys pml4e) ps; map_option snd (page_free_table (pte_phys pml4e) ps)
       } else Some ps) [0..<256] ps;
     map_option snd (page_free_table n ps) })"
proof (rule releases_seq [OF releases_upt releases_table [OF ps]])
  fix i :: nat
  assume i: "i < 256"
  then have i': "(of_nat i :: u64) < 256" by (simp add: word_less_nat_alt unat_of_nat_small)
  then have p: "path ([] @ [of_nat i])" by (simp add: path_def indices_def word_less_nat_alt)
  show "releases ps (sub_tables (pt_entry ps) n [] i) (\<lambda>ps. let pml4e = pt_entry ps n (of_nat i) in
      if pte_present pml4e then do { ps \<leftarrow> destroy_pdpt (pte_phys pml4e) ps; map_option snd (page_free_table (pte_phys pml4e) ps) }
      else Some ps)"
    using h i' destroy_pdpt_releases [OF ps tree h i'] unfolding no_huge_user_def
    by (intro destroy_entry_releases [OF ps tree p]) auto
next
  fix i j :: nat
  assume "i < 256" "j < 256" "i \<noteq> j"
  then show "sub_tables (pt_entry ps) n [] i \<inter> sub_tables (pt_entry ps) n [] j = {}"
    by (intro sub_tables_disjoint [OF tree]) simp_all
next
  show "(\<Union>i < 256. sub_tables (pt_entry ps) n [] i) \<inter> {n} = {}"
    using sub_tables_apart [OF tree, of "[]" n] by auto
qed



text \<open>The tables of the user half of the address space with root \<open>n\<close>, the root included.\<close>

definition user_tables :: "page_state \<Rightarrow> physical_addr \<Rightarrow> physical_addr set" where
  "user_tables ps n = {t. \<exists>p. path p \<and> (p = [] \<or> hd p < 256) \<and> node (pt_entry ps) n p = Some t}"

lemma user_tables_eq: "user_tables ps n = (\<Union>i < 256. sub_tables (pt_entry ps) n [] i) \<union> {n}"
proof (intro equalityI subsetI)
  fix t
  assume "t \<in> user_tables ps n"
  then obtain p where p: "path p" "p = [] \<or> hd p < 256" "node (pt_entry ps) n p = Some t"
    by (auto simp: user_tables_def)
  show "t \<in> (\<Union>i < 256. sub_tables (pt_entry ps) n [] i) \<union> {n}"
  proof (cases p)
    case (Cons i q)
    then have "unat i < 256" using p(2) by (simp add: word_less_nat_alt)
    moreover have "t \<in> sub_tables (pt_entry ps) n [] (unat i)"
      using p(1,3) Cons unfolding sub_tables_def by (intro CollectI exI [of _ q]) simp
    ultimately show ?thesis by blast
  qed (use p in simp)
next
  fix t
  assume "t \<in> (\<Union>i < 256. sub_tables (pt_entry ps) n [] i) \<union> {n}"
  then consider i where "i < 256" "t \<in> sub_tables (pt_entry ps) n [] i" | "t = n" by auto
  then show "t \<in> user_tables ps n"
  proof cases
    case (1 i)
    then obtain q where "path (of_nat i # q)" "node (pt_entry ps) n (of_nat i # q) = Some t"
      by (auto simp: sub_tables_def simp del: node.simps)
    moreover have "(of_nat i :: u64) < 256" using 1(1) by (simp add: word_less_nat_alt unat_of_nat_small)
    ultimately show ?thesis
      unfolding user_tables_def by (intro CollectI exI [of _ "of_nat i # q"]) simp
  next
    case 2
    then show ?thesis unfolding user_tables_def by (intro CollectI exI [of _ "[]"]) simp
  qed
qed

lemma destroy_user_space_ok:
  assumes s: "vm_initialized s" and inv: "pt_inv n (pgs s)" and h: "no_huge_user (pgs s) n"
  obtains s' P where "vmm_destroy_user_space n s = Some (VMM_OK, s')" "pgs s' = (pgs s)\<lparr>pool := P\<rparr>" "pframe_ok P"
    "pf_in_use P = pf_in_use (pool (pgs s)) - user_tables (pgs s) n"
    "page_tables (vm_stats s') = page_tables (vm_stats s) - 1"
proof -
  note I = pt_invD [OF inv]
  define lo where "lo = [0..<256 :: nat]"
  have "user_tables (pgs s) n \<subseteq> pf_in_use (pool (pgs s))"
    using I(5) tables_node by (fastforce simp: user_tables_def)
  then obtain P where P: "pframe_ok P" "pf_in_use P = pf_in_use (pool (pgs s)) - user_tables (pgs s) n"
    and r: "do { ps \<leftarrow> fold_opt (\<lambda>i ps. let pml4e = pt_entry ps n (of_nat i) in
       if pte_present pml4e then do {
         ps \<leftarrow> destroy_pdpt (pte_phys pml4e) ps; map_option snd (page_free_table (pte_phys pml4e) ps)
       } else Some ps) lo (pgs s);
       map_option snd (page_free_table n ps) } = Some ((pgs s)\<lparr>pool := P\<rparr>)"
    using destroy_user_releases [OF I(1,4) h, folded user_tables_eq lo_def, unfolded releases_def, rule_format, of "pool (pgs s)"] I(3)
    by auto
  let ?s = "upd_vstats (\<lambda>t. t\<lparr>page_tables := page_tables t - 1\<rparr>) (s\<lparr>pgs := (pgs s)\<lparr>pool := P\<rparr>\<rparr>)"
  from r have "vmm_destroy_user_space n s = Some (VMM_OK, ?s)"
    unfolding vmm_destroy_user_space_def lo_def [symmetric] using s by (auto simp: bind_eq_Some_conv)
  then show thesis
    using P by (intro that [of ?s P]) (simp_all add: upd_vstats_def)
qed




definition demo_space :: vmm_state where
  "demo_space = demo_vmm\<lparr>pgs := demo_marked\<rparr>"

lemma demo_space_simps:
  "vm_initialized demo_space = True" "vm_kernel_pml4 demo_space = 0x1000" "pgs demo_space = demo_marked"
  "pool demo_marked = small_pool 0x3F"
  by (simp_all add: demo_space_def demo_vmm_def demo_marked_def set_entry_def)

lemma demo_space_no_huge: "no_huge_user demo_marked 0x1000"
proof -
  have a: "is_page_aligned (0x1000 :: u64)" "is_page_aligned (0x2000 :: u64)" by (simp_all add: is_page_aligned_def)
  have h: "\<not> (pte_present (demo_links t j) \<and> pte_pat (demo_links t j))" if "t = 0x1000 \<or> t = 0x2000" for t j
    using that by (auto simp: demo_links_def pte_present_def pte_pat_def)
  have z: "pte_phys (demo_links 0x1000 i) = 0x2000" if "pte_present (demo_links 0x1000 i)" for i
    using that demo_links_table(2) by (cases "i = 0") (auto simp: demo_links_def no_table_0)
  have e: "pt_entry demo_marked 0x1000 i = demo_links 0x1000 i" if "i < 256" for i
    using that by (intro demo_marked_entry [OF a(1)]) (simp add: word_less_nat_alt)
  have "pt_entry demo_marked 0x2000 j = demo_links 0x2000 j" if "j < 512" for j
    using that by (rule demo_marked_entry [OF a(2)])
  then show ?thesis
    unfolding no_huge_user_def using h e z by simp
qed




lemma demo_space_create: "\<exists>n s'. vmm_create_user_space (Some 0) demo_space = Some (VMM_OK, Some n, s')"
proof -
  have "map_option fst (pframe_alloc (Some 0) (small_pool 0x3F)) = Some PFRAME_OK"
    by code_simp
  then have "page_create_table (Some 0) demo_marked \<noteq> Some (PAGE_ERR_OOM, Some 0, demo_marked)"
    by (auto simp: page_create_table_def demo_space_simps bind_eq_Some_conv)
  then obtain n ps where c: "page_create_table (Some 0) demo_marked = Some (PAGE_OK, Some n, ps)"
    using page_create_table_cases [OF pt_invD(1-3) [OF demo_marked_inv]] by metis
  define up where "up = [256..<512 :: nat]"
  show ?thesis
    unfolding vmm_create_user_space_def up_def [symmetric] using c by (simp add: demo_space_simps)
qed


end
