(* ===== verification/Cstring.thy ===== *)
theory Cstring
  imports Memory
begin

text \<open>
  The string library of the kernel, \<open>kernel/base/string.c\<close> and \<open>kernel/base/strhelpers.c\<close>, over byte-addressed memory.

  A string is the address of its first byte and \<^verbatim>\<open>NULL\<close> is address 0. The loops end at a terminating zero byte; over
  a memory without one they run on for ever, so they are partial functions whose value is then \<open>None\<close>. \<open>c_string\<close>
  relates an address to the list of bytes of the string there. A \<^verbatim>\<open>char\<close> is an unsigned byte and is converted where the
  source compares or subtracts it as a signed one; \<^verbatim>\<open>long\<close> results are 64-bit words read by \<open>sint\<close>, with the wrap-around
  of two's complement.
\<close>

type_synonym cstring = addr

subsection \<open>\<open>string.c\<close>\<close>

text \<open>The loop \<^verbatim>\<open>while (cond(*p)) p++\<close>.\<close>

partial_function (option) scan :: "(u8 \<Rightarrow> bool) \<Rightarrow> mem \<Rightarrow> cstring \<Rightarrow> cstring option" where
  "scan P m p = (if P (m p) then scan P m (p + 1) else Some p)"

definition strlen :: "mem \<Rightarrow> cstring \<Rightarrow> u64 option" where
  "strlen m s = do {
     ccos_assert (s \<noteq> 0);
     p \<leftarrow> scan (\<lambda>c. c \<noteq> 0) m s;
     Some (p - s)
   }"

partial_function (option) strnlen_loop :: "mem \<Rightarrow> cstring \<Rightarrow> u64 \<Rightarrow> cstring option" where
  "strnlen_loop m p maxlen = (if m p \<noteq> 0 \<and> maxlen > 0 then strnlen_loop m (p + 1) (maxlen - 1) else Some p)"

definition strnlen :: "mem \<Rightarrow> cstring \<Rightarrow> u64 \<Rightarrow> u64 option" where
  "strnlen m s maxlen = do {
     ccos_assert (s \<noteq> 0);
     p \<leftarrow> strnlen_loop m s maxlen;
     Some (p - s)
   }"

partial_function (option) strcpy_loop :: "cstring \<Rightarrow> cstring \<Rightarrow> mem \<Rightarrow> mem option" where
  "strcpy_loop d src m = (let c = m src; m = m(d := c) in if c \<noteq> 0 then strcpy_loop (d + 1) (src + 1) m else Some m)"

definition strcpy :: "cstring \<Rightarrow> cstring \<Rightarrow> mem \<Rightarrow> (cstring \<times> mem) option" where
  "strcpy dest src m = do {
     ccos_assert (dest \<noteq> 0 \<and> src \<noteq> 0);
     m \<leftarrow> strcpy_loop dest src m;
     Some (dest, m)
   }"

partial_function (option) strncpy_loop :: "cstring \<Rightarrow> cstring \<Rightarrow> u64 \<Rightarrow> mem \<Rightarrow> mem option" where
  "strncpy_loop d src n m =
     (let c = m src; m = m(d := c) in if c \<noteq> 0 \<and> n > 0 then strncpy_loop (d + 1) (src + 1) (n - 1) m else Some m)"

definition strncpy :: "cstring \<Rightarrow> cstring \<Rightarrow> u64 \<Rightarrow> mem \<Rightarrow> (cstring \<times> mem) option" where
  "strncpy dest src n m = do {
     ccos_assert (dest \<noteq> 0 \<and> src \<noteq> 0);
     m \<leftarrow> strncpy_loop dest src n m;
     Some (dest, m)
   }"

text \<open>The difference of two bytes as \<^verbatim>\<open>int\<close>s.\<close>

abbreviation byte_diff :: "u8 \<Rightarrow> u8 \<Rightarrow> int" where
  "byte_diff a b \<equiv> uint a - uint b"

partial_function (option) strcmp_loop :: "mem \<Rightarrow> cstring \<Rightarrow> cstring \<Rightarrow> (cstring \<times> cstring) option" where
  "strcmp_loop m s1 s2 = (if m s1 \<noteq> 0 \<and> m s1 = m s2 then strcmp_loop m (s1 + 1) (s2 + 1) else Some (s1, s2))"

definition strcmp :: "mem \<Rightarrow> cstring \<Rightarrow> cstring \<Rightarrow> int option" where
  "strcmp m s1 s2 = do {
     ccos_assert (s1 \<noteq> 0 \<and> s2 \<noteq> 0);
     (s1, s2) \<leftarrow> strcmp_loop m s1 s2;
     Some (byte_diff (m s1) (m s2))
   }"

partial_function (option) strncmp_loop :: "mem \<Rightarrow> cstring \<Rightarrow> cstring \<Rightarrow> u64 \<Rightarrow> (cstring \<times> cstring \<times> u64) option" where
  "strncmp_loop m s1 s2 n =
     (if n \<noteq> 0 \<and> m s1 \<noteq> 0 \<and> m s1 = m s2 then strncmp_loop m (s1 + 1) (s2 + 1) (n - 1) else Some (s1, s2, n))"

definition strncmp :: "mem \<Rightarrow> cstring \<Rightarrow> cstring \<Rightarrow> u64 \<Rightarrow> int option" where
  "strncmp m s1 s2 n = do {
     ccos_assert (s1 \<noteq> 0 \<and> s2 \<noteq> 0);
     (s1, s2, n) \<leftarrow> strncmp_loop m s1 s2 n;
     Some (if n = 0 then 0 else byte_diff (m s1) (m s2))
   }"

text \<open>The difference to \<^verbatim>\<open>'A'\<close> is that of the sign-extended byte, read as an unsigned \<^verbatim>\<open>int\<close>.\<close>

definition tolower :: "u8 \<Rightarrow> u8" where
  "tolower c = (if (scast c :: u32) - 65 \<le> 25 then c OR 0x20 else c)"

partial_function (option) strcasecmp_loop :: "mem \<Rightarrow> cstring \<Rightarrow> cstring \<Rightarrow> int option" where
  "strcasecmp_loop m s1 s2 =
     (if m s1 \<noteq> 0 \<and> m s2 \<noteq> 0 then
        let c1 = tolower (m s1); c2 = tolower (m s2) in
        if c1 \<noteq> c2 then Some (byte_diff c1 c2) else strcasecmp_loop m (s1 + 1) (s2 + 1)
      else Some (byte_diff (tolower (m s1)) (tolower (m s2))))"

definition strcasecmp :: "mem \<Rightarrow> cstring \<Rightarrow> cstring \<Rightarrow> int option" where
  "strcasecmp m s1 s2 = do {
     ccos_assert (s1 \<noteq> 0 \<and> s2 \<noteq> 0);
     strcasecmp_loop m s1 s2
   }"

partial_function (option) strncasecmp_loop :: "mem \<Rightarrow> cstring \<Rightarrow> cstring \<Rightarrow> u64 \<Rightarrow> int option" where
  "strncasecmp_loop m s1 s2 n =
     (if n \<noteq> 0 then
        let c1 = tolower (m s1); c2 = tolower (m s2) in
        if c1 \<noteq> c2 then Some (byte_diff c1 c2)
        else if c1 = 0 then Some 0
        else strncasecmp_loop m (s1 + 1) (s2 + 1) (n - 1)
      else Some 0)"

definition strncasecmp :: "mem \<Rightarrow> cstring \<Rightarrow> cstring \<Rightarrow> u64 \<Rightarrow> int option" where
  "strncasecmp m s1 s2 n = do {
     ccos_assert (s1 \<noteq> 0 \<and> s2 \<noteq> 0);
     strncasecmp_loop m s1 s2 n
   }"

partial_function (option) strchr_loop :: "mem \<Rightarrow> cstring \<Rightarrow> u8 \<Rightarrow> cstring option" where
  "strchr_loop m s ch =
     (if m s \<noteq> 0 then if m s = ch then Some s else strchr_loop m (s + 1) ch
      else if ch = 0 then Some s else Some 0)"

definition strchr :: "mem \<Rightarrow> cstring \<Rightarrow> u32 \<Rightarrow> cstring option" where
  "strchr m s c = do {
     ccos_assert (s \<noteq> 0);
     strchr_loop m s (ucast c)
   }"

partial_function (option) strrchr_loop :: "mem \<Rightarrow> cstring \<Rightarrow> u8 \<Rightarrow> cstring \<Rightarrow> cstring option" where
  "strrchr_loop m s ch found =
     (let found = (if m s = ch then s else found) in
      if m s \<noteq> 0 then strrchr_loop m (s + 1) ch found else Some found)"

definition strrchr :: "mem \<Rightarrow> cstring \<Rightarrow> u32 \<Rightarrow> cstring option" where
  "strrchr m s c = do {
     ccos_assert (s \<noteq> 0);
     strrchr_loop m s (ucast c) 0
   }"

text \<open>The inner loop of \<open>strstr\<close>; its value is the final \<^verbatim>\<open>n\<close>.\<close>

partial_function (option) strstr_match :: "mem \<Rightarrow> cstring \<Rightarrow> cstring \<Rightarrow> cstring option" where
  "strstr_match m h n = (if m h \<noteq> 0 \<and> m n \<noteq> 0 \<and> m h = m n then strstr_match m (h + 1) (n + 1) else Some n)"

partial_function (option) strstr_loop :: "mem \<Rightarrow> cstring \<Rightarrow> cstring \<Rightarrow> cstring option" where
  "strstr_loop m haystack needle =
     (if m haystack \<noteq> 0 then do {
        n \<leftarrow> strstr_match m haystack needle;
        if m n = 0 then Some haystack else strstr_loop m (haystack + 1) needle
      } else Some 0)"

definition strstr :: "mem \<Rightarrow> cstring \<Rightarrow> cstring \<Rightarrow> cstring option" where
  "strstr m haystack needle = do {
     ccos_assert (haystack \<noteq> 0 \<and> needle \<noteq> 0);
     if m needle = 0 then Some haystack else strstr_loop m haystack needle
   }"

text \<open>The loop \<^verbatim>\<open>for (a = accept; *a; ++a) if (c == *a) ...\<close> that looks for a byte in a set of bytes.\<close>

partial_function (option) in_bytes :: "mem \<Rightarrow> u8 \<Rightarrow> cstring \<Rightarrow> bool option" where
  "in_bytes m c a = (if m a \<noteq> 0 then if c = m a then Some True else in_bytes m c (a + 1) else Some False)"

partial_function (option) strpbrk_loop :: "mem \<Rightarrow> cstring \<Rightarrow> cstring \<Rightarrow> cstring option" where
  "strpbrk_loop m s accept =
     (if m s \<noteq> 0 then do {
        b \<leftarrow> in_bytes m (m s) accept;
        if b then Some s else strpbrk_loop m (s + 1) accept
      } else Some 0)"

definition strpbrk :: "mem \<Rightarrow> cstring \<Rightarrow> cstring \<Rightarrow> cstring option" where
  "strpbrk m s accept = do {
     ccos_assert (s \<noteq> 0 \<and> accept \<noteq> 0);
     strpbrk_loop m s accept
   }"

partial_function (option) strspn_loop :: "mem \<Rightarrow> cstring \<Rightarrow> cstring \<Rightarrow> u64 \<Rightarrow> u64 option" where
  "strspn_loop m s accept cnt =
     (if m s \<noteq> 0 then do {
        ok \<leftarrow> in_bytes m (m s) accept;
        if \<not> ok then Some cnt else strspn_loop m (s + 1) accept (cnt + 1)
      } else Some cnt)"

definition strspn :: "mem \<Rightarrow> cstring \<Rightarrow> cstring \<Rightarrow> u64 option" where
  "strspn m s accept = do {
     ccos_assert (s \<noteq> 0 \<and> accept \<noteq> 0);
     strspn_loop m s accept 0
   }"

partial_function (option) strcspn_loop :: "mem \<Rightarrow> cstring \<Rightarrow> cstring \<Rightarrow> u64 \<Rightarrow> u64 option" where
  "strcspn_loop m s reject cnt =
     (if m s \<noteq> 0 then do {
        b \<leftarrow> in_bytes m (m s) reject;
        if b then Some cnt else strcspn_loop m (s + 1) reject (cnt + 1)
      } else Some cnt)"

definition strcspn :: "mem \<Rightarrow> cstring \<Rightarrow> cstring \<Rightarrow> u64 option" where
  "strcspn m s reject = do {
     ccos_assert (s \<noteq> 0 \<and> reject \<noteq> 0);
     strcspn_loop m s reject 0
   }"

text \<open>\<open>strtok_r\<close> on the pointer that \<^verbatim>\<open>saveptr\<close> points to: its value is the token, the new saved pointer and the memory.\<close>

definition strtok_r :: "cstring \<Rightarrow> cstring \<Rightarrow> cstring \<Rightarrow> mem \<Rightarrow> (cstring \<times> cstring \<times> mem) option" where
  "strtok_r str delim save m = do {
     ccos_assert (delim \<noteq> 0);
     let s = (if str \<noteq> 0 then str else save);
     if s = 0 then Some (0, save, m)
     else do {
       k \<leftarrow> strspn m s delim;
       let s = s + k;
       if m s = 0 then Some (0, 0, m)
       else do {
         let token = s;
         k \<leftarrow> strcspn m s delim;
         let s = s + k;
         if m s \<noteq> 0 then Some (token, s + 1, m(s := 0))
         else Some (token, 0, m)
       }
     }
   }"

text \<open>\<open>strtok\<close> keeps the pointer in the static variable \<^verbatim>\<open>save\<close>, which is part of the state here.\<close>

definition strtok :: "cstring \<Rightarrow> cstring \<Rightarrow> cstring \<times> mem \<Rightarrow> (cstring \<times> cstring \<times> mem) option" where
  "strtok str delim = (\<lambda>(save, m). strtok_r str delim save m)"

subsection \<open>\<open>strhelpers.c\<close>\<close>

definition isspace :: "u8 \<Rightarrow> bool" where
  "isspace ch \<longleftrightarrow> (if ch = 0 then False else ch \<in> set [0x20, 9, 10, 11, 12, 13])"

definition isdigit :: "u8 \<Rightarrow> bool" where
  "isdigit ch \<longleftrightarrow> 0x30 \<le> sint ch \<and> sint ch \<le> 0x39"

text \<open>The value of a character as a digit; \<open>None\<close> is the \<^verbatim>\<open>break\<close>.\<close>

definition digit_of :: "u8 \<Rightarrow> int option" where
  "digit_of c =
     (if 0x30 \<le> sint c \<and> sint c \<le> 0x39 then Some (sint c - 0x30)
      else if 0x61 \<le> sint c \<and> sint c \<le> 0x7A then Some (sint c - 0x61 + 10)
      else if 0x41 \<le> sint c \<and> sint c \<le> 0x5A then Some (sint c - 0x41 + 10)
      else None)"

partial_function (option) digits_in :: "mem \<Rightarrow> int \<Rightarrow> cstring \<Rightarrow> u64 \<Rightarrow> (cstring \<times> u64) option" where
  "digits_in m base s result =
     (if m s \<noteq> 0 then
        case digit_of (m s) of
          None \<Rightarrow> Some (s, result)
        | Some digit \<Rightarrow>
            if digit \<ge> base then Some (s, result)
            else digits_in m base (s + 1) (result * of_int base + of_int digit)
      else Some (s, result))"

text \<open>The base a prefix selects, and the position after the prefix.\<close>

definition number_base :: "mem \<Rightarrow> int \<Rightarrow> cstring \<Rightarrow> int \<times> cstring" where
  "number_base m base s =
     (if base = 0 then
        if m s = 0x30 then
          if m (s + 1) = 0x78 \<or> m (s + 1) = 0x58 then (16, s + 2) else (8, s + 1)
        else (10, s)
      else if base = 16 then
        if m s = 0x30 \<and> (m (s + 1) = 0x78 \<or> m (s + 1) = 0x58) then (16, s + 2) else (16, s)
      else (base, s))"

text \<open>The results are the number and what is stored through \<^verbatim>\<open>endptr\<close> unless that is \<^verbatim>\<open>NULL\<close>.\<close>

definition strtol :: "mem \<Rightarrow> cstring \<Rightarrow> int \<Rightarrow> (u64 \<times> cstring) option" where
  "strtol m nptr base = do {
     s \<leftarrow> scan isspace m nptr;
     let (neg, s) = (if m s = 0x2D then (True, s + 1) else if m s = 0x2B then (False, s + 1) else (False, s));
     let (base, start) = number_base m base s;
     (s, result) \<leftarrow> digits_in m base start 0;
     Some (if neg then - result else result, if s \<noteq> start then s else nptr)
   }"

definition strtoll :: "mem \<Rightarrow> cstring \<Rightarrow> int \<Rightarrow> (u64 \<times> cstring) option" where
  "strtoll m nptr base = strtol m nptr base"

definition strtoul :: "mem \<Rightarrow> cstring \<Rightarrow> int \<Rightarrow> (u64 \<times> cstring) option" where
  "strtoul m nptr base = do {
     s \<leftarrow> scan isspace m nptr;
     let s = (if m s = 0x2B then s + 1 else s);
     let (base, start) = number_base m base s;
     (s, result) \<leftarrow> digits_in m base start 0;
     Some (result, if s \<noteq> start then s else nptr)
   }"

definition atoi :: "mem \<Rightarrow> cstring \<Rightarrow> u32 option" where
  "atoi m nptr = map_option (\<lambda>(r, _). ucast r) (strtol m nptr 10)"

function reverse_loop :: "cstring \<Rightarrow> int \<Rightarrow> int \<Rightarrow> mem \<Rightarrow> mem" where
  "reverse_loop str i j m =
     (if i < j then
        let tmp = m (str + of_int i);
            m = m(str + of_int i := m (str + of_int j));
            m = m(str + of_int j := tmp)
        in reverse_loop str (i + 1) (j - 1) m
      else m)"
  by auto

termination reverse_loop
  by (relation "measure (\<lambda>(_, i, j, _). nat (j - i))") auto

declare reverse_loop.simps [simp del]

definition reverse_str :: "cstring \<Rightarrow> int \<Rightarrow> mem \<Rightarrow> mem" where
  "reverse_str str len m = reverse_loop str 0 (len - 1) m"

text \<open>The loop that writes the digits, the lowest first, for the unsigned types of 32 and 64 bits.\<close>

definition digit_char :: "u32 \<Rightarrow> u8" where
  "digit_char digit = (if digit < 10 then ucast (0x30 + digit) else ucast (0x61 + digit - 10))"

partial_function (option) digits_out :: "'a::len word \<Rightarrow> 'a word \<Rightarrow> cstring \<Rightarrow> int \<Rightarrow> mem \<Rightarrow> (int \<times> mem) option" where
  "digits_out uval base str i m =
     (let digit = ucast (uval mod base);
          m = m(str + of_int i := digit_char digit);
          uval = uval div base
      in if uval \<noteq> 0 then digits_out uval base str (i + 1) m else Some (i + 1, m))"

definition itoa :: "u32 \<Rightarrow> cstring \<Rightarrow> int \<Rightarrow> mem \<Rightarrow> (cstring \<times> mem) option" where
  "itoa value str base m =
     (if base < 2 \<or> base > 36 then Some (str, m(str := 0))
      else do {
        let (neg, uval) = (if sint value < 0 \<and> base = 10 then (True, - value) else (False, value));
        (i, m) \<leftarrow> digits_out uval (of_int base) str 0 m;
        let (i, m) = (if neg then (i + 1, m(str + of_int i := 0x2D)) else (i, m));
        let m = m(str + of_int i := 0);
        Some (str, reverse_str str i m)
      })"

definition uitoa :: "u32 \<Rightarrow> cstring \<Rightarrow> int \<Rightarrow> mem \<Rightarrow> (cstring \<times> mem) option" where
  "uitoa value str base m =
     (if base < 2 \<or> base > 36 then Some (str, m(str := 0))
      else do {
        (i, m) \<leftarrow> digits_out value (of_int base) str 0 m;
        let m = m(str + of_int i := 0);
        Some (str, reverse_str str i m)
      })"

definition itoa_signed :: "u64 \<Rightarrow> cstring \<Rightarrow> int \<Rightarrow> mem \<Rightarrow> (cstring \<times> mem) option" where
  "itoa_signed value str base m =
     (if base < 2 \<or> base > 36 then Some (str, m(str := 0))
      else do {
        let (neg, uval) = (if sint value < 0 \<and> base = 10 then (True, - value) else (False, value));
        (i, m) \<leftarrow> digits_out uval (of_int base) str 0 m;
        let (i, m) = (if neg then (i + 1, m(str + of_int i := 0x2D)) else (i, m));
        let m = m(str + of_int i := 0);
        Some (str, reverse_str str i m)
      })"

definition uitoa64 :: "u64 \<Rightarrow> cstring \<Rightarrow> int \<Rightarrow> mem \<Rightarrow> (cstring \<times> mem) option" where
  "uitoa64 value str base m =
     (if base < 2 \<or> base > 36 then Some (str, m(str := 0))
      else do {
        (i, m) \<leftarrow> digits_out value (of_int base) str 0 m;
        let m = m(str + of_int i := 0);
        Some (str, reverse_str str i m)
      })"

end
