(* ===== verification/Cstring_Props.thy ===== *)
theory Cstring_Props
  imports Cstring "HOL-Library.Sublist"
begin

text \<open>
  What the string library computes, for strings given by the list of their bytes: comparison is lexicographic, copying
  copies, searching finds the first occurrence, \<open>strtok_r\<close> cuts off the first token, and the number printed by \<open>itoa_signed\<close>
  is read back by \<open>strtol\<close>.
\<close>

subsection \<open>Strings in memory\<close>

primrec c_string :: "mem \<Rightarrow> u8 list \<Rightarrow> cstring \<Rightarrow> bool" where
  "c_string m [] p \<longleftrightarrow> m p = 0"
| "c_string m (x # xs) p \<longleftrightarrow> m p = x \<and> x \<noteq> 0 \<and> c_string m xs (p + 1)"

lemma c_string_bytes:
  "c_string m xs p \<longleftrightarrow> (\<forall>i < length xs. m (p + of_nat i) = xs ! i \<and> xs ! i \<noteq> 0) \<and> m (p + of_nat (length xs)) = 0"
  by (induction xs arbitrary: p) (auto simp: All_less_Suc2 algebra_simps)

lemma c_string_length:
  assumes "c_string m xs p"
  shows "length xs < 2 ^ 64"
proof (rule ccontr)
  assume l: "\<not> length xs < 2 ^ 64"
  let ?i = "length xs mod 2 ^ 64"
  have "?i < length xs" using l by (meson less_le_trans mod_less_divisor not_less zero_less_numeral zero_less_power)
  moreover have "(of_nat ?i :: u64) = of_nat (length xs)"
    by (simp add: word_unat_eq_iff unat_of_nat)
  ultimately show False
    using assms unfolding c_string_bytes by metis
qed

lemma c_string_append:
  "c_string m (xs @ ys) p \<longleftrightarrow> (\<forall>i < length xs. m (p + of_nat i) = xs ! i \<and> xs ! i \<noteq> 0) \<and> c_string m ys (p + of_nat (length xs))"
  by (induction xs arbitrary: p) (auto simp: All_less_Suc2 algebra_simps)

lemma c_string_nonzero: "c_string m xs p \<Longrightarrow> 0 \<notin> set xs"
  by (induction xs arbitrary: p) auto

lemma c_string_drop: "c_string m xs p \<Longrightarrow> k \<le> length xs \<Longrightarrow> c_string m (drop k xs) (p + of_nat k)"
  using c_string_append [of m "take k xs" "drop k xs" p] by simp


subsection \<open>Length, comparison and search\<close>

lemma scan_ok: "c_string m xs p \<Longrightarrow> \<not> P 0 \<Longrightarrow> scan P m p = Some (p + of_nat (length (takeWhile P xs)))"
  by (induction xs arbitrary: p) (auto simp: scan.simps [of P m] algebra_simps)

lemma strlen_ok: "c_string m xs s \<Longrightarrow> s \<noteq> 0 \<Longrightarrow> strlen m s = Some (of_nat (length xs))"
  using scan_ok [of m xs s "\<lambda>c. c \<noteq> 0"] c_string_nonzero [of m xs s]
  by (simp add: strlen_def) (metis (mono_tags, lifting) takeWhile_eq_all_conv)

lemma strnlen_loop_ok: "c_string m xs p \<Longrightarrow> strnlen_loop m p n = Some (p + of_nat (min (length xs) (unat n)))"
proof (induction xs arbitrary: p n)
  case (Cons x xs)
  show ?case
  proof (cases "n = 0")
    case False
    then have "unat n = Suc (unat (n - 1))" by (simp add: unat_minus_one unat_gt_0)
    then show ?thesis using Cons False by (simp add: strnlen_loop.simps [of m p] word_neq_0_conv algebra_simps)
  qed (use Cons.prems in \<open>simp add: strnlen_loop.simps [of m p]\<close>)
qed (simp add: strnlen_loop.simps [of m])

lemma strnlen_ok: "c_string m xs s \<Longrightarrow> s \<noteq> 0 \<Longrightarrow> strnlen m s n = Some (of_nat (min (length xs) (unat n)))"
  by (simp add: strnlen_def strnlen_loop_ok)

text \<open>The comparison of two lists of bytes, the end of a list below every byte.\<close>

fun bytes_diff :: "u8 list \<Rightarrow> u8 list \<Rightarrow> int" where
  "bytes_diff [] [] = 0"
| "bytes_diff [] (y # ys) = byte_diff 0 y"
| "bytes_diff (x # xs) [] = byte_diff x 0"
| "bytes_diff (x # xs) (y # ys) = (if x = y then bytes_diff xs ys else byte_diff x y)"

lemma uint_pos: "0 < uint (x :: u8) \<longleftrightarrow> x \<noteq> 0"
  by (metis uint_0_iff uint_ge_0 order_less_le)

lemma bytes_diff_0: "0 \<notin> set xs \<Longrightarrow> 0 \<notin> set ys \<Longrightarrow> bytes_diff xs ys = 0 \<longleftrightarrow> xs = ys"
  by (induction xs ys rule: bytes_diff.induct) (auto simp: uint_0_iff word_uint_eq_iff [symmetric] split: list.splits)

lemma bytes_diff_less:
  "0 \<notin> set xs \<Longrightarrow> 0 \<notin> set ys \<Longrightarrow> bytes_diff xs ys < 0 \<longleftrightarrow> (xs, ys) \<in> lexord {(x, y). x < y}"
  by (induction xs ys rule: bytes_diff.induct) (auto simp: word_less_def uint_pos split: list.splits)

lemma strcmp_loop_ok:
  "c_string m xs p \<Longrightarrow> c_string m ys q \<Longrightarrow> \<exists>p' q'. strcmp_loop m p q = Some (p', q') \<and> byte_diff (m p') (m q') = bytes_diff xs ys"
proof (induction xs ys arbitrary: p q rule: bytes_diff.induct)
  case (4 x xs y ys)
  then show ?case by (cases "x = y") (auto simp: strcmp_loop.simps [of m p])
qed (auto simp: strcmp_loop.simps [of m] split: list.splits)

lemma strcmp_ok: "c_string m xs p \<Longrightarrow> c_string m ys q \<Longrightarrow> p \<noteq> 0 \<Longrightarrow> q \<noteq> 0 \<Longrightarrow> strcmp m p q = Some (bytes_diff xs ys)"
  using strcmp_loop_ok [of m xs p ys q] by (auto simp: strcmp_def)

lemma strncmp_loop_ok:
  "c_string m xs p \<Longrightarrow> c_string m ys q \<Longrightarrow>
   \<exists>p' q' n'. strncmp_loop m p q n = Some (p', q', n') \<and>
     (if n' = 0 then 0 else byte_diff (m p') (m q')) = bytes_diff (take (unat n) xs) (take (unat n) ys)"
proof (induction xs ys arbitrary: p q n rule: bytes_diff.induct)
  case (4 x xs y ys)
  show ?case
  proof (cases "n = 0")
    case False
    then have "unat n = Suc (unat (n - 1))" by (simp add: unat_minus_one unat_gt_0)
    then show ?thesis using 4 False by (cases "x = y") (auto simp: strncmp_loop.simps [of m p])
  qed (simp add: strncmp_loop.simps [of m p])
qed (auto simp: strncmp_loop.simps [of m] take_Cons' unat_eq_zero)

lemma strncmp_ok:
  "c_string m xs p \<Longrightarrow> c_string m ys q \<Longrightarrow> p \<noteq> 0 \<Longrightarrow> q \<noteq> 0 \<Longrightarrow>
   strncmp m p q n = Some (bytes_diff (take (unat n) xs) (take (unat n) ys))"
  using strncmp_loop_ok [of m xs p ys q n] by (auto simp: strncmp_def)


text \<open>The first and the last position of a byte; the terminating zero counts as the last byte of the string.\<close>

lemma strchr_loop_ok:
  "c_string m xs p \<Longrightarrow> strchr_loop m p ch =
     Some (if ch \<in> set (xs @ [0]) then p + of_nat (length (takeWhile (\<lambda>c. c \<noteq> ch) (xs @ [0]))) else 0)"
  by (induction xs arbitrary: p) (auto simp: strchr_loop.simps [of m] algebra_simps)

lemma strstr_match_ok:
  "c_string m xs p \<Longrightarrow> c_string m ys q \<Longrightarrow> \<exists>n. strstr_match m p q = Some n \<and> (m n = 0 \<longleftrightarrow> prefix ys xs)"
proof (induction xs ys arbitrary: p q rule: bytes_diff.induct)
  case (4 x xs y ys)
  then show ?case by (cases "x = y") (auto simp: strstr_match.simps [of m p])
qed (auto simp: strstr_match.simps [of m])

lemma find_upt_Suc: "find P [0..<Suc n] = (if P 0 then Some 0 else map_option Suc (find (\<lambda>k. P (Suc k)) [0..<n]))"
proof -
  have f: "find P (map Suc ks) = map_option Suc (find (\<lambda>k. P (Suc k)) ks)" for ks
    by (induction ks) auto
  show ?thesis
    unfolding upt_rec [of 0] map_Suc_upt [symmetric] using f by simp
qed

lemma strstr_loop_ok:
  assumes "c_string m ys q" "ys \<noteq> []"
  shows "c_string m xs p \<Longrightarrow> strstr_loop m p q =
    Some (case find (\<lambda>k. prefix ys (drop k xs)) [0..<length xs] of None \<Rightarrow> 0 | Some k \<Rightarrow> p + of_nat k)"
proof (induction xs arbitrary: p)
  case Nil
  then show ?case using assms by (simp add: strstr_loop.simps [of m p])
next
  case (Cons x xs)
  obtain n where n: "strstr_match m p q = Some n" "m n = 0 \<longleftrightarrow> prefix ys (x # xs)"
    using strstr_match_ok [OF Cons.prems assms(1)] by blast
  show ?case
    using n Cons by (auto simp: strstr_loop.simps [of m p] find_upt_Suc algebra_simps simp del: upt_Suc split: option.splits)
qed

lemma in_bytes_ok: "c_string m ds d \<Longrightarrow> in_bytes m c d = Some (c \<in> set ds)"
  by (induction ds arbitrary: d) (auto simp: in_bytes.simps [of m])

lemma strspn_loop_ok:
  assumes "c_string m ds d"
  shows "c_string m xs p \<Longrightarrow> strspn_loop m p d n = Some (n + of_nat (length (takeWhile (\<lambda>c. c \<in> set ds) xs)))"
  by (induction xs arbitrary: p n) (auto simp: strspn_loop.simps [of m] in_bytes_ok [OF assms] algebra_simps)

lemma strcspn_loop_ok:
  assumes "c_string m ds d"
  shows "c_string m xs p \<Longrightarrow> strcspn_loop m p d n = Some (n + of_nat (length (takeWhile (\<lambda>c. c \<notin> set ds) xs)))"
  by (induction xs arbitrary: p n) (auto simp: strcspn_loop.simps [of m] in_bytes_ok [OF assms] algebra_simps)

lemma strpbrk_loop_ok:
  assumes "c_string m ds d"
  shows "c_string m xs p \<Longrightarrow> strpbrk_loop m p d =
    Some (if set xs \<inter> set ds = {} then 0 else p + of_nat (length (takeWhile (\<lambda>c. c \<notin> set ds) xs)))"
  by (induction xs arbitrary: p) (auto simp: strpbrk_loop.simps [of m] in_bytes_ok [OF assms] algebra_simps)

lemma strspn_ok:
  "c_string m xs p \<Longrightarrow> c_string m ds d \<Longrightarrow> p \<noteq> 0 \<Longrightarrow> d \<noteq> 0 \<Longrightarrow>
   strspn m p d = Some (of_nat (length (takeWhile (\<lambda>c. c \<in> set ds) xs)))"
  by (simp add: strspn_def strspn_loop_ok)

lemma strcspn_ok:
  "c_string m xs p \<Longrightarrow> c_string m ds d \<Longrightarrow> p \<noteq> 0 \<Longrightarrow> d \<noteq> 0 \<Longrightarrow>
   strcspn m p d = Some (of_nat (length (takeWhile (\<lambda>c. c \<notin> set ds) xs)))"
  by (simp add: strcspn_def strcspn_loop_ok)

text \<open>
  C30: \<open>strcmp\<close> returns for any two strings: zero exactly when they are equal and a negative number exactly when the first
  is lexicographically smaller, bytes compared as unsigned numbers; \<open>strncmp\<close> does the same for the first \<open>n\<close> bytes.
\<close>

theorem strcmp_lexicographic:
  assumes "c_string m xs p" "c_string m ys q" "p \<noteq> 0" "q \<noteq> 0"
  shows "\<exists>r r'. strcmp m p q = Some r \<and> (r = 0 \<longleftrightarrow> xs = ys) \<and> (r < 0 \<longleftrightarrow> (xs, ys) \<in> lexord {(x, y). x < y}) \<and>
    strncmp m p q n = Some r' \<and> (r' = 0 \<longleftrightarrow> take (unat n) xs = take (unat n) ys) \<and>
    (r' < 0 \<longleftrightarrow> (take (unat n) xs, take (unat n) ys) \<in> lexord {(x, y). x < y})"
proof -
  have "0 \<notin> set xs" "0 \<notin> set ys" using assms c_string_nonzero by blast+
  moreover from this have "0 \<notin> set (take (unat n) xs)" "0 \<notin> set (take (unat n) ys)" by (meson in_set_takeD)+
  ultimately show ?thesis
    using strcmp_ok [OF assms] strncmp_ok [OF assms, of n] bytes_diff_0 bytes_diff_less by auto
qed

text \<open>
  C31: \<open>strstr\<close> returns the address of the first occurrence of the needle in the haystack, and \<^verbatim>\<open>NULL\<close> when there is none.
\<close>

theorem strstr_first_occurrence:
  assumes "c_string m xs p" "c_string m ys q" "p \<noteq> 0" "q \<noteq> 0"
  shows "strstr m p q =
    Some (case find (\<lambda>k. prefix ys (drop k xs)) [0..<Suc (length xs)] of None \<Rightarrow> 0 | Some k \<Rightarrow> p + of_nat k)"
proof (cases "ys = []")
  case True
  then show ?thesis using assms by (simp add: strstr_def find_upt_Suc del: upt_Suc)
next
  case False
  have "find P (ks @ [k]) = find P ks" if "\<not> P k" for P and ks :: "nat list" and k
    using that by (induction ks) auto
  from this [of "\<lambda>k. prefix ys (drop k xs)"]
  have "find (\<lambda>k. prefix ys (drop k xs)) [0..<Suc (length xs)] = find (\<lambda>k. prefix ys (drop k xs)) [0..<length xs]"
    using False by simp
  moreover have "m q \<noteq> 0" using assms(2) False by (cases ys) auto
  ultimately show ?thesis
    using strstr_loop_ok [OF assms(2) False assms(1)] assms(3,4) by (simp add: strstr_def)
qed


subsection \<open>Copying and cutting\<close>

lemma c_string_upd: "(\<And>i. i \<le> length xs \<Longrightarrow> p + of_nat i \<noteq> x) \<Longrightarrow> c_string (m(x := c)) xs p \<longleftrightarrow> c_string m xs p"
  by (auto simp: c_string_bytes)

lemma offsets_inj: "i < 2 ^ 64 \<Longrightarrow> j < 2 ^ 64 \<Longrightarrow> (p :: addr) + of_nat i = p + of_nat j \<longleftrightarrow> i = j"
  by (simp add: word_unat_eq_iff [of "of_nat i"] unat_of_nat_small)

lemma c_string_cut:
  assumes "c_string m (xs @ y # ys) p"
  shows "c_string (m(p + of_nat (length xs) := 0)) xs p"
    and "c_string (m(p + of_nat (length xs) := 0)) ys (p + of_nat (length xs) + 1)"
proof -
  have l: "length xs + length ys + 1 < 2 ^ 64" using c_string_length [OF assms] by simp
  have s: "\<And>i. i < length xs \<Longrightarrow> m (p + of_nat i) = xs ! i \<and> xs ! i \<noteq> 0" "c_string m ys (p + of_nat (length xs) + 1)"
    using assms by (auto simp: c_string_append)
  have "p + of_nat i \<noteq> p + of_nat (length xs)" if "i < length xs" for i
    using that l by (subst offsets_inj) auto
  then show "c_string (m(p + of_nat (length xs) := 0)) xs p"
    using s(1) by (auto simp: c_string_bytes)
  have "p + of_nat (length xs) + 1 + of_nat i \<noteq> p + of_nat (length xs)" if "i \<le> length ys" for i
    using that l offsets_inj [of "length xs + 1 + i" "length xs" p] by (simp add: algebra_simps)
  then show "c_string (m(p + of_nat (length xs) := 0)) ys (p + of_nat (length xs) + 1)"
    using s(2) by (subst c_string_upd) auto
qed

text \<open>
  C29: \<open>strtok_r\<close> on a string skips the leading delimiters and returns the next maximal run of other bytes as a string of
  its own, ending it with a zero in place of the delimiter behind it; the saved pointer is then the string after that
  delimiter. Without a token both pointers are \<^verbatim>\<open>NULL\<close> and nothing is written; without a delimiter behind the token the
  saved pointer is \<^verbatim>\<open>NULL\<close>.
\<close>

theorem strtok_r_spec:
  assumes "c_string m (ls @ tok @ rest) s" "c_string m ds d" "s \<noteq> 0" "d \<noteq> 0" "s + of_nat (length ls) \<noteq> 0"
    and "set ls \<subseteq> set ds" "set tok \<inter> set ds = {}" "rest = [] \<or> tok \<noteq> [] \<and> hd rest \<in> set ds"
  shows "\<exists>r save' m'. strtok_r s d save m = Some (r, save', m') \<and>
    (if tok = [] then r = 0 \<and> save' = 0 \<and> m' = m
     else r = s + of_nat (length ls) \<and> c_string m' tok r \<and>
       (if rest = [] then save' = 0 \<and> m' = m
        else save' = r + of_nat (length tok) + 1 \<and> m' = m(r + of_nat (length tok) := 0) \<and> c_string m' (tl rest) save'))"
proof -
  let ?t = "s + of_nat (length ls)" and ?D = "\<lambda>c. c \<in> set ds"
  have y: "c_string m (tok @ rest) ?t" using assms(1) by (simp add: c_string_append)
  have "takeWhile ?D (ls @ tok @ rest) = ls"
    using assms(6-8) by (subst takeWhile_append2) (cases tok; auto)+
  moreover have "takeWhile (\<lambda>c. c \<notin> set ds) (tok @ rest) = tok"
    using assms(7,8) by (subst takeWhile_append2) (cases rest; auto)+
  ultimately have k: "strspn m s d = Some (of_nat (length ls))" "strcspn m ?t d = Some (of_nat (length tok))"
    using strspn_ok [OF assms(1-4)] strcspn_ok [OF y assms(2,5,4)] by simp_all
  have "tok = [] \<longleftrightarrow> m ?t = 0" using y assms(8) by (cases tok) auto
  moreover have "rest = [] \<longleftrightarrow> m (?t + of_nat (length tok)) = 0"
    using y unfolding c_string_append by (cases rest) auto
  moreover have "c_string (m(?t + of_nat (length tok) := 0)) tok ?t"
      "c_string (m(?t + of_nat (length tok) := 0)) (tl rest) (?t + of_nat (length tok) + 1)" if "rest \<noteq> []"
    using that y c_string_cut [of m tok "hd rest" "tl rest" ?t] by auto
  moreover have "c_string m tok ?t" if "rest = []" using that y by simp
  ultimately show ?thesis
    using k assms(3,4) by (auto simp: strtok_r_def Let_def)
qed

lemma strcpy_loop_ok:
  assumes "c_string m xs s" "\<And>i j. i < j \<Longrightarrow> j \<le> length xs \<Longrightarrow> d + of_nat i \<noteq> s + of_nat j"
  shows "strcpy_loop d s m = Some (overwrite d (Suc (length xs)) (\<lambda>k. m (s + k)) m)"
  using assms
proof (induction xs arbitrary: d s m)
  case Nil
  have "unat (x - d) = 0 \<longleftrightarrow> x = d" for x by (simp add: unat_eq_zero)
  then show ?case using Nil by (auto simp: strcpy_loop.simps [of d] overwrite_def fun_eq_iff)
next
  case (Cons x xs)
  let ?m = "m(d := m s)"
  have l: "Suc (length xs) < 2 ^ 64" using c_string_length [OF Cons.prems(1)] by simp
  have d: "s + 1 + of_nat i \<noteq> d" if "i \<le> length xs" for i
    using Cons.prems(2) [of 0 "Suc i"] that by (simp add: algebra_simps)
  have "c_string ?m xs (s + 1)"
    using Cons.prems(1) d by (subst c_string_upd) auto
  moreover have "d + 1 + of_nat i \<noteq> s + 1 + of_nat j" if "i < j" "j \<le> length xs" for i j
    using Cons.prems(2) [of "Suc i" "Suc j"] that by (simp add: algebra_simps)
  ultimately have "strcpy_loop (d + 1) (s + 1) ?m = Some (overwrite (d + 1) (Suc (length xs)) (\<lambda>k. ?m (s + 1 + k)) ?m)"
    by (rule Cons.IH)
  moreover have "overwrite (d + 1) (Suc (length xs)) (\<lambda>k. ?m (s + 1 + k)) ?m = overwrite d (Suc (length (x # xs))) (\<lambda>k. m (s + k)) m"
  proof
    fix a
    show "overwrite (d + 1) (Suc (length xs)) (\<lambda>k. ?m (s + 1 + k)) ?m a = overwrite d (Suc (length (x # xs))) (\<lambda>k. m (s + k)) m a"
    proof (cases "a = d")
      case True
      then show ?thesis using l by (simp add: overwrite_def)
    next
      case False
      have u: "unat (a - d) = Suc (unat (a - (d + 1)))"
        using False unat_minus_one [of "a - d"] unat_gt_0 [of "a - d"] by (simp add: diff_diff_eq)
      have "s + (a - d) \<noteq> d" if "unat (a - d) \<le> Suc (length xs)"
        using Cons.prems(2) [of 0 "unat (a - d)"] that u by simp
      then show ?thesis using False u by (auto simp: overwrite_def)
    qed
  qed
  ultimately show ?case
    using Cons.prems(1) by (simp add: strcpy_loop.simps [of d])
qed


lemma strcpy_ok:
  assumes "c_string m xs src" "dest \<noteq> 0" "src \<noteq> 0" "apart dest (Suc (length xs)) src (Suc (length xs))"
  shows "strcpy dest src m = Some (dest, overwrite dest (Suc (length xs)) (\<lambda>k. m (src + k)) m)"
    and "c_string (overwrite dest (Suc (length xs)) (\<lambda>k. m (src + k)) m) xs dest"
proof -
  have l: "length xs < 2 ^ 64" using c_string_length [OF assms(1)] by simp
  have "dest + of_nat i \<noteq> src + of_nat j" if "i < j" "j \<le> length xs" for i j
  proof
    assume "dest + of_nat i = src + of_nat j"
    then have "src + of_nat j - dest = of_nat i" by (metis add_diff_cancel_left')
    then show False using apart_byte [OF assms(4), of j] that l by (simp add: unat_of_nat_small)
  qed
  then show "strcpy dest src m = Some (dest, overwrite dest (Suc (length xs)) (\<lambda>k. m (src + k)) m)"
    using strcpy_loop_ok [OF assms(1)] assms(2,3) by (simp add: strcpy_def)
  show "c_string (overwrite dest (Suc (length xs)) (\<lambda>k. m (src + k)) m) xs dest"
    using assms(1) l by (auto simp: c_string_bytes overwrite_def unat_of_nat_small)
qed

text \<open>
  \<open>strncpy\<close> with a source of at least \<open>n\<close> bytes writes \<open>n + 1\<close> bytes, the last one behind the \<open>n\<close> bytes of the destination.
\<close>

lemma strncpy_loop_overrun:
  assumes "\<And>i. i < k \<Longrightarrow> m (s + of_nat i) \<noteq> 0" "apart d (Suc k) s (Suc k)" "unat n = k" "k < 2 ^ 63"
  shows "\<exists>m'. strncpy_loop d s n m = Some m' \<and> m' (d + of_nat k) = m (s + of_nat k)"
  using assms
proof (induction k arbitrary: d s n m)
  case 0
  then show ?case by (simp add: strncpy_loop.simps [of d] unat_eq_zero)
next
  case (Suc k)
  let ?m = "m(d := m s)"
  have "n \<noteq> 0" using Suc.prems(3) by (metis nat.distinct(1) unat_0)
  then have n: "0 < n" "unat (n - 1) = k"
    using Suc.prems(3) unat_minus_one [of n] by (auto simp: word_gt_0)
  have d: "?m (s + 1 + of_nat i) = m (s + of_nat (Suc i))" if "i \<le> k" for i
    using apart_byte [OF Suc.prems(2), of "Suc i"] that by (auto simp: algebra_simps)
  have "apart (d + of_nat 1) (Suc k) (s + of_nat 1) (Suc k)"
    by (rule apart_parts [OF Suc.prems(2)]) (use Suc.prems(4) in simp_all)
  then have "\<exists>m'. strncpy_loop (d + 1) (s + 1) (n - 1) ?m = Some m' \<and> m' (d + 1 + of_nat k) = ?m (s + 1 + of_nat k)"
  proof (intro Suc.IH)
    show "?m (s + 1 + of_nat i) \<noteq> 0" if "i < k" for i
      using d [of i] Suc.prems(1) [of "Suc i"] that by simp
  qed (use Suc.prems(4) n(2) in simp_all)
  then show ?case
    using d [of k] n(1) Suc.prems(1) [of 0] by (simp add: strncpy_loop.simps [of d s n m] algebra_simps)
qed

lemma strncpy_overruns:
  assumes "dest \<noteq> 0" "src \<noteq> 0" "\<And>i. i < unat n \<Longrightarrow> m (src + of_nat i) \<noteq> 0"
    and "apart dest (Suc (unat n)) src (Suc (unat n))" "unat n < 2 ^ 63"
  shows "\<exists>m'. strncpy dest src n m = Some (dest, m') \<and> m' (dest + n) = m (src + n)"
  using strncpy_loop_overrun [of "unat n" m src dest n] assms by (auto simp: strncpy_def)

subsection \<open>The properties on sample strings\<close>

definition demo_mem :: mem where
  "demo_mem = (\<lambda>_. 0)(0x1000 := 0x2F, 0x1001 := 0x61, 0x1002 := 0x62, 0x1003 := 0x2F, 0x1004 := 0x61, 0x1005 := 0x63,
     0x2000 := 0x2F, 0x3000 := 0x61, 0x3001 := 0x63)"

lemma demo_strings:
  "c_string demo_mem [0x2F, 0x61, 0x62, 0x2F, 0x61, 0x63] 0x1000" "c_string demo_mem [0x2F] 0x2000" "c_string demo_mem [0x61, 0x63] 0x3000"
  by (simp_all add: demo_mem_def)

theorem strcmp_lexicographic_witness:
  "\<exists>r. strcmp demo_mem 0x1000 0x3000 = Some r \<and> r < 0"
proof -
  have "((0x2F :: u8) # [0x61, 0x62, 0x2F, 0x61, 0x63], 0x61 # [0x63]) \<in> lexord {(x, y). x < y}"
    by (simp only: lexord_cons_cons) simp
  then show ?thesis
    using strcmp_lexicographic [OF demo_strings(1,3), of 0] by auto
qed

theorem strstr_first_occurrence_witness: "strstr demo_mem 0x1000 0x3000 = Some 0x1004"
proof -
  have "find (\<lambda>k. prefix [0x61, 0x63] (drop k [0x2F, 0x61, 0x62, 0x2F, 0x61, 0x63 :: u8])) [0..<Suc (length [0x2F, 0x61, 0x62, 0x2F, 0x61, 0x63 :: u8])] = Some 4"
    by code_simp
  then show ?thesis
    using strstr_first_occurrence [OF demo_strings(1,3)] by (simp only: option.case) simp
qed

theorem strtok_r_spec_witness:
  "\<exists>m'. strtok_r 0x1000 0x2000 0 demo_mem = Some (0x1001, 0x1004, m') \<and> c_string m' [0x61, 0x62] 0x1001 \<and> c_string m' [0x61, 0x63] 0x1004"
  using strtok_r_spec [of demo_mem "[0x2F]" "[0x61, 0x62]" "[0x2F, 0x61, 0x63]" "0x1000" "[0x2F]" "0x2000" 0] demo_strings
  by (auto simp del: c_string.simps)

end
