(* ===== verification/Cstring_Num.thy ===== *)
theory Cstring_Num
  imports Cstring_Props
begin

text \<open>
  Numbers as text: what \<open>itoa\<close>, \<open>uitoa\<close>, \<open>itoa_signed\<close> and \<open>uitoa64\<close> write is read back by \<open>atoi\<close>, \<open>strtol\<close> and \<open>strtoul\<close>.
\<close>

subsection \<open>Positional notation\<close>

text \<open>The digits of a number, the lowest first.\<close>

fun digits :: "nat \<Rightarrow> nat \<Rightarrow> nat list" where
  "digits b n = (if b < 2 \<or> n < b then [n] else n mod b # digits b (n div b))"

declare digits.simps [simp del]

lemma digits_value: "foldr (\<lambda>d a. a * b + d) (digits b n) 0 = n"
  by (induction b n rule: digits.induct) (subst digits.simps, auto simp: mult.commute)

lemma digits_less: "2 \<le> b \<Longrightarrow> d \<in> set (digits b n) \<Longrightarrow> d < b"
  by (induction b n rule: digits.induct) (subst (asm) (2) digits.simps, auto split: if_splits)

lemma digits_length: "n < b ^ k \<Longrightarrow> 0 < k \<Longrightarrow> length (digits b n) \<le> k"
proof (induction b n arbitrary: k rule: digits.induct)
  case (1 b n)
  show ?case
  proof (cases "b < 2 \<or> n < b")
    case True
    then show ?thesis using 1(3) by (simp add: digits.simps [of b n])
  next
    case False
    then obtain j where j: "k = Suc j" "0 < j"
      using 1(2,3) by (cases k; cases "k = 1") auto
    then have "n div b < b ^ j" using 1(2) False by (intro less_mult_imp_div_less) (simp add: mult.commute)
    then show ?thesis using 1(1) [of j] False j by (simp add: digits.simps [of b n])
  qed
qed

subsection \<open>Writing bytes\<close>

primrec put :: "u8 list \<Rightarrow> addr \<Rightarrow> mem \<Rightarrow> mem" where
  "put [] p m = m"
| "put (x # xs) p m = put xs (p + 1) (m(p := x))"

lemma put_append: "put (xs @ ys) p m = put ys (p + of_nat (length xs)) (put xs p m)"
  by (induction xs arbitrary: p m) (simp_all add: algebra_simps)

lemma put_at: "length xs \<le> 2 ^ 64 \<Longrightarrow> put xs p m x = (if unat (x - p) < length xs then xs ! unat (x - p) else m x)"
proof (induction xs arbitrary: p m)
  case (Cons y ys)
  show ?case
  proof (cases "x = p")
    case True
    then show ?thesis using Cons.IH [of "p + 1" "m(p := y)"] Cons.prems by (simp add: unat_minus_flip del: fun_upd_apply) simp
  next
    case False
    have "unat (x - p) = Suc (unat (x - (p + 1)))"
      using False unat_minus_one [of "x - p"] unat_gt_0 [of "x - p"] by (simp add: diff_diff_eq)
    then show ?thesis using Cons False by simp
  qed
qed simp

lemma reverse_loop_at:
  assumes "0 \<le> i" "j < 2 ^ 62"
  shows "reverse_loop str i j m a =
    (if i \<le> uint (a - str) \<and> uint (a - str) \<le> j then m (str + of_int (i + j - uint (a - str))) else m a)"
  using assms
proof (induction str i j m rule: reverse_loop.induct)
  case (1 str i j m)
  let ?k = "uint (a - str)"
  have u: "uint (of_int q :: u64) = q" if "0 \<le> q" "q < 2 ^ 62" for q :: int
    using that by (simp add: uint_word_of_int)
  have eq: "str + of_int q = str + of_int r \<longleftrightarrow> q = r" if "0 \<le> q" "q < 2 ^ 62" "0 \<le> r" "r < 2 ^ 62" for q r :: int
    using u that by (metis add_left_cancel)
  have a: "a = str + of_int ?k" by simp
  define w where "w = i + j - ?k"
  have "reverse_loop str i j m a = (if i \<le> ?k \<and> ?k \<le> j then m (str + of_int w) else m a)"
  proof (cases "i < j")
    case True
    define m' where "m' = m(str + of_int i := m (str + of_int j), str + of_int j := m (str + of_int i))"
    have l: "reverse_loop str i j m = reverse_loop str (i + 1) (j - 1) m'"
      using True eq [of i j] 1(2,3) by (simp add: m'_def reverse_loop.simps [of str i j] Let_def)
    have "reverse_loop str (i + 1) (j - 1) m' a =
        (if i + 1 \<le> ?k \<and> ?k \<le> j - 1 then m' (str + of_int w) else m' a)"
    proof -
      have "w = i + 1 + (j - 1) - ?k" by (simp add: w_def)
      then show ?thesis
        unfolding m'_def by (simp only:) (rule 1(1) [OF True refl refl refl]; use 1(2,3) in simp)
    qed
    moreover have m': "m' (str + of_int q) = (if q = j then m (str + of_int i) else if q = i then m (str + of_int j) else m (str + of_int q))"
      if "i \<le> q" "q \<le> j" for q
      using that 1(2,3) eq [of q i] eq [of q j] by (simp add: m'_def)
    moreover have "m' (str + of_int w) = m (str + of_int w)" if "i < ?k" "?k < j"
      using that m' [of w] by (simp add: w_def)
    moreover have "m' a = m a" if "?k < i \<or> j < ?k"
      using that u [of i] u [of j] 1(2,3) True by (auto simp: m'_def)
    moreover have "m' a = m (str + of_int w)" if "?k = i \<or> ?k = j"
      using that m' [of ?k] True a by (auto simp: w_def)
    ultimately show ?thesis
      unfolding l by (cases "?k = i \<or> ?k = j") auto
  next
    case False
    then have "w = ?k" if "i \<le> ?k" "?k \<le> j" using that by (simp add: w_def)
    then show ?thesis using a False by (auto simp: reverse_loop.simps [of str i j])
  qed
  then show ?case by (simp only: w_def)
qed


lemma reverse_str_ok:
  assumes "length xs < 2 ^ 62" "0 \<notin> set xs"
  shows "reverse_str str (int (length xs)) (put (xs @ [0]) str m) = put (rev xs @ [0]) str m"
proof
  fix a
  let ?k = "unat (a - str)" and ?n = "length xs"
  have b: "put (ys @ [0]) str m (str + of_nat i) = (ys @ [0]) ! i" if "i \<le> length ys" "length ys = ?n" for i ys
    using that assms(1) by (subst put_at) (simp_all add: unat_of_nat_small)
  have "reverse_str str (int ?n) (put (xs @ [0]) str m) a =
      (if ?k < ?n then put (xs @ [0]) str m (str + of_nat (?n - 1 - ?k)) else put (xs @ [0]) str m a)"
  proof -
    have "0 + (int ?n - 1) - uint (a - str) = int (?n - 1 - ?k)" if "?k < ?n"
      using that by (simp add: of_nat_diff)
    moreover have "uint (a - str) \<le> int ?n - 1 \<longleftrightarrow> ?k < ?n"
      by (simp only: uint_nat) linarith
    ultimately show ?thesis
      unfolding reverse_str_def using assms(1) by (subst reverse_loop_at) auto
  qed
  moreover have "put (xs @ [0]) str m (str + of_nat (?n - 1 - ?k)) = put (rev xs @ [0]) str m a" if k: "?k < ?n"
  proof -
    define q where "q = ?n - 1 - ?k"
    have "q < ?n" using k by (simp add: q_def)
    then have "put (xs @ [0]) str m (str + of_nat q) = xs ! q"
      using b [of q xs] by (simp add: nth_append)
    then have "put (xs @ [0]) str m (str + of_nat (?n - 1 - ?k)) = xs ! (?n - 1 - ?k)"
      by (simp only: q_def)
    moreover have "put (rev xs @ [0]) str m a = xs ! (?n - 1 - ?k)"
      using assms(1) k by (subst put_at) (simp_all add: nth_append rev_nth)
    ultimately show ?thesis by (simp only:)
  qed
  moreover have "put (xs @ [0]) str m a = put (rev xs @ [0]) str m a" if "\<not> ?k < ?n"
    using assms(1) that by (simp add: put_at nth_append)
  ultimately show "reverse_str str (int ?n) (put (xs @ [0]) str m) a = put (rev xs @ [0]) str m a"
    by presburger
qed

subsection \<open>Printing and reading digits\<close>

lemma digit_chars: "\<forall>d \<in> {..<36}. digit_of (digit_char (of_nat d)) = Some (int d) \<and> digit_char (of_nat d) \<noteq> 0 \<and>
    \<not> isspace (digit_char (of_nat d)) \<and> digit_char (of_nat d) \<noteq> 0x2D \<and> digit_char (of_nat d) \<noteq> 0x2B \<and>
    (d < 16 \<longrightarrow> digit_char (of_nat d) \<noteq> 0x78 \<and> digit_char (of_nat d) \<noteq> 0x58)"
proof -
  have "list_all (\<lambda>d. digit_of (digit_char (of_nat d)) = Some (int d) \<and> digit_char (of_nat d) \<noteq> 0 \<and>
    \<not> isspace (digit_char (of_nat d)) \<and> digit_char (of_nat d) \<noteq> 0x2D \<and> digit_char (of_nat d) \<noteq> 0x2B \<and>
    (d < 16 \<longrightarrow> digit_char (of_nat d) \<noteq> 0x78 \<and> digit_char (of_nat d) \<noteq> 0x58)) [0..<36]"
    by code_simp
  then show ?thesis unfolding list_all_iff set_upt atLeast0LessThan .
qed

abbreviation digit_bytes :: "nat list \<Rightarrow> u8 list" where
  "digit_bytes ds \<equiv> map (\<lambda>d. digit_char (of_nat d)) ds"

lemma digits_out_ok:
  assumes "2 \<le> unat b" "unat b \<le> 36"
  shows "digits_out u b str (int i) m =
    Some (int (i + length (digits (unat b) (unat u))), put (digit_bytes (digits (unat b) (unat u))) (str + of_nat i) m)"
proof (induction "unat u" arbitrary: u i m rule: less_induct)
  case less
  let ?c = "digit_char (of_nat (unat u mod unat b))"
  have c: "ucast (u mod b) = (of_nat (unat u mod unat b) :: u32)"
    by (simp add: unat_mod [symmetric])
  have z: "u div b = 0 \<longleftrightarrow> unat u < unat b"
    using assms(1) unat_eq_zero [of "u div b"] by (simp add: unat_div div_eq_0_iff)
  show ?case
  proof (cases "unat u < unat b")
    case True
    then show ?thesis using z c by (simp add: digits_out.simps [of u] digits.simps [of "unat b"])
  next
    case False
    then have "unat (u div b) < unat u" using assms by (simp add: unat_div)
    then show ?thesis
      using less [of "u div b" "Suc i"] z c False assms
      by (simp add: digits_out.simps [of u] digits.simps [of "unat b" "unat u"] unat_div algebra_simps)
  qed
qed


lemma digits_in_ok:
  assumes "base \<le> 36"
  shows "c_string m (digit_bytes ds) p \<Longrightarrow> \<forall>d \<in> set ds. d < base \<Longrightarrow>
    digits_in m (int base) p a = Some (p + of_nat (length ds), foldl (\<lambda>a d. a * of_nat base + of_nat d) a ds)"
proof (induction ds arbitrary: p a)
  case (Cons d ds)
  then have "d < 36" using assms by simp
  then have "digit_of (digit_char (of_nat d)) = Some (int d)" using digit_chars by blast
  then show ?case using Cons by (auto simp: digits_in.simps [of m _ p] algebra_simps)
qed (simp add: digits_in.simps [of m])

lemma foldl_of_nat: "foldl (\<lambda>a d. a * of_nat b + of_nat d) (of_nat a) ds = (of_nat (foldl (\<lambda>a d. a * b + d) a ds) :: u64)"
proof (induction ds arbitrary: a)
  case (Cons d ds)
  from Cons [of "a * b + d"] show ?case by simp
qed simp

lemma digits_read:
  assumes "2 \<le> base" "base \<le> 36" "c_string m (digit_bytes (rev (digits base n))) p"
  shows "digits_in m (int base) p 0 = Some (p + of_nat (length (digits base n)), of_nat n)"
    and "number_base m (int base) p = (int base, p)" and "scan isspace m p = Some p" and "m p \<noteq> 0x2D" "m p \<noteq> 0x2B"
proof -
  have l: "\<forall>d \<in> set (rev (digits base n)). d < base" using digits_less assms(1) by simp
  show "digits_in m (int base) p 0 = Some (p + of_nat (length (digits base n)), of_nat n)"
    using digits_in_ok [OF assms(2,3) l, of 0] foldl_of_nat [of base 0 "rev (digits base n)"] digits_value [of base n]
    by (simp add: foldl_conv_foldr)
  have ne: "rev (digits base n) \<noteq> []" by (subst digits.simps) simp
  then obtain d ds where ds: "rev (digits base n) = d # ds" by (cases "rev (digits base n)") auto
  then have d: "m p = digit_char (of_nat d)" "d < base" "d < 36" using assms(2,3) l by auto
  have p1: "base = 16 \<Longrightarrow> m (p + 1) \<noteq> 0x78 \<and> m (p + 1) \<noteq> 0x58"
    using assms(3) l digit_chars unfolding ds by (cases ds) auto
  show "number_base m (int base) p = (int base, p)"
    using p1 assms(1) by (auto simp: number_base_def)
  show "scan isspace m p = Some p" "m p \<noteq> 0x2D" "m p \<noteq> 0x2B"
    using d digit_chars by (auto simp: scan.simps [of isspace m p])
qed


text \<open>What all printing functions do after the sign is known.\<close>

lemma print_ok:
  fixes u :: "'a::len word"
  assumes b: "2 \<le> base" "base \<le> 36" "unat (of_int base :: 'a word) = nat base" and sg: "sg = [] \<or> sg = [0x2D]"
    and k: "unat u < nat base ^ k" "0 < k" "k < 100"
  defines "xs \<equiv> sg @ digit_bytes (rev (digits (nat base) (unat u)))"
  shows "digits_out u (of_int base) str 0 m = Some (i, m') \<Longrightarrow>
      reverse_str str (i + int (length sg)) (put (sg @ [0]) (str + of_int i) m') = put (xs @ [0]) str m"
    and "\<exists>i m'. digits_out u (of_int base) str 0 m = Some (i, m')"
    and "length xs \<le> length sg + k" "c_string (put (xs @ [0]) str m) xs str"
proof -
  let ?ds = "digits (nat base) (unat u)"
  have "2 \<le> nat base" "nat base \<le> 36" using b by auto
  note n = this
  have d: "digits_out u (of_int base) str 0 m = Some (int (length ?ds), put (digit_bytes ?ds) str m)"
    using digits_out_ok [of "of_int base :: 'a word" u str 0 m] n b(3) by simp
  then show "\<exists>i m'. digits_out u (of_int base) str 0 m = Some (i, m')" by blast
  show l: "length xs \<le> length sg + k" using digits_length [OF k(1,2)] by (simp add: xs_def)
  have z: "0 \<notin> set xs"
    using sg digits_less [OF n(1), of _ "unat u"] n(2) digit_chars unfolding xs_def by fastforce
  have lx: "length xs < 2 ^ 62" using l sg k(3) by auto
  show "c_string (put (xs @ [0]) str m) xs str"
    unfolding c_string_bytes using z lx
    by (auto simp: put_at unat_of_nat_small nth_append) (metis nth_mem)
  assume "digits_out u (of_int base) str 0 m = Some (i, m')"
  then have i: "i = int (length ?ds)" "m' = put (digit_bytes ?ds) str m" using d by auto
  have "i + int (length sg) = int (length (rev xs))" "put (sg @ [0]) (str + of_int i) m' = put (rev xs @ [0]) str m"
    using sg by (auto simp: i xs_def put_append rev_map)
  then show "reverse_str str (i + int (length sg)) (put (sg @ [0]) (str + of_int i) m') = put (xs @ [0]) str m"
    using reverse_str_ok [of "rev xs" str m] lx z by simp
qed


lemma digits_end:
  assumes "n < 2 ^ 64" "2 \<le> base"
  shows "(p :: addr) + of_nat (length (digits base n)) \<noteq> p"
proof -
  have "(2 :: nat) ^ 64 \<le> base ^ 64" using assms(2) by (rule power_mono) simp
  then have "n < base ^ 64" using assms(1) by linarith
  then have "length (digits base n) \<le> 64" by (rule digits_length) simp
  moreover have "length (digits base n) \<noteq> 0" by (subst digits.simps) simp
  ultimately have "unat (of_nat (length (digits base n)) :: addr) \<noteq> 0"
    by (subst unat_of_nat_small) simp_all
  then show ?thesis by (simp add: unat_eq_zero)
qed

lemma strtol_digits:
  assumes b: "2 \<le> base" "base \<le> 36" and n: "n < 2 ^ 64" and sg: "sg = [] \<or> sg = [0x2D]"
    and s: "c_string m (sg @ digit_bytes (rev (digits (nat base) n))) p"
  shows "strtol m p base = Some (if sg = [] then of_nat n else - of_nat n, p + of_nat (length sg + length (digits (nat base) n)))"
    and "sg = [] \<Longrightarrow> strtoul m p base = Some (of_nat n, p + of_nat (length (digits (nat base) n)))"
proof -
  have nb: "2 \<le> nat base" "nat base \<le> 36" "int (nat base) = base" using b by auto
  have s': "c_string m (digit_bytes (rev (digits (nat base) n))) (p + of_nat (length sg))"
    using s by (simp add: c_string_append)
  note r = digits_read [OF nb(1,2) s', unfolded nb(3)] digits_end [OF n nb(1), of "p + of_nat (length sg)"]
  have "scan isspace m p = Some p" "m p = 0x2D" if "sg \<noteq> []"
    using that s sg by (auto simp: scan.simps [of isspace m p] isspace_def)
  then show "strtol m p base = Some (if sg = [] then of_nat n else - of_nat n, p + of_nat (length sg + length (digits (nat base) n)))"
    using r sg by (auto simp: strtol_def algebra_simps)
  show "strtoul m p base = Some (of_nat n, p + of_nat (length (digits (nat base) n)))" if "sg = []"
    using r that by (auto simp: strtoul_def)
qed

lemma bound_digits:
  assumes "2 \<le> base" "base \<le> 36" "n < 2 ^ 64"
  shows "n < nat base ^ (if base = 10 then 20 else 64)"
proof (cases "base = 10")
  case False
  have "(2 :: nat) ^ 64 \<le> nat base ^ 64" using assms(1) by (intro power_mono) auto
  then show ?thesis using False assms(3) by simp
qed (use assms in simp)

lemma of_int_base:
  assumes "2 \<le> base" "base \<le> 36"
  shows "unat (of_int base :: u64) = nat base" "unat (of_int base :: u32) = nat base"
proof -
  obtain n where "base = int n" "n \<le> 36" using assms by (intro that [of "nat base"]) auto
  then show "unat (of_int base :: u64) = nat base" "unat (of_int base :: u32) = nat base"
    by (simp_all add: unat_of_nat_small)
qed

text \<open>The text \<open>number_text base sg n\<close> of a number with its sign, and the memory after it was stored.\<close>

abbreviation number_text :: "int \<Rightarrow> u8 list \<Rightarrow> nat \<Rightarrow> u8 list" where
  "number_text base sg n \<equiv> sg @ digit_bytes (rev (digits (nat base) n))"

lemma itoa_signed_ok:
  fixes v :: u64
  assumes b: "2 \<le> base" "base \<le> 36"
  defines "neg \<equiv> sint v < 0 \<and> base = 10"
  defines "xs \<equiv> number_text base (if neg then [0x2D] else []) (unat (if neg then - v else v))"
  shows "itoa_signed v str base m = Some (str, put (xs @ [0]) str m)" "length xs \<le> 64" "c_string (put (xs @ [0]) str m) xs str"
    "strtol (put (xs @ [0]) str m) str base = Some (v, str + of_nat (length xs))"
proof -
  define u where "u = (if neg then - v else v)"
  define sg :: "u8 list" where "sg = (if neg then [0x2D] else [])"
  define k :: nat where "k = (if base = 10 then 20 else 64)"
  have sg: "sg = [] \<or> sg = [0x2D]" and k: "unat u < nat base ^ k" "0 < k" "k < 100"
    using bound_digits [OF b, of "unat u"] unat_less_exp [of u] by (simp_all add: sg_def k_def)
  have xs: "xs = number_text base sg (unat u)" by (simp add: xs_def sg_def u_def)
  note pr = print_ok [OF b of_int_base(1) [OF b] sg k, folded xs]
  obtain i m1 where d: "digits_out u (of_int base) str 0 m = Some (i, m1)" using pr(2) by blast
  show "itoa_signed v str base m = Some (str, put (xs @ [0]) str m)"
    using pr(1) [OF d] d b by (auto simp: itoa_signed_def neg_def [symmetric] u_def sg_def add.assoc split: if_splits)
  show "length xs \<le> 64" using pr(3) by (auto simp: sg_def k_def neg_def split: if_splits)
  show s: "c_string (put (xs @ [0]) str m) xs str" by (rule pr(4))
  show "strtol (put (xs @ [0]) str m) str base = Some (v, str + of_nat (length xs))"
    using strtol_digits(1) [OF b _ sg, of "unat u"] s unat_less_exp [of u] by (auto simp: xs sg_def u_def)
qed

lemma uitoa64_ok:
  fixes v :: u64
  assumes b: "2 \<le> base" "base \<le> 36"
  defines "xs \<equiv> number_text base [] (unat v)"
  shows "uitoa64 v str base m = Some (str, put (xs @ [0]) str m)" "c_string (put (xs @ [0]) str m) xs str"
    "strtoul (put (xs @ [0]) str m) str base = Some (v, str + of_nat (length xs))"
proof -
  have k: "unat v < nat base ^ (if base = 10 then 20 else 64)" "0 < (if base = 10 then 20 else 64 :: nat)"
      "(if base = 10 then 20 else 64) < (100 :: nat)"
    using bound_digits [OF b, of "unat v"] unat_less_exp [of v] by simp_all
  have sg: "[] = [] \<or> [] = [0x2D :: u8]" by simp
  note pr = print_ok [OF b of_int_base(1) [OF b] sg k, folded xs_def]
  obtain i m1 where d: "digits_out v (of_int base) str 0 m = Some (i, m1)" using pr(2) by blast
  show "uitoa64 v str base m = Some (str, put (xs @ [0]) str m)"
    using pr(1) [OF d] d b by (simp add: uitoa64_def)
  show s: "c_string (put (xs @ [0]) str m) xs str" by (rule pr(4))
  show "strtoul (put (xs @ [0]) str m) str base = Some (v, str + of_nat (length xs))"
    using strtol_digits(2) [OF b _ sg, of "unat v"] s unat_less_exp [of v] by (simp add: xs_def)
qed

lemma ucast_uminus: "(ucast (- x :: u64) :: u32) = - ucast x"
proof -
  have "take_bit 32 (take_bit 64 (- i)) = take_bit 32 (- take_bit 64 i)" for i :: int
    using take_bit_minus [of 32 i] take_bit_minus [of 32 "take_bit 64 i"] by (simp add: take_bit_take_bit)
  then show ?thesis by transfer (simp add: take_bit_minus)
qed

lemma ucast_up_down: "(ucast (ucast x :: u64) :: u32) = x"
  by transfer (simp add: take_bit_take_bit)

lemma itoa_ok:
  fixes v :: u32
  assumes b: "2 \<le> base" "base \<le> 36"
  defines "neg \<equiv> sint v < 0 \<and> base = 10"
  defines "xs \<equiv> number_text base (if neg then [0x2D] else []) (unat (if neg then - v else v))"
  shows "itoa v str base m = Some (str, put (xs @ [0]) str m)" "c_string (put (xs @ [0]) str m) xs str"
    "base = 10 \<Longrightarrow> atoi (put (xs @ [0]) str m) str = Some v"
proof -
  define u where "u = (if neg then - v else v)"
  define sg :: "u8 list" where "sg = (if neg then [0x2D] else [])"
  define k :: nat where "k = (if base = 10 then 20 else 64)"
  have u: "unat u < 2 ^ 64" using unat_less_exp [of u] by simp
  then have sg: "sg = [] \<or> sg = [0x2D]" and k: "unat u < nat base ^ k" "0 < k" "k < 100"
    using bound_digits [OF b, of "unat u"] by (simp_all add: sg_def k_def)
  have xs: "xs = number_text base sg (unat u)" by (simp add: xs_def sg_def u_def)
  note pr = print_ok [OF b of_int_base(2) [OF b] sg k, folded xs]
  obtain i m1 where d: "digits_out u (of_int base) str 0 m = Some (i, m1)" using pr(2) by blast
  show "itoa v str base m = Some (str, put (xs @ [0]) str m)"
    using pr(1) [OF d] d b by (auto simp: itoa_def neg_def [symmetric] u_def sg_def add.assoc split: if_splits)
  show s: "c_string (put (xs @ [0]) str m) xs str" by (rule pr(4))
  have "ucast (if sg = [] then of_nat (unat u) else - of_nat (unat u) :: u64) = v"
    by (auto simp: sg_def u_def ucast_uminus ucast_up_down)
  then show "atoi (put (xs @ [0]) str m) str = Some v" if "base = 10"
    using strtol_digits(1) [OF b u sg] s by (simp add: atoi_def xs that)
qed

text \<open>
  C28: \<open>itoa_signed\<close> in any base from 2 to 36 writes a string of at most 64 characters with its terminating zero and no
  other byte, and \<open>strtol\<close> in that base reads the number back and stops at the end of the string, for every 64-bit number;
  \<open>itoa\<close> in base 10 is read back by \<open>atoi\<close>, and \<open>uitoa64\<close> by \<open>strtoul\<close>.
\<close>

theorem itoa_signed_strtol:
  assumes b: "2 \<le> base" "base \<le> 36"
  shows "(\<exists>m' xs. itoa_signed v str base m = Some (str, m') \<and> c_string m' xs str \<and> length xs \<le> 64 \<and>
      (\<forall>x. length xs < unat (x - str) \<longrightarrow> m' x = m x) \<and> strtol m' str base = Some (v, str + of_nat (length xs))) \<and>
    (\<exists>m'. itoa w str 10 m = Some (str, m') \<and> atoi m' str = Some w) \<and>
    (\<exists>m' end. uitoa64 v str base m = Some (str, m') \<and> strtoul m' str base = Some (v, end))"
proof -
  obtain xs where xs: "itoa_signed v str base m = Some (str, put (xs @ [0]) str m)" "length xs \<le> 64"
      "c_string (put (xs @ [0]) str m) xs str" "strtol (put (xs @ [0]) str m) str base = Some (v, str + of_nat (length xs))"
    using itoa_signed_ok [OF b] by blast
  moreover have "put (xs @ [0]) str m x = m x" if "length xs < unat (x - str)" for x
    using that xs(2) by (simp add: put_at)
  ultimately have "\<exists>m' xs. itoa_signed v str base m = Some (str, m') \<and> c_string m' xs str \<and> length xs \<le> 64 \<and>
      (\<forall>x. length xs < unat (x - str) \<longrightarrow> m' x = m x) \<and> strtol m' str base = Some (v, str + of_nat (length xs))"
    by blast
  then show ?thesis
    using itoa_ok(1,3) [of 10 w str m] uitoa64_ok(1,3) [OF b, of v str m] by auto
qed

theorem itoa_signed_strtol_witness:
  "\<exists>m' end. itoa_signed (- 37) 0x1000 10 (\<lambda>_. 0) = Some (0x1000, m') \<and> strtol m' 0x1000 10 = Some (- 37, end)"
  using itoa_signed_strtol [of 10 "- 37" "0x1000" "\<lambda>_. 0" 0] by auto

end
