(* ===== verification/Spec2Isabelle.thy ===== *)
theory Spec2Isabelle
  imports Bits Bitmap Memory Mem_Detect Pframe Pframe_Init Klist Sched Sched_Props Kheap_Main Hashmap Page_Main Atomic Cow_Fault
    Locks_Blocking Waitqueue_Props Vmm_Space Cstring_Num
begin

text \<open>
  A verification library for the CCOS x86_64 kernel (\<open>src/kernel\<close>).

  \<^bold>\<open>The program.\<close> CCOS is a small monolithic kernel. The boot loader leaves a memory map that
  \<open>mm/memory_detect\<close> parses; \<open>mm/pframe\<close> manages the physical frames with a bitmap
  (\<open>bitmap\<close>, \<open>math\<close>).

  \<^bold>\<open>Conventions.\<close> A C integer of \<open>w\<close> bits is a \<open>w word\<close>, so arithmetic wraps around as in
  the source. An operation that may stop in \<open>panic()\<close> (a failed \<open>CCOS_ASSERT\<close>, or
  \<open>CCOS_DEBUG_ASSERT\<close> as in the debug build) or access an array out of bounds returns an
  \<open>option\<close>, and \<open>None\<close> is the stopped kernel; a theorem that an operation returns
  \<open>Some\<close> says that it does not stop. Static variables are fields of a state record that is passed
  and returned. Counted loops are \<open>fold_opt\<close> over the list of indices, search loops with an
  early return \<open>find_opt\<close>.
\<close>

end
